(* ===== verification/Prelude.thy ===== *)
theory Prelude
  imports Main "HOL-Library.Word"
begin

text \<open>
  What every component shares: the machine types of the Rust sources, the saturating and
  wrapping operations on them, the list operations that stand for \<open>VecDeque\<close> and \<open>Vec\<close>
  methods, the collections of simp rules the components fill, and the contract of a system
  whose steps keep an invariant.
\<close>

subsection \<open>Machine types\<close>

text \<open>
  A \<open>u64\<close> or \<open>usize\<close> (64 bit) that enters the program from outside is a 64-bit word, so its
  bound is part of its type. A \<open>u64\<close> counter that the program only ever increments is a
  natural number with the saturation written out. An \<open>i64\<close> is an integer with the
  two's complement wrap written out. An \<open>Instant\<close> or a \<open>Duration\<close> is a number of
  nanoseconds; \<open>duration_since\<close> is subtraction on naturals, which stops at zero as
  Rust's does.
\<close>

type_synonym u64 = "64 word"
type_synonym usize = "64 word"
type_synonym i64 = int
type_synonym instant = nat
type_synonym duration = nat

text \<open>The clock: \<open>clk n\<close> is the value that the \<open>n\<close>-th call of \<open>Instant::now()\<close> returns.\<close>

type_synonym clock = "nat \<Rightarrow> instant"

abbreviation u64_max :: nat where
  "u64_max \<equiv> 18446744073709551615"

abbreviation u32_max :: nat where
  "u32_max \<equiv> 4294967295"

abbreviation u128_max :: nat where
  "u128_max \<equiv> 340282366920938463463374607431768211455"

abbreviation i64_max :: int where
  "i64_max \<equiv> 9223372036854775807"

definition saturating_add :: "nat \<Rightarrow> nat \<Rightarrow> nat" where
  "saturating_add c delta = min (c + delta) u64_max"

definition saturating_add32 :: "nat \<Rightarrow> nat \<Rightarrow> nat" where
  "saturating_add32 c delta = min (c + delta) u32_max"

definition saturating_mul128 :: "nat \<Rightarrow> nat \<Rightarrow> nat" where
  "saturating_mul128 a b = min (a * b) u128_max"

definition wrapping_inc :: "nat \<Rightarrow> nat" where
  "wrapping_inc n = (n + 1) mod 2 ^ 64"

definition wrap_i64 :: "int \<Rightarrow> i64" where
  "wrap_i64 x = (x + 2 ^ 63) mod 2 ^ 64 - 2 ^ 63"

text \<open>The cast \<open>as i64\<close> of a \<open>u64\<close> reads the same 64 bits as two's complement.\<close>

definition as_i64 :: "u64 \<Rightarrow> i64" where
  "as_i64 w = sint w"

lemma unat_u64_le [simp]: "unat (w :: u64) \<le> u64_max"
proof -
  have "unat w < 2 ^ 64"
    using unsigned_less [of w] by simp
  then show ?thesis by simp
qed

lemma saturating_add_exact: "c + d \<le> u64_max \<Longrightarrow> saturating_add c d = c + d"
  by (simp add: saturating_add_def)

lemma saturating_add_0 [simp]: "c \<le> u64_max \<Longrightarrow> saturating_add c 0 = c"
  by (simp add: saturating_add_def)

lemma saturating_add_le [simp]: "saturating_add c d \<le> u64_max"
  by (simp add: saturating_add_def)

lemma saturating_add_mono: "c \<le> u64_max \<Longrightarrow> c \<le> saturating_add c d"
  by (simp add: saturating_add_def)

lemma wrap_i64_id: "- (2 ^ 63) \<le> x \<Longrightarrow> x < 2 ^ 63 \<Longrightarrow> wrap_i64 x = x"
  by (simp add: wrap_i64_def)

lemma wrapping_inc_exact: "n < u64_max \<Longrightarrow> wrapping_inc n = Suc n"
  by (simp add: wrapping_inc_def)

lemma as_i64_small:
  assumes "unat w < 2 ^ 63"
  shows "as_i64 w = int (unat w)"
proof -
  from assms have "int (unat w) < int (2 ^ 63)"
    by (simp only: of_nat_less_iff)
  then have "uint w < 2 ^ 63"
    by (simp only: uint_nat of_nat_power of_nat_numeral)
  moreover have "- (2 ^ 63) \<le> uint w"
    by (rule order_trans [OF _ uint_ge_0]) simp
  ultimately have "signed_take_bit 63 (uint w) = uint w"
    by (intro signed_take_bit_int_eq_self)
  moreover have "sint w = signed_take_bit 63 (uint w)"
    using sint_uint [of w] by simp
  ultimately show ?thesis
    by (simp only: as_i64_def uint_nat)
qed

subsection \<open>Sequences\<close>

text \<open>\<open>VecDeque::remove\<close> at an index that is in range.\<close>

definition remove_at :: "nat \<Rightarrow> 'a list \<Rightarrow> 'a list" where
  "remove_at i xs = take i xs @ drop (Suc i) xs"

lemma remove_at_length_append [simp]: "remove_at (length xs) (xs @ y # ys) = xs @ ys"
  by (simp add: remove_at_def)

lemma length_remove_at: "i < length xs \<Longrightarrow> length (remove_at i xs) = length xs - 1"
  by (simp add: remove_at_def)

lemma filter_dropWhile_distinct:
  assumes "distinct (map f xs)"
  shows "filter (\<lambda>x. f x \<notin> f ` set (takeWhile P xs)) xs = dropWhile P xs"
proof -
  let ?a = "takeWhile P xs" and ?b = "dropWhile P xs"
  have x: "xs = ?a @ ?b" by simp
  with assms have "distinct (map f ?a @ map f ?b)"
    by (metis map_append)
  then have d: "f ` set ?a \<inter> f ` set ?b = {}" by simp
  then have "filter (\<lambda>x. f x \<notin> f ` set ?a) ?b = ?b"
    by (auto simp: filter_id_conv)
  moreover have "filter (\<lambda>x. f x \<notin> f ` set ?a) ?a = []"
    by (auto simp: filter_empty_conv)
  ultimately have "filter (\<lambda>x. f x \<notin> f ` set ?a) (?a @ ?b) = ?b"
    by (simp only: filter_append append_Nil)
  then show ?thesis by simp
qed

text \<open>Taking out a prefix and the elements with \<open>P\<close> of a middle part, by their keys.\<close>

lemma filter_out_keys:
  assumes "distinct (map f (xs @ ys @ zs))"
  shows "filter (\<lambda>x. f x \<notin> f ` set (xs @ filter P ys)) (xs @ ys @ zs) = filter (\<lambda>x. \<not> P x) ys @ zs"
proof -
  have inj: "inj_on f (set ys)" and dis: "f ` set xs \<inter> f ` set ys = {}"
    "f ` set xs \<inter> f ` set zs = {}" "f ` set ys \<inter> f ` set zs = {}"
    using assms by (auto simp: distinct_map)
  have "filter (\<lambda>x. f x \<notin> f ` set (xs @ filter P ys)) xs = []"
    by (auto simp: filter_empty_conv)
  moreover have "filter (\<lambda>x. f x \<notin> f ` set (xs @ filter P ys)) ys = filter (\<lambda>x. \<not> P x) ys"
    using inj dis(1) by (intro filter_cong) (auto dest: inj_onD)
  moreover have "filter (\<lambda>x. f x \<notin> f ` set (xs @ filter P ys)) zs = zs"
    using dis by (auto simp: filter_id_conv)
  ultimately show ?thesis by (simp only: filter_append append_Nil)
qed

lemma filter_other_key: "k \<notin> f ` set xs \<Longrightarrow> filter (\<lambda>x. f x \<noteq> k) xs = xs"
  by (induction xs) auto

lemma distinct_map_filter_le: "distinct (map f xs) \<Longrightarrow> distinct (map f (filter P xs))"
  by (induction xs) auto

subsection \<open>Collections of rules\<close>

named_theorems frame_simps \<open>fields an operation leaves alone\<close>
named_theorems branch_simps \<open>what an operation does on each branch\<close>

subsection \<open>Systems whose steps keep an invariant\<close>

text \<open>
  The invariant takes the number of steps made so far: the identifiers and the counters of
  the scheduler are 64 bit wide, and what they promise holds for the runs that do not
  exhaust them.
\<close>

locale counted_system =
  fixes start :: 's
    and step :: "'e \<Rightarrow> 's \<Rightarrow> 's"
    and inv :: "nat \<Rightarrow> 's \<Rightarrow> bool"
    and bound :: nat
  assumes inv_start: "inv 0 start"
    and inv_step: "inv n s \<Longrightarrow> n < bound \<Longrightarrow> inv (Suc n) (step e s)"
begin

lemma inv_run_from:
  "inv n s \<Longrightarrow> n + length es \<le> bound \<Longrightarrow> inv (n + length es) (fold step es s)"
proof (induction es arbitrary: n s)
  case Nil
  then show ?case by simp
next
  case (Cons e es)
  then have "inv (Suc n) (step e s)"
    by (intro inv_step) auto
  with Cons.prems have "inv (Suc n + length es) (fold step es (step e s))"
    by (intro Cons.IH) auto
  then show ?case by simp
qed

lemma inv_run: "length es \<le> bound \<Longrightarrow> inv (length es) (fold step es start)"
  using inv_run_from [OF inv_start, of es] by simp

end

subsection \<open>Counting the members of a list\<close>

definition number :: "('b \<Rightarrow> bool) \<Rightarrow> 'b list \<Rightarrow> nat" where
  "number P xs = length (filter P xs)"

lemma number_simps [simp]:
  "number P [] = 0" "number P (x # xs) = (if P x then Suc (number P xs) else number P xs)"
  by (simp_all add: number_def)

lemma number_pos: "x \<in> set xs \<Longrightarrow> P x \<Longrightarrow> 0 < number P xs"
  by (induction xs) auto

lemma number_replicate: "number P (replicate n x) = (if P x then n else 0)"
  by (induction n) simp_all

lemma number_update:
  "i < length xs \<Longrightarrow>
    number P (xs[i := v]) + (if P (xs ! i) then 1 else 0) = number P xs + (if P v then 1 else 0)"
proof (induction xs arbitrary: i)
  case (Cons x xs)
  then show ?case by (cases i) auto
qed simp

end
