(* ===== verification/Api.thy ===== *)
theory Api
  imports Prelude
begin

text \<open>
  The public data types of \<open>firq-core\<close> (\<open>crates/firq-core/src/api.rs\<close>): tenant keys,
  priorities with their dispatch order, tasks, the configuration with its defaults, the
  backpressure policies and the results of the operations.
\<close>

datatype tenant_key = TenantKey (as_u64: u64)

datatype priority = High | Normal | Low

fun index :: "priority \<Rightarrow> nat" where
  "index High = 0"
| "index Normal = 1"
| "index Low = 2"

definition ordered :: "priority list" where
  "ordered = [High, Normal, Low]"

record 'a task =
  payload :: 'a
  enqueue_ts :: instant
  deadline :: "instant option"
  prio :: priority
  cost :: u64

datatype backpressure_policy =
    Reject
  | DropOldestPerTenant
  | DropNewestPerTenant
  | Timeout duration

type_synonym quantum_provider = "tenant_key \<Rightarrow> u64"

record config =
  cfg_shards :: usize
  max_global :: usize
  max_per_tenant :: usize
  cfg_quantum :: u64
  quantum_by_tenant :: "tenant_key \<rightharpoonup> u64"
  cfg_quantum_provider :: "quantum_provider option"
  backpressure :: backpressure_policy
  backpressure_by_tenant :: "tenant_key \<rightharpoonup> backpressure_policy"
  top_tenants_capacity :: usize

definition default_config :: config where
  "default_config =
    \<lparr>cfg_shards = 1, max_global = 1000, max_per_tenant = 100, cfg_quantum = 10,
     quantum_by_tenant = Map.empty, cfg_quantum_provider = None,
     backpressure = Reject, backpressure_by_tenant = Map.empty,
     top_tenants_capacity = 10\<rparr>"

datatype reject_reason = GlobalFull | TenantFull | TimedOut

datatype enqueue_result =
    EnqEnqueued
  | EnqRejected reject_reason
  | EnqClosed

datatype task_handle = TaskHandle (handle_id: nat)

datatype enqueue_with_handle_result =
    Enqueued task_handle
  | Rejected reject_reason
  | EnqueueClosed

datatype close_mode = Immediate | Drain

datatype cancel_result = Cancelled | NotFound

datatype 'a dequeue_result =
    DequeuedTask tenant_key "'a task"
  | Empty
  | Closed

record tenant_count =
  tc_tenant :: tenant_key
  tc_count :: nat

subsection \<open>Dispatch order\<close>

text \<open>Priorities are ordered by their index: the smaller one is dispatched first.\<close>

instantiation priority :: linorder
begin

definition less_eq_priority :: "priority \<Rightarrow> priority \<Rightarrow> bool" where
  "less_eq_priority a b \<longleftrightarrow> index a \<le> index b"

definition less_priority :: "priority \<Rightarrow> priority \<Rightarrow> bool" where
  "less_priority a b \<longleftrightarrow> index a < index b"

instance
proof
  fix a b :: priority
  show "a \<le> b \<Longrightarrow> b \<le> a \<Longrightarrow> a = b"
    by (cases a; cases b) (simp_all add: less_eq_priority_def)
qed (auto simp: less_eq_priority_def less_priority_def)

end

lemma set_ordered [simp]: "set ordered = UNIV"
  using priority.exhaust by (auto simp: ordered_def)

lemma distinct_ordered [simp]: "distinct ordered"
  by (simp add: ordered_def)

lemma sorted_ordered: "sorted ordered"
  by (simp add: ordered_def less_eq_priority_def)

lemma map_index_ordered: "map index ordered = [0, 1, 2]"
  by (simp add: ordered_def)

lemma UNIV_priority: "(UNIV :: priority set) = {High, Normal, Low}"
  using priority.exhaust by blast

lemma all_priority: "(\<forall>p. P p) \<longleftrightarrow> P High \<and> P Normal \<and> P Low"
  by (metis priority.exhaust)

end
