(* ===== verification/Ring.thy ===== *)
theory Ring
  imports Prelude
begin

text \<open>
  \<open>ActiveRing\<close> of \<open>crates/firq-core/src/state.rs\<close>: a FIFO kept in a vector with a moving
  head, the live part being the vector from the head on. The operations are those of the
  code, compaction included; the contract \<open>fifo_ring\<close> is what the scheduler relies on, and
  the model of \<open>ActiveRing\<close> provides it.
\<close>

record 'a active_ring =
  buf :: "'a list"
  head :: nat

definition ring_new :: "'a active_ring" where
  "ring_new = \<lparr>buf = [], head = 0\<rparr>"

definition ring_len :: "'a active_ring \<Rightarrow> nat" where
  "ring_len r = length (buf r) - head r"

definition ring_is_empty :: "'a active_ring \<Rightarrow> bool" where
  "ring_is_empty r \<longleftrightarrow> ring_len r = 0"

definition ring_push_back :: "'a active_ring \<Rightarrow> 'a \<Rightarrow> 'a active_ring" where
  "ring_push_back r x =
    (let r1 = (if head r = length (buf r) then r\<lparr>buf := [], head := 0\<rparr> else r)
     in r1\<lparr>buf := buf r1 @ [x]\<rparr>)"

definition ring_pop_front :: "'a active_ring \<Rightarrow> 'a option \<times> 'a active_ring" where
  "ring_pop_front r =
    (if head r \<ge> length (buf r) then (None, r)
     else
       let item = buf r ! head r;
           r1 = r\<lparr>head := head r + 1\<rparr>
       in if 64 < head r1 \<and> length (buf r1) \<le> head r1 * 2
          then (Some item, r1\<lparr>buf := drop (head r1) (buf r1), head := 0\<rparr>)
          else if head r1 = length (buf r1)
          then (Some item, r1\<lparr>buf := [], head := 0\<rparr>)
          else (Some item, r1))"

text \<open>What a ring holds, and what its operations keep true of the representation.\<close>

definition ring_items :: "'a active_ring \<Rightarrow> 'a list" where
  "ring_items r = drop (head r) (buf r)"

definition ring_inv :: "'a active_ring \<Rightarrow> bool" where
  "ring_inv r \<longleftrightarrow> head r \<le> length (buf r) \<and> (head r \<le> 64 \<or> head r * 2 < length (buf r))"

subsection \<open>The contract of a FIFO ring\<close>

locale fifo_ring =
  fixes items :: "'r \<Rightarrow> 'x list"
    and valid :: "'r \<Rightarrow> bool"
    and create :: 'r
    and push :: "'r \<Rightarrow> 'x \<Rightarrow> 'r"
    and pop :: "'r \<Rightarrow> 'x option \<times> 'r"
    and len :: "'r \<Rightarrow> nat"
    and is_emp :: "'r \<Rightarrow> bool"
  assumes items_create: "items create = []"
    and valid_create: "valid create"
    and items_push: "valid r \<Longrightarrow> items (push r x) = items r @ [x]"
    and valid_push: "valid r \<Longrightarrow> valid (push r x)"
    and pop_Nil: "valid r \<Longrightarrow> items r = [] \<Longrightarrow> pop r = (None, r)"
    and pop_Cons: "valid r \<Longrightarrow> items r = x # xs \<Longrightarrow> \<exists>r'. pop r = (Some x, r') \<and> valid r' \<and> items r' = xs"
    and len_items: "valid r \<Longrightarrow> len r = length (items r)"
    and is_emp_items: "valid r \<Longrightarrow> is_emp r \<longleftrightarrow> items r = []"
begin

lemma pop_SomeD:
  assumes "valid r" and "pop r = (Some x, r')"
  shows "items r = x # items r' \<and> valid r'"
proof (cases "items r")
  case Nil
  with assms show ?thesis by (simp add: pop_Nil)
next
  case (Cons y ys)
  with assms pop_Cons [OF assms(1) Cons] show ?thesis by auto
qed

lemma pop_NoneD: "valid r \<Longrightarrow> pop r = (None, r') \<Longrightarrow> items r = [] \<and> r' = r"
  using pop_Nil pop_Cons by (cases "items r") fastforce+

lemma push_pop_rotates:
  assumes "valid r" and "pop r = (Some x, r')"
  shows "items (push r' x) = rotate1 (items r)"
  using pop_SomeD [OF assms] by (simp add: items_push)

lemma items_push_all:
  "valid r \<Longrightarrow> items (foldl push r xs) = items r @ xs \<and> valid (foldl push r xs)"
  by (induction xs arbitrary: r) (auto simp: items_push valid_push)

lemma pop_push_cases:
  assumes "valid r"
  obtains (empty) "items r = []" "pop r = (None, r)" "is_emp r" "len r = 0"
    | (item) x r' where "pop r = (Some x, r')" "valid r'" "items r = x # items r'"
        "\<not> is_emp r" "len r = Suc (len r')"
proof (cases "items r")
  case Nil
  then show ?thesis
    using assms empty by (simp add: pop_Nil is_emp_items len_items)
next
  case (Cons x xs)
  then obtain r' where "pop r = (Some x, r')" "valid r'" "items r' = xs"
    using pop_Cons assms by blast
  with Cons assms show ?thesis
    using item by (simp add: is_emp_items len_items)
qed

end

subsection \<open>\<open>ActiveRing\<close> provides it\<close>

lemma ring_pop_front_None: "head r \<ge> length (buf r) \<Longrightarrow> ring_pop_front r = (None, r)"
  by (simp add: ring_pop_front_def)

lemma ring_pop_front_Some:
  assumes "ring_inv r" and "ring_items r = x # xs"
  shows "\<exists>r'. ring_pop_front r = (Some x, r') \<and> ring_inv r' \<and> ring_items r' = xs"
proof -
  from assms have l: "head r < length (buf r)"
    by (cases "head r < length (buf r)") (simp_all add: ring_items_def)
  with assms have x: "buf r ! head r = x" and xs: "drop (Suc (head r)) (buf r) = xs"
    by (auto simp: ring_items_def Cons_nth_drop_Suc [symmetric])
  show ?thesis
    using l x xs assms(1) by (auto simp: ring_pop_front_def Let_def ring_inv_def ring_items_def)
qed

lemma ring_items_push: "ring_inv r \<Longrightarrow> ring_items (ring_push_back r x) = ring_items r @ [x]"
  by (auto simp: ring_items_def ring_push_back_def ring_inv_def Let_def)

lemma ring_inv_push: "ring_inv r \<Longrightarrow> ring_inv (ring_push_back r x)"
  by (auto simp: ring_push_back_def ring_inv_def Let_def)

interpretation ring: fifo_ring ring_items ring_inv ring_new ring_push_back ring_pop_front
  ring_len ring_is_empty
proof unfold_locales
  fix r :: "'a active_ring" and x xs
  show "ring_items ring_new = ([] :: 'a list)"
    by (simp add: ring_items_def ring_new_def)
  show "ring_inv (ring_new :: 'a active_ring)"
    by (simp add: ring_inv_def ring_new_def)
  show "ring_inv r \<Longrightarrow> ring_items r = [] \<Longrightarrow> ring_pop_front r = (None, r)"
    by (simp add: ring_items_def ring_pop_front_None)
  show "ring_inv r \<Longrightarrow> ring_len r = length (ring_items r)"
    by (simp add: ring_len_def ring_items_def)
  show "ring_inv r \<Longrightarrow> ring_is_empty r \<longleftrightarrow> ring_items r = []"
    by (simp add: ring_is_empty_def ring_len_def ring_items_def)
qed (simp_all add: ring_items_push ring_inv_push ring_pop_front_Some)

lemmas ring_simps [simp] = ring.items_create ring.valid_create ring.items_push ring.valid_push
  ring.len_items ring.is_emp_items

subsection \<open>Refinement of a queue\<close>

text \<open>Any sequence of calls, on the ring and on the list it stands for.\<close>

datatype 'a ring_call = CallPush 'a | CallPop

fun ring_calls :: "'a ring_call list \<Rightarrow> 'a active_ring \<Rightarrow> 'a option list \<times> 'a active_ring" where
  "ring_calls [] r = ([], r)"
| "ring_calls (CallPush x # cs) r = ring_calls cs (ring_push_back r x)"
| "ring_calls (CallPop # cs) r =
    (let (x, r1) = ring_pop_front r; (xs, r2) = ring_calls cs r1 in (x # xs, r2))"

fun queue_calls :: "'a ring_call list \<Rightarrow> 'a list \<Rightarrow> 'a option list \<times> 'a list" where
  "queue_calls [] q = ([], q)"
| "queue_calls (CallPush x # cs) q = queue_calls cs (q @ [x])"
| "queue_calls (CallPop # cs) [] = (let (xs, q2) = queue_calls cs [] in (None # xs, q2))"
| "queue_calls (CallPop # cs) (x # q) = (let (xs, q2) = queue_calls cs q in (Some x # xs, q2))"

lemma ring_calls_refine:
  "ring_inv r \<Longrightarrow> ring_calls cs r = (xs, r') \<Longrightarrow>
    ring_inv r' \<and> queue_calls cs (ring_items r) = (xs, ring_items r')"
proof (induction cs r arbitrary: xs rule: ring_calls.induct)
  case (3 cs r)
  from "3.prems"(1) show ?case
  proof (cases rule: ring.pop_push_cases)
    case empty
    with "3.prems" "3.IH" show ?thesis by (fastforce split: prod.splits)
  next
    case (item x r1)
    with "3.prems" "3.IH" show ?thesis by (fastforce split: prod.splits)
  qed
qed auto

text \<open>
  C11: The ring is a first-in first-out queue: whatever the sequence of calls, it answers what a
  list with appending and taking the head answers, compaction notwithstanding. Its vector
  never grows past twice what the ring holds plus 64 places, and an index is never out of
  its range.
\<close>

theorem ring_is_queue:
  assumes "ring_calls cs ring_new = (xs, r)"
  shows "queue_calls cs [] = (xs, ring_items r) \<and> ring_len r = length (ring_items r) \<and>
    head r \<le> length (buf r) \<and> length (buf r) \<le> 2 * ring_len r + 64"
proof -
  from ring_calls_refine [OF ring.valid_create assms] have inv: "ring_inv r"
    and q: "queue_calls cs [] = (xs, ring_items r)" by simp_all
  from inv have "length (buf r) \<le> 2 * (length (buf r) - head r) + 64" by (auto simp: ring_inv_def)
  with inv q show ?thesis by (simp add: ring_inv_def ring_len_def ring_items_def)
qed

theorem ring_is_queue_witness:
  "queue_calls [CallPush 1, CallPush 2, CallPop, CallPush 3, CallPop, CallPop, CallPop] [] =
    ([Some 1, Some 2, Some 3, None], [] :: nat list)"
proof -
  have "ring_calls [CallPush 1, CallPush 2, CallPop, CallPush 3, CallPop, CallPop, CallPop] ring_new =
      ([Some 1, Some 2, Some 3, None], ring_new :: nat active_ring)"
    by (simp add: ring_new_def ring_push_back_def ring_pop_front_def)
  from ring_is_queue [OF this] show ?thesis by simp
qed

end
