(* ===== verification/Top_Tenants.thy ===== *)
theory Top_Tenants
  imports Api "HOL-Library.Multiset"
begin

text \<open>
  \<open>TopTenants\<close> of \<open>crates/firq-core/src/state.rs\<close>: the bounded table of top talkers. A
  recorded tenant that is not in a full table takes over the entry with the smallest
  count, which makes the table a space-saving sketch; the lemmas show what that gives:
  counts never underestimate, they sum to what was recorded, and a tenant with more than
  its share of the total cannot be missing.
\<close>

record top_tenants =
  capacity :: nat
  entries :: "tenant_count list"

definition top_tenants_new :: "nat \<Rightarrow> top_tenants" where
  "top_tenants_new c = \<lparr>capacity = c, entries = []\<rparr>"

text \<open>\<open>iter_mut().find(..)\<close> and the update of the entry found, if there is one.\<close>

fun bump_first :: "tenant_key \<Rightarrow> nat \<Rightarrow> tenant_count list \<Rightarrow> tenant_count list option" where
  "bump_first t delta [] = None"
| "bump_first t delta (e # es) =
    (if tc_tenant e = t
     then Some (e\<lparr>tc_count := saturating_add (tc_count e) delta\<rparr> # es)
     else map_option ((#) e) (bump_first t delta es))"

text \<open>The fold that finds the first entry with the smallest count.\<close>

definition pick_min :: "nat \<times> nat \<Rightarrow> nat \<times> tenant_count \<Rightarrow> nat \<times> nat" where
  "pick_min = (\<lambda>(min_idx, min_val) (idx, entry).
     if tc_count entry < min_val then (idx, tc_count entry) else (min_idx, min_val))"

definition min_entry :: "tenant_count list \<Rightarrow> nat \<times> nat" where
  "min_entry es = foldl pick_min (0, u64_max) (enumerate 0 es)"

definition tt_record :: "top_tenants \<Rightarrow> tenant_key \<Rightarrow> nat \<Rightarrow> top_tenants" where
  "tt_record tt t delta =
    (if capacity tt = 0 then tt
     else case bump_first t delta (entries tt) of
       Some es \<Rightarrow> tt\<lparr>entries := es\<rparr>
     | None \<Rightarrow>
         if length (entries tt) < capacity tt
         then tt\<lparr>entries := entries tt @ [\<lparr>tc_tenant = t, tc_count = delta\<rparr>]\<rparr>
         else let (min_idx, min_count) = min_entry (entries tt)
              in tt\<lparr>entries := (entries tt)[min_idx :=
                    \<lparr>tc_tenant = t, tc_count = saturating_add min_count delta\<rparr>]\<rparr>)"

definition snapshot :: "top_tenants \<Rightarrow> tenant_count list" where
  "snapshot tt = sort_key (\<lambda>e. - int (tc_count e)) (entries tt)"

subsection \<open>The snapshot\<close>

lemma mset_snapshot: "mset (snapshot tt) = mset (entries tt)"
  by (simp add: snapshot_def)

lemma sorted_snapshot: "sorted_wrt (\<lambda>a b. tc_count b \<le> tc_count a) (snapshot tt)"
proof -
  have "sorted (map (\<lambda>e. - int (tc_count e)) (snapshot tt))"
    by (simp add: snapshot_def)
  then show ?thesis
    by (simp add: sorted_map)
qed

subsection \<open>The pieces of \<open>record\<close>\<close>

abbreviation tracked :: "tenant_count list \<Rightarrow> tenant_key set" where
  "tracked es \<equiv> tc_tenant ` set es"

abbreviation total_count :: "tenant_count list \<Rightarrow> nat" where
  "total_count es \<equiv> sum_list (map tc_count es)"

lemma bump_first_None: "bump_first t d es = None \<longleftrightarrow> t \<notin> tracked es"
  by (induction es) auto

lemma bump_first_tenants: "bump_first t d es = Some es' \<Longrightarrow> map tc_tenant es' = map tc_tenant es"
  by (induction es arbitrary: es') (auto split: if_splits)

lemma bump_first_nth:
  assumes "bump_first t d es = Some es'"
  shows "\<exists>i < length es. tc_tenant (es ! i) = t \<and>
    es' = es[i := (es ! i)\<lparr>tc_count := saturating_add (tc_count (es ! i)) d\<rparr>]"
  using assms
proof (induction es arbitrary: es')
  case Nil
  then show ?case by simp
next
  case (Cons e es)
  show ?case
  proof (cases "tc_tenant e = t")
    case True
    with Cons.prems show ?thesis by (intro exI [of _ 0]) auto
  next
    case False
    with Cons.prems obtain es1 where "bump_first t d es = Some es1" and "es' = e # es1"
      by auto
    with Cons.IH [of es1] show ?thesis
      by (metis Suc_less_eq length_Cons list_update_code(3) nth_Cons_Suc)
  qed
qed

lemma foldl_pick_min:
  assumes "foldl pick_min (mi, mv) (enumerate k es) = (i, v)"
  shows "v \<le> mv \<and> (\<forall>e \<in> set es. v \<le> tc_count e) \<and>
    ((i, v) = (mi, mv) \<or> k \<le> i \<and> i < k + length es \<and> tc_count (es ! (i - k)) = v)"
  using assms
proof (induction es arbitrary: k mi mv)
  case Nil
  then show ?case by simp
next
  case (Cons e es)
  let ?s = "if tc_count e < mv then (k, tc_count e) else (mi, mv)"
  obtain mi1 mv1 where s: "?s = (mi1, mv1)" by (cases ?s)
  with Cons.prems have "foldl pick_min (mi1, mv1) (enumerate (Suc k) es) = (i, v)"
    by (simp add: pick_min_def)
  note IH = Cons.IH [OF this]
  have idx: "(e # es) ! (i - k) = es ! (i - Suc k)" if "Suc k \<le> i"
    using that by (simp add: nth_Cons' diff_Suc)
  show ?case
    using IH s by (auto simp: idx split: if_splits)
qed

lemma min_entry_min:
  assumes "es \<noteq> []" and "\<forall>e \<in> set es. tc_count e \<le> u64_max" and "min_entry es = (i, v)"
  shows "i < length es \<and> tc_count (es ! i) = v \<and> (\<forall>e \<in> set es. v \<le> tc_count e)"
proof -
  note m = foldl_pick_min [OF assms(3) [unfolded min_entry_def]]
  show ?thesis
  proof (cases "(i, v) = (0, u64_max)")
    case True
    from assms(1,2) m True have "tc_count (es ! 0) = u64_max"
      by (metis Pair_inject le_antisym length_greater_0_conv nth_mem)
    with True assms(1) m show ?thesis by auto
  next
    case False
    with m show ?thesis by auto
  qed
qed

lemma total_count_update:
  "i < length es \<Longrightarrow> total_count (es[i := e]) + tc_count (es ! i) = total_count es + tc_count e"
proof (induction es arbitrary: i)
  case Nil
  then show ?case by simp
next
  case (Cons x es)
  then show ?case by (cases i) auto
qed

lemma total_count_ge: "e \<in> set es \<Longrightarrow> tc_count e \<le> total_count es"
  by (induction es) auto

lemma total_count_min: "\<forall>e \<in> set es. v \<le> tc_count e \<Longrightarrow> length es * v \<le> total_count es"
  by (induction es) auto

lemma tracked_update:
  assumes "distinct (map tc_tenant es)" and "i < length es"
  shows "tracked (es[i := e]) = insert (tc_tenant e) (tracked es - {tc_tenant (es ! i)})"
proof -
  have "set (map tc_tenant (es[i := e])) = set ((map tc_tenant es)[i := tc_tenant e])"
    by (simp only: map_update)
  also have "\<dots> = insert (tc_tenant e) (set (map tc_tenant es) - {map tc_tenant es ! i})"
    using assms by (intro set_update_distinct) simp_all
  finally show ?thesis using assms(2) by simp
qed

lemma tracked_update_distinct:
  assumes "distinct (map tc_tenant es)" and "tc_tenant e \<notin> tracked es"
  shows "distinct (map tc_tenant (es[i := e]))"
proof -
  have "distinct ((map tc_tenant es)[i := tc_tenant e])"
    using assms by (intro distinct_list_update) auto
  then show ?thesis by (simp only: map_update)
qed

subsection \<open>What a recorded history gives\<close>

text \<open>The weight of a tenant in a history of recordings, and the weight of the history.\<close>

definition weight :: "tenant_key \<Rightarrow> (tenant_key \<times> nat) list \<Rightarrow> nat" where
  "weight t h = sum_list (map snd (filter (\<lambda>x. fst x = t) h))"

definition total_weight :: "(tenant_key \<times> nat) list \<Rightarrow> nat" where
  "total_weight h = sum_list (map snd h)"

definition record_all :: "top_tenants \<Rightarrow> (tenant_key \<times> nat) list \<Rightarrow> top_tenants" where
  "record_all tt h = foldl (\<lambda>tt (t, d). tt_record tt t d) tt h"

definition sketch :: "(tenant_key \<times> nat) list \<Rightarrow> top_tenants \<Rightarrow> bool" where
  "sketch h tt \<longleftrightarrow>
     length (entries tt) \<le> capacity tt \<and>
     distinct (map tc_tenant (entries tt)) \<and>
     total_count (entries tt) = total_weight h \<and>
     (\<forall>e \<in> set (entries tt). weight (tc_tenant e) h \<le> tc_count e) \<and>
     (\<forall>t. t \<notin> tracked (entries tt) \<longrightarrow>
        (if length (entries tt) < capacity tt then weight t h = 0
         else \<forall>e \<in> set (entries tt). weight t h \<le> tc_count e))"

lemma weight_snoc: "weight t (h @ [(u, d)]) = weight t h + (if u = t then d else 0)"
  by (simp add: weight_def)

lemma total_weight_snoc: "total_weight (h @ [(u, d)]) = total_weight h + d"
  by (simp add: total_weight_def)

lemma sketch_bump:
  assumes "sketch h tt" and "bump_first t d (entries tt) = Some es"
    and "total_weight h + d \<le> u64_max"
  shows "sketch (h @ [(t, d)]) (tt\<lparr>entries := es\<rparr>)"
proof -
  let ?es = "entries tt"
  from bump_first_nth [OF assms(2)] obtain i where i: "i < length ?es" "tc_tenant (?es ! i) = t"
    and es: "es = ?es[i := (?es ! i)\<lparr>tc_count := saturating_add (tc_count (?es ! i)) d\<rparr>]"
    by blast
  from assms(1) have tot: "total_count ?es = total_weight h" by (simp add: sketch_def)
  with total_count_ge [OF nth_mem [OF i(1)]] assms(3)
  have sat: "saturating_add (tc_count (?es ! i)) d = tc_count (?es ! i) + d"
    by (intro saturating_add_exact) linarith
  have len: "length es = length ?es" by (simp add: es)
  have ten: "map tc_tenant es = map tc_tenant ?es"
    using assms(2) by (rule bump_first_tenants)
  then have tr: "tracked es = tracked ?es"
    by (metis list.set_map)
  have total: "total_count es = total_weight h + d"
    using total_count_update [OF i(1), of "(?es ! i)\<lparr>tc_count := tc_count (?es ! i) + d\<rparr>"] tot
    by (simp add: es sat)
  have dist: "distinct (map tc_tenant ?es)" using assms(1) by (simp add: sketch_def)
  have nth: "tc_count (?es ! j) \<le> tc_count (es ! j)" "tc_tenant (es ! j) = tc_tenant (?es ! j)"
    if "j < length ?es" for j
    using that i by (auto simp: es sat nth_list_update)
  have lower: "weight (tc_tenant e) (h @ [(t, d)]) \<le> tc_count e" if e: "e \<in> set es" for e
  proof -
    from e len obtain j where j: "j < length ?es" "e = es ! j"
      by (metis in_set_conv_nth)
    have "weight (tc_tenant (?es ! j)) h \<le> tc_count (?es ! j)"
      using assms(1) j(1) by (simp add: sketch_def)
    moreover have "j = i" if "tc_tenant (?es ! j) = t"
      using dist i j(1) that by (metis length_map nth_eq_iff_index_eq nth_map)
    ultimately show ?thesis
      using i j by (auto simp: es sat weight_snoc nth_list_update)
  qed
  have t_in: "t \<in> tracked ?es" using i by force
  have old: "if length ?es < capacity tt then weight u h = 0
      else \<forall>e \<in> set ?es. weight u h \<le> tc_count e" if "u \<notin> tracked ?es" for u
    using assms(1) that unfolding sketch_def by blast
  have upper: "if length es < capacity tt then weight u (h @ [(t, d)]) = 0
      else \<forall>e \<in> set es. weight u (h @ [(t, d)]) \<le> tc_count e" if u: "u \<notin> tracked es" for u
  proof -
    have "u \<noteq> t" and u': "u \<notin> tracked ?es" using u t_in tr by auto
    moreover have "\<forall>e \<in> set es. weight u h \<le> tc_count e" if "\<forall>e \<in> set ?es. weight u h \<le> tc_count e"
    proof
      fix e assume "e \<in> set es"
      then obtain j where "j < length ?es" "e = es ! j" using len by (metis in_set_conv_nth)
      with that nth(1) show "weight u h \<le> tc_count e" by (meson nth_mem order_trans)
    qed
    ultimately show ?thesis using old [OF u'] len by (simp add: weight_snoc split: if_splits)
  qed
  from assms(1) len ten total dist lower upper show ?thesis
    unfolding sketch_def by (simp add: total_weight_snoc)
qed

lemma sketch_push:
  assumes "sketch h tt" and "t \<notin> tracked (entries tt)" and "length (entries tt) < capacity tt"
  shows "sketch (h @ [(t, d)]) (tt\<lparr>entries := entries tt @ [\<lparr>tc_tenant = t, tc_count = d\<rparr>]\<rparr>)"
proof -
  from assms have zero: "weight u h = 0" if "u \<notin> tracked (entries tt)" for u
    using that unfolding sketch_def by simp
  from assms have low: "weight (tc_tenant e) h \<le> tc_count e" if "e \<in> set (entries tt)" for e
    using that unfolding sketch_def by simp
  from assms(2) have ne: "tc_tenant e \<noteq> t" if "e \<in> set (entries tt)" for e
    using that by auto
  show ?thesis
    using assms zero low ne unfolding sketch_def
    by (auto simp: weight_snoc total_weight_snoc)
qed

lemma sketch_takeover:
  assumes "sketch h tt" and "t \<notin> tracked (entries tt)" and "length (entries tt) = capacity tt"
    and "0 < capacity tt" and m: "min_entry (entries tt) = (i, v)"
    and w: "total_weight h + d \<le> u64_max"
  shows "sketch (h @ [(t, d)])
    (tt\<lparr>entries := (entries tt)[i := \<lparr>tc_tenant = t, tc_count = saturating_add v d\<rparr>]\<rparr>)"
proof -
  let ?es = "entries tt"
  let ?new = "\<lparr>tc_tenant = t, tc_count = v + d\<rparr>"
  from assms(1) have tot: "total_count ?es = total_weight h"
    and dist: "distinct (map tc_tenant ?es)" by (simp_all add: sketch_def)
  have low: "weight (tc_tenant e) h \<le> tc_count e" if "e \<in> set ?es" for e
    using assms(1) that unfolding sketch_def by simp
  have out: "weight u h \<le> tc_count e" if "u \<notin> tracked ?es" "e \<in> set ?es" for u e
    using assms(1,3) that unfolding sketch_def by simp
  have bound: "\<forall>e \<in> set ?es. tc_count e \<le> u64_max"
  proof
    fix e assume "e \<in> set ?es"
    from total_count_ge [OF this] tot w show "tc_count e \<le> u64_max" by linarith
  qed
  have "?es \<noteq> []" using assms(3,4) by auto
  from min_entry_min [OF this bound m] have i: "i < length ?es" "tc_count (?es ! i) = v"
    and v: "\<And>e. e \<in> set ?es \<Longrightarrow> v \<le> tc_count e" by auto
  have vi: "v \<le> total_weight h"
    using total_count_ge [OF nth_mem [OF i(1)]] i(2) tot by simp
  then have sat: "saturating_add v d = v + d"
    using w by (intro saturating_add_exact) linarith
  have new_in: "set (?es[i := ?new]) \<subseteq> insert ?new (set ?es)"
    by (rule set_update_subset_insert)
  have new_tracked: "tracked (?es[i := ?new]) = insert t (tracked ?es - {tc_tenant (?es ! i)})"
    using tracked_update [OF dist i(1), of ?new] by simp
  have gone: "weight (tc_tenant (?es ! i)) h \<le> v" using low [OF nth_mem [OF i(1)]] i(2) by simp
  have "distinct (map tc_tenant (?es[i := ?new]))"
    using tracked_update_distinct [OF dist, of ?new i] assms(2) by simp
  moreover have "total_count (?es[i := ?new]) = total_weight h + d"
    using total_count_update [OF i(1), of ?new] i(2) tot by simp
  moreover have "weight (tc_tenant e) (h @ [(t, d)]) \<le> tc_count e" if "e \<in> set (?es[i := ?new])" for e
  proof -
    from that new_in consider "e = ?new" | "e \<in> set ?es" by blast
    then show ?thesis
    proof cases
      case 1
      with out [OF assms(2) nth_mem [OF i(1)]] i(2) show ?thesis by (simp add: weight_snoc)
    next
      case 2
      with assms(2) have "t \<noteq> tc_tenant e" by auto
      with low [OF 2] show ?thesis by (simp add: weight_snoc)
    qed
  qed
  moreover have "weight u (h @ [(t, d)]) \<le> tc_count e"
    if "u \<notin> tracked (?es[i := ?new])" "e \<in> set (?es[i := ?new])" for u e
  proof -
    have "u \<noteq> t" "u = tc_tenant (?es ! i) \<or> u \<notin> tracked ?es"
      using that(1) new_tracked by auto
    then have "weight u h \<le> v"
      using gone out [OF _ nth_mem [OF i(1)]] i(2) by auto
    moreover have "v \<le> tc_count e" using that(2) new_in v by auto
    ultimately show ?thesis using \<open>u \<noteq> t\<close> by (simp add: weight_snoc)
  qed
  ultimately show ?thesis
    using assms(3) unfolding sketch_def by (simp add: sat total_weight_snoc)
qed

lemma sketch_record:
  assumes "sketch h tt" and "0 < capacity tt" and "total_weight h + d \<le> u64_max"
  shows "sketch (h @ [(t, d)]) (tt_record tt t d)"
proof (cases "bump_first t d (entries tt)")
  case (Some es)
  with sketch_bump [OF assms(1) Some assms(3)] assms(2) show ?thesis
    by (simp add: tt_record_def)
next
  case None
  then have t: "t \<notin> tracked (entries tt)" by (simp add: bump_first_None)
  obtain i v where m: "min_entry (entries tt) = (i, v)" by fastforce
  have "length (entries tt) \<le> capacity tt" using assms(1) by (simp add: sketch_def)
  then consider "length (entries tt) < capacity tt" | "length (entries tt) = capacity tt" by linarith
  then show ?thesis
  proof cases
    case 1
    with sketch_push [OF assms(1) t] None assms(2) show ?thesis by (simp add: tt_record_def)
  next
    case 2
    with sketch_takeover [OF assms(1) t 2 assms(2) m assms(3)] None assms(2) m
    show ?thesis by (simp add: tt_record_def)
  qed
qed

lemma capacity_record [simp]: "capacity (tt_record tt t d) = capacity tt"
  by (simp add: tt_record_def split: option.split prod.split)

lemma capacity_record_all [simp]: "capacity (record_all tt h) = capacity tt"
  unfolding record_all_def by (induction h arbitrary: tt) (auto split: prod.split)

lemma sketch_record_all:
  assumes "0 < c" and "total_weight h \<le> u64_max"
  shows "sketch h (record_all (top_tenants_new c) h)"
  using assms(2)
proof (induction h rule: rev_induct)
  case Nil
  then show ?case
    by (simp add: sketch_def record_all_def top_tenants_new_def total_weight_def weight_def)
next
  case (snoc x h)
  obtain t d where x: "x = (t, d)" by (cases x)
  from snoc.prems have w: "total_weight h + d \<le> u64_max" by (simp add: x total_weight_snoc)
  then have "sketch h (record_all (top_tenants_new c) h)" by (intro snoc.IH) linarith
  with w assms(1) have "sketch (h @ [(t, d)]) (tt_record (record_all (top_tenants_new c) h) t d)"
    by (intro sketch_record) (simp_all add: top_tenants_new_def)
  then show ?case by (simp add: x record_all_def)
qed

lemma sketch_min_share:
  assumes "sketch h tt" and "t \<notin> tracked (entries tt)"
  shows "capacity tt * weight t h \<le> total_weight h"
proof (cases "length (entries tt) < capacity tt")
  case True
  with assms show ?thesis unfolding sketch_def by simp
next
  case False
  with assms have "\<forall>e \<in> set (entries tt). weight t h \<le> tc_count e" and "length (entries tt) = capacity tt"
    unfolding sketch_def by auto
  with total_count_min [OF this(1)] assms(1) show ?thesis
    unfolding sketch_def by simp
qed

subsection \<open>How far the counts are off\<close>

text \<open>An overestimate is at most the share of one entry of the history.\<close>

lemma record_error:
  assumes "sketch h tt" and "0 < capacity tt" and "total_weight h + d \<le> u64_max"
    and err: "\<forall>e \<in> set (entries tt). capacity tt * tc_count e \<le> capacity tt * weight (tc_tenant e) h + total_weight h"
    and e: "e \<in> set (entries (tt_record tt t d))"
  shows "capacity tt * tc_count e \<le> capacity tt * weight (tc_tenant e) (h @ [(t, d)]) + total_weight (h @ [(t, d)])"
proof -
  let ?c = "capacity tt" and ?es = "entries tt"
  have old: ?thesis if "e \<in> set ?es"
    using err that by (fastforce simp: weight_snoc total_weight_snoc add_mult_distrib2)
  have sum: "total_count ?es = total_weight h" using assms(1) by (simp add: sketch_def)
  have bound: "\<forall>x \<in> set ?es. tc_count x \<le> u64_max"
    using total_count_ge sum assms(3) by (metis add_leD1 order_trans)
  show ?thesis
  proof (cases "bump_first t d ?es")
    case (Some es)
    with bump_first_nth [OF Some] obtain i where i: "i < length ?es" "tc_tenant (?es ! i) = t"
      "es = ?es[i := (?es ! i)\<lparr>tc_count := saturating_add (tc_count (?es ! i)) d\<rparr>]" by blast
    from Some e assms(2) have "e \<in> set es" by (simp add: tt_record_def)
    with i consider "e \<in> set ?es" | "e = (?es ! i)\<lparr>tc_count := saturating_add (tc_count (?es ! i)) d\<rparr>"
      by (metis in_set_conv_nth length_list_update nth_list_update_eq nth_list_update_neq)
    then show ?thesis
    proof cases
      case 2
      have "?c * tc_count (?es ! i) \<le> ?c * weight t h + total_weight h" using err i(1,2) nth_mem by metis
      moreover have "?c * tc_count e \<le> ?c * tc_count (?es ! i) + ?c * d"
        by (simp add: 2 saturating_add_def flip: add_mult_distrib2)
      ultimately show ?thesis by (simp add: 2 i(2) weight_snoc total_weight_snoc add_mult_distrib2)
    qed (rule old)
  next
    case None
    show ?thesis
    proof (cases "length ?es < ?c")
      case True
      with None e assms(2) have "e \<in> set ?es \<or> e = \<lparr>tc_tenant = t, tc_count = d\<rparr>" by (auto simp: tt_record_def)
      then show ?thesis using old by (auto simp: weight_snoc add_mult_distrib2)
    next
      case False
      obtain i v where m: "min_entry ?es = (i, v)" by fastforce
      have len: "length ?es = ?c" using False assms(1) by (simp add: sketch_def)
      with assms(2) have "?es \<noteq> []" by auto
      from min_entry_min [OF this bound m] have "i < length ?es" "\<forall>x \<in> set ?es. v \<le> tc_count x" by simp_all
      from total_count_min [OF this(2)] have v: "?c * v \<le> total_weight h" by (simp add: len sum)
      from None False m e assms(2) have "e \<in> set ?es \<or> e = \<lparr>tc_tenant = t, tc_count = saturating_add v d\<rparr>"
        by (auto simp: tt_record_def dest: set_update_subset_insert [THEN subsetD])
      moreover have "?c * saturating_add v d \<le> ?c * v + ?c * d"
        by (simp add: saturating_add_def flip: add_mult_distrib2)
      ultimately show ?thesis using old v by (auto simp: weight_snoc total_weight_snoc add_mult_distrib2)
    qed
  qed
qed

lemma record_all_error:
  assumes "0 < c" and "total_weight h \<le> u64_max" and "e \<in> set (entries (record_all (top_tenants_new c) h))"
  shows "c * tc_count e \<le> c * weight (tc_tenant e) h + total_weight h"
  using assms(2,3)
proof (induction h arbitrary: e rule: rev_induct)
  case Nil
  then show ?case by (simp add: record_all_def top_tenants_new_def)
next
  case (snoc x h)
  obtain t d where x: "x = (t, d)" by (cases x)
  let ?tt = "record_all (top_tenants_new c) h"
  have cap: "capacity ?tt = c" by (simp add: top_tenants_new_def)
  have w: "total_weight h + d \<le> u64_max" using snoc.prems(1) by (simp add: x total_weight_snoc)
  then have "total_weight h \<le> u64_max" by linarith
  from record_error [OF sketch_record_all [OF assms(1) this], unfolded cap, OF assms(1) w] snoc.IH [OF this] snoc.prems(2)
  show ?case by (simp add: x record_all_def)
qed

text \<open>
  C12: What the list of top tenants is worth, after any history of recordings: a reported count
  is never below the true one and above it by at most the total divided by the capacity;
  every tenant with more than that share is on the list; the counts add up to the total; the
  list is in descending order, no longer than the capacity, and names no tenant twice.
\<close>

theorem top_tenants_guarantee:
  assumes "0 < c" and "total_weight h \<le> u64_max" and "es = snapshot (record_all (top_tenants_new c) h)"
  shows "(\<forall>e \<in> set es. weight (tc_tenant e) h \<le> tc_count e \<and>
      c * tc_count e \<le> c * weight (tc_tenant e) h + total_weight h) \<and>
    (\<forall>t. total_weight h < c * weight t h \<longrightarrow> t \<in> tracked es) \<and>
    total_count es = total_weight h \<and> length es \<le> c \<and>
    sorted_wrt (\<lambda>a b. tc_count b \<le> tc_count a) es \<and> distinct (map tc_tenant es)"
proof -
  let ?tt = "record_all (top_tenants_new c) h"
  note sk = sketch_record_all [OF assms(1,2)]
  have cap: "capacity ?tt = c" by (simp add: top_tenants_new_def)
  have set: "set es = set (entries ?tt)" and len: "length es = length (entries ?tt)"
    and m: "mset (map tc_count es) = mset (map tc_count (entries ?tt))"
      "mset (map tc_tenant es) = mset (map tc_tenant (entries ?tt))"
    by (simp_all add: assms(3) snapshot_def)
  have "distinct (map tc_tenant es)" using mset_eq_imp_distinct_iff [OF m(2)] sk by (simp add: sketch_def)
  moreover have "total_count es = total_weight h" using sk sum_mset_sum_list [of "map tc_count es"]
      sum_mset_sum_list [of "map tc_count (entries ?tt)"] by (simp only: m(1) sketch_def)
  moreover have "t \<in> tracked es" if "total_weight h < c * weight t h" for t
    using sketch_min_share [OF sk, of t, unfolded cap] that set by (metis leD)
  moreover have "length es \<le> c" "\<forall>e \<in> set es. weight (tc_tenant e) h \<le> tc_count e"
    using sk unfolding sketch_def cap set len by blast+
  moreover have "\<forall>e \<in> set es. c * tc_count e \<le> c * weight (tc_tenant e) h + total_weight h"
    using record_all_error [OF assms(1,2)] unfolding set by blast
  moreover have "sorted_wrt (\<lambda>a b. tc_count b \<le> tc_count a) es" unfolding assms(3) by (rule sorted_snapshot)
  ultimately show ?thesis by blast
qed

theorem top_tenants_guarantee_witness:
  "TenantKey 3 \<in> tracked (snapshot (record_all (top_tenants_new 2)
    [(TenantKey 1, 1), (TenantKey 3, 1), (TenantKey 2, 1), (TenantKey 3, 1), (TenantKey 3, 1)]))"
proof -
  let ?h = "[(TenantKey 1, 1), (TenantKey 3, 1), (TenantKey 2, 1), (TenantKey 3, 1), (TenantKey 3, 1)]"
  have "total_weight ?h < 2 * weight (TenantKey 3) ?h" "total_weight ?h \<le> u64_max"
    by (simp_all add: total_weight_def weight_def)
  with top_tenants_guarantee [of 2 ?h, OF _ _ refl] show ?thesis by simp
qed

end
