(* ===== verification/State.thy ===== *)
theory State
  imports Api Ring Top_Tenants
begin

text \<open>
  The state of the scheduler: \<open>crates/firq-core/src/state.rs\<close> and the \<open>Scheduler\<close> struct of
  \<open>scheduler.rs\<close>. The fields that live outside the shard mutexes (atomics, id sets, stats,
  signal) form the record \<open>shared\<close>; a shard is what its mutex protects. An array of three
  indexed by \<open>Priority::index\<close> is a function on priorities. The configuration never
  changes after \<open>new\<close>, so the operations take it as an argument instead of a field.
\<close>

record 'a queue_entry =
  entry_id :: nat
  entry_task :: "'a task"

record 'a tenant_state =
  queues :: "priority \<Rightarrow> 'a queue_entry list"
  deficits :: "priority \<Rightarrow> i64"
  quantum :: i64
  active :: "priority \<Rightarrow> bool"
  enqueue_attempts_since_purge :: nat

definition tenant_state_new :: "i64 \<Rightarrow> 'a tenant_state" where
  "tenant_state_new q =
    \<lparr>queues = (\<lambda>_. []), deficits = (\<lambda>_. 0), quantum = q, active = (\<lambda>_. False),
     enqueue_attempts_since_purge = 0\<rparr>"

definition total_len :: "'a tenant_state \<Rightarrow> nat" where
  "total_len ts = sum_list (map (\<lambda>p. length (queues ts p)) ordered)"

record 'a shard =
  tenants :: "tenant_key \<rightharpoonup> 'a tenant_state"
  active_rings :: "priority \<Rightarrow> tenant_key active_ring"

definition shard_new :: "'a shard" where
  "shard_new = \<lparr>tenants = Map.empty, active_rings = (\<lambda>_. ring_new)\<rparr>"

definition QUEUE_TIME_BUCKETS_NS :: "nat list" where
  "QUEUE_TIME_BUCKETS_NS =
    [10000, 50000, 100000, 500000, 1000000, 5000000, 10000000, 50000000, 100000000,
     500000000, 1000000000, u64_max]"

record stats_counters =
  enqueued :: nat
  dequeued :: nat
  expired :: nat
  dropped :: nat
  rejected_global :: nat
  rejected_tenant :: nat
  timeout_rejected :: nat
  dropped_policy :: nat
  queue_len_estimate :: nat
  queue_time_sum_ns :: nat
  queue_time_samples :: nat
  queue_time_buckets :: "nat list"
  enqueue_purge_runs :: nat

definition stats_counters_new :: stats_counters where
  "stats_counters_new =
    \<lparr>enqueued = 0, dequeued = 0, expired = 0, dropped = 0, rejected_global = 0,
     rejected_tenant = 0, timeout_rejected = 0, dropped_policy = 0, queue_len_estimate = 0,
     queue_time_sum_ns = 0, queue_time_samples = 0,
     queue_time_buckets = replicate (length QUEUE_TIME_BUCKETS_NS) 0, enqueue_purge_runs = 0\<rparr>"

text \<open>
  \<open>signal_seq\<close> is the sequence number of \<open>WorkSignal\<close>. \<open>ticks\<close> is of the model: the number
  of clock reads made so far.
\<close>

record shared =
  stats :: stats_counters
  signal_seq :: nat
  shutdown_state :: nat
  top_tenants :: top_tenants
  tenant_quantum :: "tenant_key \<rightharpoonup> u64"
  quantum_provider :: "quantum_provider option"
  next_task_id :: nat
  pending_ids :: "nat set"
  cancelled_ids :: "nat set"
  ticks :: nat

record 'a sched =
  shared :: shared
  shards :: "'a shard list"
  active_shards :: "nat active_ring"
  shard_active :: "bool list"

subsection \<open>Views of the queues\<close>

abbreviation ids :: "'a queue_entry list \<Rightarrow> nat list" where
  "ids q \<equiv> map entry_id q"

text \<open>The queue of a tenant at a priority, in a shard; empty for a tenant the shard does not hold.\<close>

definition squeue :: "'a shard \<Rightarrow> tenant_key \<Rightarrow> priority \<Rightarrow> 'a queue_entry list" where
  "squeue sh t p = (case tenants sh t of None \<Rightarrow> [] | Some ts \<Rightarrow> queues ts p)"

lemma total_len_eq: "total_len ts = length (queues ts High) + length (queues ts Normal) + length (queues ts Low)"
  by (simp add: total_len_def ordered_def)

lemma total_len_new [simp]: "total_len (tenant_state_new q) = 0"
  by (simp add: total_len_eq tenant_state_new_def)

lemma queues_new [simp]: "queues (tenant_state_new q) p = []"
  by (simp add: tenant_state_new_def)

lemma active_new [simp]: "\<not> active (tenant_state_new q) p"
  by (simp add: tenant_state_new_def)

lemma squeue_new [simp]: "squeue shard_new t p = []"
  by (simp add: squeue_def shard_new_def)

lemma squeue_Some: "tenants sh t = Some ts \<Longrightarrow> squeue sh t p = queues ts p"
  by (simp add: squeue_def)

lemma length_queue_le_total: "length (queues ts p) \<le> total_len ts"
  by (cases p) (simp_all add: total_len_eq)

lemma total_len_mono:
  assumes "\<And>p. length (queues ts' p) \<le> length (queues ts p)"
  shows "total_len ts' \<le> total_len ts"
  using assms [of High] assms [of Normal] assms [of Low] by (simp add: total_len_eq)

lemma total_len_push:
  "total_len (ts\<lparr>queues := (queues ts)(p := queues ts p @ [e])\<rparr>) = Suc (total_len ts)"
  by (cases p) (simp_all add: total_len_eq)

lemma stats_counters_zero [simp]:
  "enqueued stats_counters_new = 0" "dequeued stats_counters_new = 0"
  "expired stats_counters_new = 0" "dropped_policy stats_counters_new = 0"
  "queue_len_estimate stats_counters_new = 0" "queue_time_samples stats_counters_new = 0"
  by (simp_all add: stats_counters_new_def)

end
