(* ===== verification/Shared_Ops.thy ===== *)
theory Shared_Ops
  imports State
begin

text \<open>
  The operations of \<open>scheduler.rs\<close> on the state outside the shard mutexes: counters, the
  global slot count, the shutdown state, task ids and the pending and cancelled sets, the
  work signal. Each is the effect of the code's method when its compare-and-exchange loop
  succeeds; the theory \<open>Slot_CAS\<close> shows that the loops have exactly that effect under any
  interleaving.
\<close>

subsection \<open>Constants\<close>

abbreviation (input) SHUTDOWN_OPEN :: nat where "SHUTDOWN_OPEN \<equiv> 0"
abbreviation (input) SHUTDOWN_DRAIN :: nat where "SHUTDOWN_DRAIN \<equiv> 1"
abbreviation (input) SHUTDOWN_IMMEDIATE :: nat where "SHUTDOWN_IMMEDIATE \<equiv> 2"

definition ENQUEUE_PURGE_INTERVAL :: nat where "ENQUEUE_PURGE_INTERVAL = 32"
definition ENQUEUE_PURGE_NEAR_LIMIT_PERCENT :: nat where "ENQUEUE_PURGE_NEAR_LIMIT_PERCENT = 90"
definition ENQUEUE_PURGE_SCAN_BUDGET_NEAR :: nat where "ENQUEUE_PURGE_SCAN_BUDGET_NEAR = 8"
definition ENQUEUE_PURGE_SCAN_BUDGET_FULL :: nat where "ENQUEUE_PURGE_SCAN_BUDGET_FULL = 32"

subsection \<open>Clock and signal\<close>

definition read_clock :: "clock \<Rightarrow> shared \<Rightarrow> instant \<times> shared" where
  "read_clock clk g = (clk (ticks g), g\<lparr>ticks := Suc (ticks g)\<rparr>)"

definition notify_all :: "shared \<Rightarrow> shared" where
  "notify_all g = g\<lparr>signal_seq := wrapping_inc (signal_seq g)\<rparr>"

subsection \<open>Counters\<close>

text \<open>\<open>Self::saturating_add(&counter, delta)\<close>, with the counter as its update function.\<close>

definition count_up :: "((nat \<Rightarrow> nat) \<Rightarrow> stats_counters \<Rightarrow> stats_counters) \<Rightarrow> nat \<Rightarrow> shared \<Rightarrow> shared" where
  "count_up counter delta g =
    (if delta = 0 then g else stats_update (counter (\<lambda>c. saturating_add c delta)) g)"

fun bucket_index :: "nat list \<Rightarrow> nat \<Rightarrow> nat option" where
  "bucket_index [] v = None"
| "bucket_index (b # bs) v = (if v \<le> b then Some 0 else map_option Suc (bucket_index bs v))"

definition record_queue_time :: "nat \<Rightarrow> shared \<Rightarrow> shared" where
  "record_queue_time queue_time_ns g =
    (case bucket_index QUEUE_TIME_BUCKETS_NS queue_time_ns of
       None \<Rightarrow> g
     | Some idx \<Rightarrow>
         count_up (\<lambda>f. queue_time_buckets_update (\<lambda>bs. bs[idx := f (bs ! idx)])) 1 g)"

fun record_reject :: "reject_reason \<Rightarrow> shared \<Rightarrow> shared" where
  "record_reject GlobalFull g = count_up rejected_global_update 1 (count_up dropped_update 1 g)"
| "record_reject TenantFull g = count_up rejected_tenant_update 1 (count_up dropped_update 1 g)"
| "record_reject TimedOut g = count_up timeout_rejected_update 1 (count_up dropped_update 1 g)"

definition record_policy_drop :: "shared \<Rightarrow> shared" where
  "record_policy_drop g = count_up dropped_policy_update 1 (count_up dropped_update 1 g)"

subsection \<open>Global slots\<close>

definition try_reserve_slot :: "config \<Rightarrow> shared \<Rightarrow> bool \<times> shared" where
  "try_reserve_slot C g =
    (if unat (max_global C) \<le> queue_len_estimate (stats g) then (False, g)
     else (True, stats_update (queue_len_estimate_update (\<lambda>n. n + 1)) g))"

definition release_reserved_slots :: "nat \<Rightarrow> shared \<Rightarrow> shared" where
  "release_reserved_slots delta g =
    (if delta = 0 then g
     else stats_update (queue_len_estimate_update (\<lambda>n. n - delta)) g)"

subsection \<open>Shutdown\<close>

definition is_accepting_enqueues :: "shared \<Rightarrow> bool" where
  "is_accepting_enqueues g \<longleftrightarrow> shutdown_state g = SHUTDOWN_OPEN"

definition should_return_closed :: "shared \<Rightarrow> bool" where
  "should_return_closed g =
    (if shutdown_state g = SHUTDOWN_IMMEDIATE then True
     else if shutdown_state g = SHUTDOWN_DRAIN then queue_len_estimate (stats g) = 0
     else False)"

fun shutdown_target :: "close_mode \<Rightarrow> nat" where
  "shutdown_target Immediate = SHUTDOWN_IMMEDIATE"
| "shutdown_target Drain = SHUTDOWN_DRAIN"

definition shutdown_next :: "nat \<Rightarrow> nat \<Rightarrow> nat" where
  "shutdown_next current target =
    (if current = SHUTDOWN_IMMEDIATE then SHUTDOWN_IMMEDIATE
     else if target = SHUTDOWN_IMMEDIATE then SHUTDOWN_IMMEDIATE
     else if current = SHUTDOWN_OPEN \<and> target = SHUTDOWN_DRAIN then SHUTDOWN_DRAIN
     else current)"

definition set_shutdown_mode :: "close_mode \<Rightarrow> shared \<Rightarrow> shared" where
  "set_shutdown_mode mode g =
    (let next = shutdown_next (shutdown_state g) (shutdown_target mode)
     in if next = shutdown_state g then g
        else notify_all (g\<lparr>shutdown_state := next\<rparr>))"

subsection \<open>Task ids\<close>

definition next_handle :: "shared \<Rightarrow> task_handle \<times> shared" where
  "next_handle g =
    (let id = wrapping_inc (next_task_id g) in (TaskHandle id, g\<lparr>next_task_id := id\<rparr>))"

definition register_pending :: "task_handle \<Rightarrow> shared \<Rightarrow> shared" where
  "register_pending h g = g\<lparr>pending_ids := insert (handle_id h) (pending_ids g)\<rparr>"

definition take_pending :: "nat \<Rightarrow> shared \<Rightarrow> bool \<times> shared" where
  "take_pending i g = (i \<in> pending_ids g, g\<lparr>pending_ids := pending_ids g - {i}\<rparr>)"

definition mark_cancelled :: "nat \<Rightarrow> shared \<Rightarrow> shared" where
  "mark_cancelled i g = g\<lparr>cancelled_ids := insert i (cancelled_ids g)\<rparr>"

definition take_cancelled_marker :: "nat \<Rightarrow> shared \<Rightarrow> bool \<times> shared" where
  "take_cancelled_marker i g = (i \<in> cancelled_ids g, g\<lparr>cancelled_ids := cancelled_ids g - {i}\<rparr>)"

definition clear_cancelled_marker :: "nat \<Rightarrow> shared \<Rightarrow> shared" where
  "clear_cancelled_marker i g = g\<lparr>cancelled_ids := cancelled_ids g - {i}\<rparr>"

definition is_expired :: "instant option \<Rightarrow> instant \<Rightarrow> bool" where
  "is_expired dl now = (case dl of Some d \<Rightarrow> d < now | None \<Rightarrow> False)"

end
