(* ===== verification/Ledger.thy ===== *)
theory Ledger
  imports Shared_Ops
begin

text \<open>
  The bookkeeping that ties the queues to the shared state. An entry in a queue is live when
  its id is pending and cancelled when its id carries a marker; \<open>tally\<close> says what an
  operation that takes a set of ids out of the queues does to the pending set, the markers,
  the slot count and the counters, and composes over sequences of such operations.
\<close>

subsection \<open>Effects on the shared state, field by field\<close>

abbreviation slots :: "shared \<Rightarrow> nat" where
  "slots g \<equiv> queue_len_estimate (stats g)"

definition forget :: "nat set \<Rightarrow> shared \<Rightarrow> shared" where
  "forget R g = g\<lparr>pending_ids := pending_ids g - R, cancelled_ids := cancelled_ids g - R\<rparr>"

lemma forget_simps [simp]:
  "pending_ids (forget R g) = pending_ids g - R"
  "cancelled_ids (forget R g) = cancelled_ids g - R"
  "stats (forget R g) = stats g" "next_task_id (forget R g) = next_task_id g"
  "shutdown_state (forget R g) = shutdown_state g" "signal_seq (forget R g) = signal_seq g"
  "tenant_quantum (forget R g) = tenant_quantum g"
  "quantum_provider (forget R g) = quantum_provider g"
  "ticks (forget R g) = ticks g" "top_tenants (forget R g) = top_tenants g"
  by (simp_all add: forget_def)

lemma forget_empty [simp]: "forget {} g = g"
  by (simp add: forget_def)

lemma forget_forget [simp]: "forget S (forget R g) = forget (R \<union> S) g"
  by (simp add: forget_def Diff_eq Int_assoc)

lemma take_pending_simps [simp]:
  "fst (take_pending i g) = (i \<in> pending_ids g)"
  "snd (take_pending i g) = g\<lparr>pending_ids := pending_ids g - {i}\<rparr>"
  by (simp_all add: take_pending_def)

lemma take_cancelled_marker_simps [simp]:
  "fst (take_cancelled_marker i g) = (i \<in> cancelled_ids g)"
  "snd (take_cancelled_marker i g) = g\<lparr>cancelled_ids := cancelled_ids g - {i}\<rparr>"
  by (simp_all add: take_cancelled_marker_def)

lemma read_clock_frame [frame_simps]:
  "stats (snd (read_clock clk g)) = stats g"
  "pending_ids (snd (read_clock clk g)) = pending_ids g"
  "cancelled_ids (snd (read_clock clk g)) = cancelled_ids g"
  "next_task_id (snd (read_clock clk g)) = next_task_id g"
  "shutdown_state (snd (read_clock clk g)) = shutdown_state g"
  "tenant_quantum (snd (read_clock clk g)) = tenant_quantum g"
  "quantum_provider (snd (read_clock clk g)) = quantum_provider g"
  "top_tenants (snd (read_clock clk g)) = top_tenants g"
  by (simp_all add: read_clock_def)

lemma notify_all_frame [frame_simps]:
  "stats (notify_all g) = stats g" "pending_ids (notify_all g) = pending_ids g"
  "cancelled_ids (notify_all g) = cancelled_ids g" "next_task_id (notify_all g) = next_task_id g"
  "shutdown_state (notify_all g) = shutdown_state g"
  "tenant_quantum (notify_all g) = tenant_quantum g"
  "quantum_provider (notify_all g) = quantum_provider g" "ticks (notify_all g) = ticks g"
  "top_tenants (notify_all g) = top_tenants g"
  by (simp_all add: notify_all_def)

lemma count_up_frame [frame_simps]:
  "pending_ids (count_up c d g) = pending_ids g" "cancelled_ids (count_up c d g) = cancelled_ids g"
  "next_task_id (count_up c d g) = next_task_id g" "shutdown_state (count_up c d g) = shutdown_state g"
  "tenant_quantum (count_up c d g) = tenant_quantum g"
  "quantum_provider (count_up c d g) = quantum_provider g" "ticks (count_up c d g) = ticks g"
  "top_tenants (count_up c d g) = top_tenants g" "signal_seq (count_up c d g) = signal_seq g"
  by (simp_all add: count_up_def)

lemma release_frame [frame_simps]:
  "pending_ids (release_reserved_slots d g) = pending_ids g"
  "cancelled_ids (release_reserved_slots d g) = cancelled_ids g"
  "next_task_id (release_reserved_slots d g) = next_task_id g"
  "shutdown_state (release_reserved_slots d g) = shutdown_state g"
  "tenant_quantum (release_reserved_slots d g) = tenant_quantum g"
  "quantum_provider (release_reserved_slots d g) = quantum_provider g"
  "ticks (release_reserved_slots d g) = ticks g"
  "top_tenants (release_reserved_slots d g) = top_tenants g"
  "stats (release_reserved_slots d g) = queue_len_estimate_update (\<lambda>n. n - d) (stats g)"
  by (simp_all add: release_reserved_slots_def)

subsection \<open>Live and dead entries\<close>

definition dead :: "instant \<Rightarrow> shared \<Rightarrow> 'a queue_entry \<Rightarrow> bool" where
  "dead now g e \<longleftrightarrow> entry_id e \<in> cancelled_ids g \<or> is_expired (deadline (entry_task e)) now"

text \<open>Distinct ids, each either pending or marked cancelled.\<close>

definition q_ok :: "shared \<Rightarrow> 'a queue_entry list \<Rightarrow> bool" where
  "q_ok g q \<longleftrightarrow> distinct (ids q) \<and>
    (\<forall>e \<in> set q. (entry_id e \<in> pending_ids g) \<noteq> (entry_id e \<in> cancelled_ids g))"

definition live_count :: "shared \<Rightarrow> 'a queue_entry list \<Rightarrow> nat" where
  "live_count g q = length (filter (\<lambda>e. entry_id e \<in> pending_ids g) q)"

lemma q_ok_Nil [simp]: "q_ok g []"
  by (simp add: q_ok_def)

lemma q_ok_Cons: "q_ok g (e # q) \<longleftrightarrow> entry_id e \<notin> set (ids q) \<and>
    (entry_id e \<in> pending_ids g) \<noteq> (entry_id e \<in> cancelled_ids g) \<and> q_ok g q"
  by (auto simp: q_ok_def)

lemma q_ok_append: "q_ok g (q @ r) \<longleftrightarrow> q_ok g q \<and> q_ok g r \<and> set (ids q) \<inter> set (ids r) = {}"
  by (auto simp: q_ok_def)

lemma q_ok_filter: "q_ok g q \<Longrightarrow> q_ok g (filter P q)"
  by (auto simp: q_ok_def distinct_map_filter_le)

lemma q_ok_forget: "q_ok g q \<Longrightarrow> R \<inter> set (ids q) = {} \<Longrightarrow> q_ok (forget R g) q"
  by (auto simp: q_ok_def)

lemma q_ok_cong:
  "pending_ids g' = pending_ids g \<Longrightarrow> cancelled_ids g' = cancelled_ids g \<Longrightarrow> q_ok g' q = q_ok g q"
  by (simp add: q_ok_def)

lemma dead_forget: "entry_id e \<notin> R \<Longrightarrow> dead now (forget R g) e = dead now g e"
  by (simp add: dead_def)

lemma live_count_append [simp]: "live_count g (q @ r) = live_count g q + live_count g r"
  by (simp add: live_count_def)

lemma live_count_Nil [simp]: "live_count g [] = 0"
  by (simp add: live_count_def)

lemma live_count_forget:
  "R \<inter> set (ids q) = {} \<Longrightarrow> live_count (forget R g) q = live_count g q"
  by (auto simp: live_count_def intro!: arg_cong [where f = length] filter_cong)

lemma live_count_card: "distinct (ids q) \<Longrightarrow> live_count g q = card (pending_ids g \<inter> set (ids q))"
proof (induction q)
  case Nil
  then show ?case by simp
next
  case (Cons e q)
  have "pending_ids g \<inter> set (ids (e # q)) =
    (if entry_id e \<in> pending_ids g then insert (entry_id e) (pending_ids g \<inter> set (ids q))
     else pending_ids g \<inter> set (ids q))" by auto
  with Cons show ?case by (simp add: live_count_def)
qed

subsection \<open>Taking ids out\<close>

definition settled :: "shared \<Rightarrow> nat" where
  "settled g = dequeued (stats g) + expired (stats g) + dropped_policy (stats g)"

text \<open>
  The queue-time meters (sum, number of samples, histogram), what one sample does to them,
  and the effect of \<open>d\<close> samples.
\<close>

definition meters :: "shared \<Rightarrow> nat \<times> nat \<times> nat list" where
  "meters g = (queue_time_sum_ns (stats g), queue_time_samples (stats g), queue_time_buckets (stats g))"

definition meter :: "nat \<Rightarrow> nat \<times> nat \<times> nat list \<Rightarrow> nat \<times> nat \<times> nat list" where
  "meter v = (\<lambda>(total_ns, samples, bs). (if v = 0 then total_ns else saturating_add total_ns v, saturating_add samples 1,
     case bucket_index QUEUE_TIME_BUCKETS_NS v of None \<Rightarrow> bs | Some i \<Rightarrow> bs[i := saturating_add (bs ! i) 1]))"

definition metered :: "nat \<Rightarrow> shared \<Rightarrow> shared \<Rightarrow> bool" where
  "metered d g g' \<longleftrightarrow>
     (\<exists>vs. length vs = d \<and> (\<forall>v \<in> set vs. v \<le> u64_max) \<and> meters g' = fold meter vs (meters g))"

lemma metered_0 [simp]: "metered 0 g g' \<longleftrightarrow> meters g' = meters g"
  by (auto simp: metered_def)

lemma metered_1: "v \<le> u64_max \<Longrightarrow> meters g' = meter v (meters g) \<Longrightarrow> metered (Suc 0) g g'"
  unfolding metered_def by (rule exI [of _ "[v]"]) simp

lemma metered_trans:
  assumes "metered d g h" and "metered e h m"
  shows "metered (d + e) g m"
proof -
  from assms obtain vs ws where "length vs = d" "\<forall>v \<in> set vs. v \<le> u64_max" "meters h = fold meter vs (meters g)"
    "length ws = e" "\<forall>v \<in> set ws. v \<le> u64_max" "meters m = fold meter ws (meters h)"
    unfolding metered_def by blast
  then show ?thesis
    unfolding metered_def by (intro exI [of _ "vs @ ws"]) auto
qed

lemma meters_frame [simp]:
  "meters (forget R g) = meters g" "meters (notify_all g) = meters g" "meters (record_reject r g) = meters g"
  "meters (release_reserved_slots n g) = meters g" "meters (record_policy_drop g) = meters g"
  "meters (count_up expired_update n g) = meters g" "meters (count_up enqueue_purge_runs_update n g) = meters g"
  "meters (count_up enqueued_update n g) = meters g" "meters (snd (read_clock clk g)) = meters g"
  "meters (clear_cancelled_marker i g) = meters g" "meters (g\<lparr>ticks := k\<rparr>) = meters g"
  "meters (g\<lparr>pending_ids := P\<rparr>) = meters g" "meters (g\<lparr>cancelled_ids := P\<rparr>) = meters g"
  "meters (g\<lparr>shutdown_state := j\<rparr>) = meters g" "meters (g\<lparr>next_task_id := j\<rparr>) = meters g"
  "meters (g\<lparr>tenant_quantum := tq\<rparr>) = meters g" "meters (g\<lparr>quantum_provider := qp\<rparr>) = meters g"
  by (cases r; simp add: meters_def notify_all_def release_reserved_slots_def record_policy_drop_def
      count_up_def read_clock_def clear_cancelled_marker_def)+

text \<open>
  The sequence number of the work signal moves at most once for every pending id taken out,
  and does move when one is taken out and its slot is not handed on (\<open>k\<close> is zero).
\<close>

definition bumped :: "nat \<Rightarrow> nat set \<Rightarrow> shared \<Rightarrow> shared \<Rightarrow> bool" where
  "bumped k R g g' \<longleftrightarrow> (finite (pending_ids g) \<longrightarrow>
     (\<exists>m \<le> card (pending_ids g \<inter> R). signal_seq g' = (wrapping_inc ^^ m) (signal_seq g) \<and>
        (k = 0 \<and> pending_ids g \<inter> R \<noteq> {} \<longrightarrow> 0 < m)))"

lemma signal_frame [frame_simps]:
  "signal_seq (release_reserved_slots n g) = signal_seq g" "signal_seq (notify_all g) = wrapping_inc (signal_seq g)"
  "signal_seq (count_up f n g) = signal_seq g" "signal_seq (snd (read_clock clk g)) = signal_seq g"
  by (simp_all add: release_reserved_slots_def notify_all_def count_up_def read_clock_def)

lemma bumped_none: "signal_seq g' = signal_seq g \<Longrightarrow> 0 < k \<or> pending_ids g \<inter> R = {} \<Longrightarrow> bumped k R g g'"
  unfolding bumped_def by (intro impI exI [of _ 0]) auto

lemma bumped_once:
  assumes "signal_seq g' = wrapping_inc (signal_seq g)" and "pending_ids g \<inter> R \<noteq> {}"
  shows "bumped k R g g'"
  unfolding bumped_def
proof (intro impI exI [of _ 1] conjI)
  assume "finite (pending_ids g)"
  then have "0 < card (pending_ids g \<inter> R)" using assms(2) by (simp add: card_gt_0_iff)
  then show "1 \<le> card (pending_ids g \<inter> R)" by simp
qed (use assms in simp_all)

text \<open>
  What a whole call does to the signal: it moves at most once more than there were pending
  tasks, and it moves if it must.
\<close>

definition stirred :: "bool \<Rightarrow> shared \<Rightarrow> shared \<Rightarrow> bool" where
  "stirred must g g' \<longleftrightarrow> (finite (pending_ids g) \<longrightarrow>
     (\<exists>m \<le> Suc (card (pending_ids g)). signal_seq g' = (wrapping_inc ^^ m) (signal_seq g) \<and> (must \<longrightarrow> 0 < m)))"

lemma stirred_none: "signal_seq g' = signal_seq g \<Longrightarrow> \<not> must \<Longrightarrow> stirred must g g'"
  unfolding stirred_def by (intro impI exI [of _ 0]) simp

lemma stirred_once: "signal_seq g' = wrapping_inc (signal_seq g) \<Longrightarrow> stirred must g g'"
  unfolding stirred_def by (intro impI exI [of _ 1]) simp

lemma bumped_stirred:
  assumes "bumped k R g h" and "signal_seq g' = (if again then wrapping_inc (signal_seq h) else signal_seq h)"
    and "must \<Longrightarrow> again \<or> k = 0 \<and> pending_ids g \<inter> R \<noteq> {}"
  shows "stirred must g g'"
  unfolding stirred_def
proof (intro impI)
  assume f: "finite (pending_ids g)"
  with assms(1) obtain m where m: "m \<le> card (pending_ids g \<inter> R)" "signal_seq h = (wrapping_inc ^^ m) (signal_seq g)"
    "k = 0 \<and> pending_ids g \<inter> R \<noteq> {} \<longrightarrow> 0 < m" unfolding bumped_def by blast
  have "card (pending_ids g \<inter> R) \<le> card (pending_ids g)" using f by (intro card_mono) auto
  with m assms(2,3) show "\<exists>m \<le> Suc (card (pending_ids g)). signal_seq g' = (wrapping_inc ^^ m) (signal_seq g) \<and> (must \<longrightarrow> 0 < m)"
    by (cases again) (auto intro: exI [of _ "Suc m"] exI [of _ m])
qed

lemma funpow_wrapping_inc: "0 < m \<Longrightarrow> (wrapping_inc ^^ m) x = (x + m) mod 2 ^ 64"
proof (induction m)
  case (Suc m)
  then show ?case by (cases "m = 0") (simp_all add: wrapping_inc_def mod_Suc_eq)
qed simp

lemma funpow_wrapping_inc_neq:
  assumes "0 < m" and "m \<le> u64_max"
  shows "(wrapping_inc ^^ m) x \<noteq> x"
proof
  assume "(wrapping_inc ^^ m) x = x"
  with assms(1) have x: "(x + m) mod 2 ^ 64 = x" by (simp add: funpow_wrapping_inc)
  have "(x + m) mod 2 ^ 64 < (2 ^ 64 :: nat)" by (rule mod_less_divisor) simp
  with x have "x < 2 ^ 64" by (simp only: x)
  with x have "(x + m) mod 2 ^ 64 = x mod 2 ^ 64" by simp
  then have "2 ^ 64 dvd (x + m) - x" by (metis le_add1 mod_eq_dvd_iff_nat)
  with assms show False by (auto dest: dvd_imp_le)
qed

lemma stirred_moves:
  assumes "stirred must g g'" and "finite (pending_ids g)" and "card (pending_ids g) < u64_max"
    and "signal_seq g' = signal_seq g"
  shows "\<not> must"
proof
  assume must
  with assms(1,2) obtain m where "m \<le> Suc (card (pending_ids g))" "0 < m" "signal_seq g' = (wrapping_inc ^^ m) (signal_seq g)"
    unfolding stirred_def by blast
  with funpow_wrapping_inc_neq [of m "signal_seq g"] assms(3,4) show False by simp
qed

text \<open>
  \<open>tally k d R g g'\<close>: the ids in \<open>R\<close> are gone from the pending set and from the markers;
  every pending one gave its slot back and was counted as settled, \<open>d\<close> of them as
  dequeued, each with a sample of the queue time; \<open>k\<close> slots were reserved on top. The clauses about counters hold as long as the
  counters do not saturate.
\<close>

definition same_frame :: "shared \<Rightarrow> shared \<Rightarrow> bool" where
  "same_frame g g' \<longleftrightarrow>
     next_task_id g' = next_task_id g \<and> shutdown_state g' = shutdown_state g \<and>
     tenant_quantum g' = tenant_quantum g \<and> quantum_provider g' = quantum_provider g \<and>
     enqueued (stats g') = enqueued (stats g)"

definition tally :: "nat \<Rightarrow> nat \<Rightarrow> nat set \<Rightarrow> shared \<Rightarrow> shared \<Rightarrow> bool" where
  "tally k d R g g' \<longleftrightarrow>
     same_frame g g' \<and>
     pending_ids g' = pending_ids g - R \<and> cancelled_ids g' = cancelled_ids g - R \<and>
     (finite (pending_ids g) \<and> card (pending_ids g) \<le> slots g \<and> card (pending_ids g) \<le> u64_max \<longrightarrow>
        slots g' + card (pending_ids g \<inter> R) = slots g + k) \<and>
     (finite (pending_ids g) \<and> settled g + card (pending_ids g) \<le> u64_max \<longrightarrow>
        settled g' = settled g + card (pending_ids g \<inter> R) \<and>
        dequeued (stats g') = dequeued (stats g) + d) \<and>
     metered d g g' \<and> bumped k R g g'"

lemma same_frame_refl [simp]: "same_frame g g"
  by (simp add: same_frame_def)

lemma same_frame_trans: "same_frame g h \<Longrightarrow> same_frame h k \<Longrightarrow> same_frame g k"
  by (simp add: same_frame_def)

lemma card_take_out:
  assumes "finite P"
  shows "card (P \<inter> (R \<union> S)) = card (P \<inter> R) + card ((P - R) \<inter> S)"
proof -
  have "P \<inter> (R \<union> S) = (P \<inter> R) \<union> ((P - R) \<inter> S)" by blast
  moreover have "card ((P \<inter> R) \<union> ((P - R) \<inter> S)) = card (P \<inter> R) + card ((P - R) \<inter> S)"
    using assms by (intro card_Un_disjoint) auto
  ultimately show ?thesis by simp
qed

lemma card_diff_take_out:
  assumes "finite P"
  shows "card (P - R) + card (P \<inter> R) = card P"
proof -
  have "card ((P - R) \<union> (P \<inter> R)) = card (P - R) + card (P \<inter> R)"
    using assms by (intro card_Un_disjoint) auto
  moreover have "(P - R) \<union> (P \<inter> R) = P" by blast
  ultimately show ?thesis by simp
qed

lemma tally_refl [simp]: "tally 0 0 {} g g"
  by (simp add: tally_def bumped_none)

lemma bumped_trans:
  assumes "bumped k R g h" and "bumped l S h m" and "pending_ids h = pending_ids g - R"
  shows "bumped (k + l) (R \<union> S) g m"
  unfolding bumped_def
proof (intro impI)
  assume f: "finite (pending_ids g)"
  with assms(1) obtain i where i: "i \<le> card (pending_ids g \<inter> R)" "signal_seq h = (wrapping_inc ^^ i) (signal_seq g)"
    "k = 0 \<and> pending_ids g \<inter> R \<noteq> {} \<longrightarrow> 0 < i" unfolding bumped_def by blast
  from f assms(2,3) obtain j where j: "j \<le> card ((pending_ids g - R) \<inter> S)"
    "signal_seq m = (wrapping_inc ^^ j) (signal_seq h)" "l = 0 \<and> (pending_ids g - R) \<inter> S \<noteq> {} \<longrightarrow> 0 < j"
    unfolding bumped_def by auto
  have "(wrapping_inc ^^ (j + i)) (signal_seq g) = signal_seq m" by (simp add: funpow_add i(2) j(2))
  moreover have "j + i \<le> card (pending_ids g \<inter> (R \<union> S))" using i(1) j(1) by (simp add: card_take_out [OF f])
  moreover have "k + l = 0 \<and> pending_ids g \<inter> (R \<union> S) \<noteq> {} \<longrightarrow> 0 < j + i" using i(3) j(3) by auto
  ultimately show "\<exists>n \<le> card (pending_ids g \<inter> (R \<union> S)). signal_seq m = (wrapping_inc ^^ n) (signal_seq g) \<and>
      (k + l = 0 \<and> pending_ids g \<inter> (R \<union> S) \<noteq> {} \<longrightarrow> 0 < n)" by metis
qed

lemma tally_trans:
  assumes "tally k d R g h" and "tally l e S h m"
  shows "tally (k + l) (d + e) (R \<union> S) g m"
proof -
  let ?P = "pending_ids g"
  from assms(1) have h: "pending_ids h = ?P - R" "cancelled_ids h = cancelled_ids g - R"
    and s1: "finite ?P \<Longrightarrow> card ?P \<le> slots g \<Longrightarrow> card ?P \<le> u64_max \<Longrightarrow> slots h + card (?P \<inter> R) = slots g + k"
    and c1: "finite ?P \<Longrightarrow> settled g + card ?P \<le> u64_max \<Longrightarrow>
      settled h = settled g + card (?P \<inter> R) \<and> dequeued (stats h) = dequeued (stats g) + d"
    by (simp_all add: tally_def)
  from assms(2) have m: "pending_ids m = pending_ids h - S" "cancelled_ids m = cancelled_ids h - S"
    and s2: "finite (pending_ids h) \<Longrightarrow> card (pending_ids h) \<le> slots h \<Longrightarrow> card (pending_ids h) \<le> u64_max \<Longrightarrow>
      slots m + card (pending_ids h \<inter> S) = slots h + l"
    and c2: "finite (pending_ids h) \<Longrightarrow> settled h + card (pending_ids h) \<le> u64_max \<Longrightarrow>
      settled m = settled h + card (pending_ids h \<inter> S) \<and> dequeued (stats m) = dequeued (stats h) + e"
    by (simp_all add: tally_def)
  have slots: "slots m + card (?P \<inter> (R \<union> S)) = slots g + (k + l)"
    if f: "finite ?P" and le: "card ?P \<le> slots g" and b: "card ?P \<le> u64_max"
  proof -
    from card_diff_take_out [OF f, of R] s1 [OF f le b] le b
    have "card (pending_ids h) \<le> slots h" "card (pending_ids h) \<le> u64_max"
      by (simp_all add: h)
    with s2 f s1 [OF f le b] show ?thesis by (simp add: h card_take_out)
  qed
  have counts: "settled m = settled g + card (?P \<inter> (R \<union> S)) \<and>
      dequeued (stats m) = dequeued (stats g) + (d + e)"
    if f: "finite ?P" and le: "settled g + card ?P \<le> u64_max"
  proof -
    from card_diff_take_out [OF f, of R] c1 [OF f le] le
    have "settled h + card (pending_ids h) \<le> u64_max" by (simp add: h)
    with c2 f c1 [OF f le] show ?thesis by (simp add: h card_take_out)
  qed
  have "same_frame g h" and "same_frame h m"
    using assms by (simp_all only: tally_def)
  then have "same_frame g m" by (rule same_frame_trans)
  moreover have "pending_ids m = ?P - (R \<union> S)" "cancelled_ids m = cancelled_ids g - (R \<union> S)"
    using h m by blast+
  moreover have "metered (d + e) g m"
    using assms metered_trans unfolding tally_def by blast
  moreover have "bumped (k + l) (R \<union> S) g m"
    using assms bumped_trans unfolding tally_def by blast
  ultimately show ?thesis
    unfolding tally_def by (intro conjI impI) (use slots counts in \<open>simp_all only: simp_thms\<close>)
qed

lemma tally_same:
  assumes "same_frame g g'" and "pending_ids g' = pending_ids g" and "cancelled_ids g' = cancelled_ids g"
    and "slots g' = slots g" and "settled g' = settled g" and "dequeued (stats g') = dequeued (stats g)"
    and "meters g' = meters g" and "signal_seq g' = signal_seq g"
  shows "tally 0 0 {} g g'"
  using assms by (simp add: tally_def bumped_none)

lemma tally_read_clock: "tally 0 0 {} g (snd (read_clock clk g))"
  by (rule tally_same) (simp_all add: same_frame_def frame_simps settled_def)

lemma tally_reserve:
  assumes "try_reserve_slot C g = (ok, g')"
  shows "tally (if ok then 1 else 0) 0 {} g g'"
  using assms by (auto simp: try_reserve_slot_def tally_def same_frame_def settled_def meters_def intro: bumped_none split: if_splits)

lemma tally_reject: "tally 0 0 {} g (record_reject r g)"
  by (cases r) (auto intro!: tally_same simp: same_frame_def settled_def count_up_def meters_def)

text \<open>Dead entries taken out together: their slots go back, the live ones count as expired.\<close>

lemma tally_reap:
  assumes "pending_ids g' = pending_ids g - R" and "cancelled_ids g' = cancelled_ids g - R"
    and "same_frame g g'" and n: "n = card (pending_ids g \<inter> R)"
    and "slots g' = slots g - saturating_add 0 n"
    and "settled g + n \<le> u64_max \<Longrightarrow> settled g' = settled g + n"
    and "dequeued (stats g') = dequeued (stats g)" and "meters g' = meters g"
    and "finite (pending_ids g) \<Longrightarrow> signal_seq g' = (if n = 0 then signal_seq g else wrapping_inc (signal_seq g))"
  shows "tally 0 0 R g g'"
proof -
  have "bumped 0 R g g'"
  proof (cases "finite (pending_ids g) \<and> n \<noteq> 0")
    case True
    with n have "pending_ids g \<inter> R \<noteq> {}" by auto
    with True assms(9) show ?thesis by (intro bumped_once) simp_all
  next
    case False
    then show ?thesis
    proof (cases "finite (pending_ids g)")
      case True
      with False n have "pending_ids g \<inter> R = {}" by (simp add: card_eq_0_iff)
      with True False assms(9) show ?thesis by (intro bumped_none) simp_all
    qed (simp add: bumped_def)
  qed
  note this [simp]
  have "n \<le> card (pending_ids g)" if "finite (pending_ids g)"
    unfolding n using that by (intro card_mono) auto
  with assms show ?thesis
    unfolding tally_def by (auto simp: saturating_add_exact)
qed

subsection \<open>Entries that leave unserved\<close>

text \<open>An entry that leaves without being delivered is cancelled, or expired at a clock reading.\<close>

definition gone :: "clock \<Rightarrow> shared \<Rightarrow> shared \<Rightarrow> 'a queue_entry \<Rightarrow> bool" where
  "gone clk g g' e \<longleftrightarrow> entry_id e \<in> cancelled_ids g \<or>
     (\<exists>k. ticks g \<le> k \<and> k < ticks g' \<and> is_expired (deadline (entry_task e)) (clk k))"

lemma gone_later: "gone clk g h e \<Longrightarrow> ticks h \<le> ticks m \<Longrightarrow> gone clk g m e"
  unfolding gone_def by (meson order_less_le_trans)

lemma gone_earlier: "gone clk h m e \<Longrightarrow> cancelled_ids h \<subseteq> cancelled_ids g \<Longrightarrow> ticks g \<le> ticks h \<Longrightarrow> gone clk g m e"
  unfolding gone_def by (meson order_trans subsetD)

lemma dead_gone: "dead (clk (ticks g)) g e \<Longrightarrow> ticks g < ticks g' \<Longrightarrow> gone clk g g' e"
  unfolding dead_def gone_def by blast

end
