(* ===== verification/Purge.thy ===== *)
theory Purge
  imports Ledger
begin

text \<open>
  The enqueue-side compaction of \<open>scheduler.rs\<close>: \<open>purge_queue_with_budget\<close> drops the
  cancelled and expired entries at the front of a queue and then scans a bounded number of
  entries behind it; \<open>maybe_purge_tenant_before_enqueue\<close> decides when. The loops are
  translated with their indices; the lemmas give their closed form, which the enqueue
  proofs use.
\<close>

datatype purge_reason = Periodic | NearLimit | FullPurge

record purge_stats =
  removed_expired_live :: nat
  released_slots :: nat

definition purge_stats_default :: purge_stats where
  "purge_stats_default = \<lparr>removed_expired_live = 0, released_slots = 0\<rparr>"

definition is_tenant_near_limit :: "config \<Rightarrow> nat \<Rightarrow> bool" where
  "is_tenant_near_limit C tenant_len =
    (let maxt = unat (max_per_tenant C) in
     if maxt = 0 then True
     else saturating_mul128 maxt ENQUEUE_PURGE_NEAR_LIMIT_PERCENT \<le> saturating_mul128 tenant_len 100)"

subsection \<open>One queue\<close>

text \<open>What both loops do with an entry they removed: cancelled, or expired.\<close>

definition removed_cancelled :: "nat \<Rightarrow> shared \<Rightarrow> purge_stats \<Rightarrow> shared \<times> purge_stats" where
  "removed_cancelled i g st =
    (let (was_pending, g1) = take_pending i g
     in (g1, if was_pending then st\<lparr>released_slots := saturating_add (released_slots st) 1\<rparr> else st))"

definition removed_expired :: "nat \<Rightarrow> shared \<Rightarrow> purge_stats \<Rightarrow> shared \<times> purge_stats" where
  "removed_expired i g st =
    (let (was_pending, g1) = take_pending i g
     in (g1, if was_pending
             then st\<lparr>removed_expired_live := saturating_add (removed_expired_live st) 1,
                     released_slots := saturating_add (released_slots st) 1\<rparr>
             else st))"

fun purge_front :: "instant \<Rightarrow> 'a queue_entry list \<Rightarrow> shared \<Rightarrow> purge_stats \<Rightarrow>
    'a queue_entry list \<times> shared \<times> purge_stats" where
  "purge_front now [] g st = ([], g, st)"
| "purge_front now (e # q) g st =
    (let (marked, g1) = take_cancelled_marker (entry_id e) g in
     if marked then
       let (g2, st2) = removed_cancelled (entry_id e) g1 st in purge_front now q g2 st2
     else if is_expired (deadline (entry_task e)) now then
       let (g2, st2) = removed_expired (entry_id e) g1 st in purge_front now q g2 st2
     else (e # q, g1, st))"

function purge_scan :: "instant \<Rightarrow> nat \<Rightarrow> nat \<Rightarrow> nat \<Rightarrow> 'a queue_entry list \<Rightarrow> shared \<Rightarrow> purge_stats \<Rightarrow>
    'a queue_entry list \<times> shared \<times> purge_stats" where
  "purge_scan now budget idx scanned q g st =
    (if idx < length q \<and> scanned < budget then
       let e = q ! idx;
           (marked, g1) = take_cancelled_marker (entry_id e) g in
       if marked then
         let (g2, st2) = removed_cancelled (entry_id e) g1 st
         in purge_scan now budget idx (Suc scanned) (remove_at idx q) g2 st2
       else if is_expired (deadline (entry_task e)) now then
         let (g2, st2) = removed_expired (entry_id e) g1 st
         in purge_scan now budget idx (Suc scanned) (remove_at idx q) g2 st2
       else purge_scan now budget (Suc idx) (Suc scanned) q g1 st
     else (q, g, st))"
  by pat_completeness auto
termination
  by (relation "measure (\<lambda>(now, budget, idx, scanned, q, g, st). budget - scanned)") auto

declare purge_scan.simps [simp del]

definition purge_queue_with_budget :: "instant \<Rightarrow> nat \<Rightarrow> 'a queue_entry list \<Rightarrow> shared \<Rightarrow> purge_stats \<Rightarrow>
    'a queue_entry list \<times> shared \<times> purge_stats" where
  "purge_queue_with_budget now budget q g st =
    (let (q1, g1, st1) = purge_front now q g st in
     if budget = 0 \<or> q1 = [] then (q1, g1, st1)
     else purge_scan now budget 0 0 q1 g1 st1)"

subsection \<open>One tenant\<close>

fun purge_priorities :: "priority list \<Rightarrow> instant \<Rightarrow> nat \<Rightarrow> 'a tenant_state \<Rightarrow> shared \<Rightarrow> purge_stats \<Rightarrow>
    'a tenant_state \<times> shared \<times> purge_stats" where
  "purge_priorities [] now budget ts g st = (ts, g, st)"
| "purge_priorities (p # ps) now budget ts g st =
    (let (q, g1, st1) = purge_queue_with_budget now budget (queues ts p) g st;
         ts1 = ts\<lparr>queues := (queues ts)(p := q)\<rparr>;
         ts2 = (if q = [] then ts1\<lparr>active := (active ts1)(p := False)\<rparr> else ts1)
     in purge_priorities ps now budget ts2 g1 st1)"

definition purge_tenant_with_budget :: "instant \<Rightarrow> nat \<Rightarrow> 'a tenant_state \<Rightarrow> shared \<Rightarrow>
    'a tenant_state \<times> shared \<times> purge_stats" where
  "purge_tenant_with_budget now budget ts g =
    purge_priorities ordered now budget ts g purge_stats_default"

definition record_enqueue_purge_stats :: "purge_stats \<Rightarrow> shared \<Rightarrow> shared" where
  "record_enqueue_purge_stats st g =
    (let g1 = count_up enqueue_purge_runs_update 1 g;
         g2 = count_up expired_update (removed_expired_live st) g1
     in if 0 < released_slots st then notify_all (release_reserved_slots (released_slots st) g2) else g2)"

fun side_scan_budget :: "purge_reason \<Rightarrow> nat" where
  "side_scan_budget Periodic = 0"
| "side_scan_budget NearLimit = ENQUEUE_PURGE_SCAN_BUDGET_NEAR"
| "side_scan_budget FullPurge = ENQUEUE_PURGE_SCAN_BUDGET_FULL"

definition purge_tenant_for_enqueue :: "clock \<Rightarrow> purge_reason \<Rightarrow> 'a tenant_state \<Rightarrow> shared \<Rightarrow>
    purge_stats \<times> 'a tenant_state \<times> shared" where
  "purge_tenant_for_enqueue clk reason ts g =
    (let (now, g1) = read_clock clk g;
         (ts1, g2, st) = purge_tenant_with_budget now (side_scan_budget reason) ts g1;
         ts2 = ts1\<lparr>enqueue_attempts_since_purge := 0\<rparr>
     in (st, ts2, record_enqueue_purge_stats st g2))"

definition maybe_purge_tenant_before_enqueue :: "config \<Rightarrow> clock \<Rightarrow> 'a tenant_state \<Rightarrow> shared \<Rightarrow>
    purge_reason option \<times> 'a tenant_state \<times> shared" where
  "maybe_purge_tenant_before_enqueue C clk ts g =
    (let ts1 = ts\<lparr>enqueue_attempts_since_purge :=
                 saturating_add32 (enqueue_attempts_since_purge ts) 1\<rparr>;
         tenant_len = total_len ts1;
         reason =
           (if unat (max_per_tenant C) \<le> tenant_len then Some FullPurge
            else if is_tenant_near_limit C tenant_len then Some NearLimit
            else if ENQUEUE_PURGE_INTERVAL \<le> enqueue_attempts_since_purge ts1 then Some Periodic
            else None)
     in case reason of
          None \<Rightarrow> (None, ts1, g)
        | Some r \<Rightarrow> let (_, ts2, g1) = purge_tenant_for_enqueue clk r ts1 g in (Some r, ts2, g1))"

subsection \<open>Closed form of the loops\<close>

definition add_reaped :: "nat \<Rightarrow> purge_stats \<Rightarrow> purge_stats" where
  "add_reaped n st =
    st\<lparr>removed_expired_live := saturating_add (removed_expired_live st) n,
       released_slots := saturating_add (released_slots st) n\<rparr>"

definition purge_bounded :: "purge_stats \<Rightarrow> bool" where
  "purge_bounded st \<longleftrightarrow> removed_expired_live st \<le> u64_max \<and> released_slots st \<le> u64_max"

lemma purge_bounded_add [simp]: "purge_bounded (add_reaped n st)"
  by (simp add: purge_bounded_def add_reaped_def)

lemma add_reaped_0 [simp]: "purge_bounded st \<Longrightarrow> add_reaped 0 st = st"
  by (simp add: add_reaped_def purge_bounded_def)

lemma add_reaped_add [simp]: "add_reaped m (add_reaped n st) = add_reaped (n + m) st"
  by (simp add: add_reaped_def saturating_add_def)

text \<open>Removing one dead entry, in either branch.\<close>

lemma reap_marked:
  assumes "entry_id e \<in> cancelled_ids g" and "q_ok g [e]" and "purge_bounded st"
  shows "removed_cancelled (entry_id e) (g\<lparr>cancelled_ids := cancelled_ids g - {entry_id e}\<rparr>) st =
    (forget {entry_id e} g, add_reaped (live_count g [e]) st)"
  using assms
  by (simp add: removed_cancelled_def q_ok_def live_count_def take_pending_def forget_def)

lemma reap_expired:
  assumes "entry_id e \<notin> cancelled_ids g" and "q_ok g [e]"
  shows "removed_expired (entry_id e) (g\<lparr>cancelled_ids := cancelled_ids g - {entry_id e}\<rparr>) st =
    (forget {entry_id e} g, add_reaped (live_count g [e]) st)"
  using assms
  by (simp add: removed_expired_def q_ok_def live_count_def take_pending_def forget_def add_reaped_def)

lemma dead_after_forget:
  assumes "R \<inter> set (ids q) = {}"
  shows "takeWhile (dead now (forget R g)) q = takeWhile (dead now g) q"
    and "dropWhile (dead now (forget R g)) q = dropWhile (dead now g) q"
    and "filter (dead now (forget R g)) q = filter (dead now g) q"
    and "filter (\<lambda>e. \<not> dead now (forget R g) e) q = filter (\<lambda>e. \<not> dead now g e) q"
proof -
  have eq: "dead now (forget R g) e = dead now g e" if "e \<in> set q" for e
    using assms that by (intro dead_forget) auto
  show "takeWhile (dead now (forget R g)) q = takeWhile (dead now g) q"
    "dropWhile (dead now (forget R g)) q = dropWhile (dead now g) q"
    "filter (dead now (forget R g)) q = filter (dead now g) q"
    "filter (\<lambda>e. \<not> dead now (forget R g) e) q = filter (\<lambda>e. \<not> dead now g e) q"
    using eq by (auto intro: takeWhile_cong dropWhile_cong filter_cong)
qed

lemma purge_front_eq:
  assumes "q_ok g q" and "purge_bounded st"
  shows "purge_front now q g st =
    (dropWhile (dead now g) q, forget (set (ids (takeWhile (dead now g) q))) g,
     add_reaped (live_count g (takeWhile (dead now g) q)) st)"
  using assms
proof (induction q arbitrary: g st)
  case Nil
  then show ?case by simp
next
  case (Cons e q)
  from Cons.prems have e: "q_ok g [e]" and q: "q_ok (forget {entry_id e} g) q"
    and fresh: "{entry_id e} \<inter> set (ids q) = {}"
    by (auto simp: q_ok_Cons intro: q_ok_forget)
  have tw: "{entry_id e} \<inter> set (ids (takeWhile (dead now g) q)) = {}"
    using fresh by (auto dest: set_takeWhileD)
  have IH: "purge_front now q (forget {entry_id e} g) (add_reaped n st) =
      (dropWhile (dead now g) q,
       forget (insert (entry_id e) (set (ids (takeWhile (dead now g) q)))) g,
       add_reaped (n + live_count g (takeWhile (dead now g) q)) st)" for n
    using Cons.IH [OF q, of "add_reaped n st"] live_count_forget [OF tw]
    by (simp add: dead_after_forget [OF fresh])
  have lc: "live_count g (e # r) = live_count g [e] + live_count g r" for r
    by (simp add: live_count_def)
  show ?case
  proof (cases "entry_id e \<in> cancelled_ids g")
    case True
    with IH [of "live_count g [e]"] reap_marked [OF True e Cons.prems(2)] show ?thesis
      by (simp add: Let_def split_def dead_def [of now g e] lc [of "takeWhile (dead now g) q"])
  next
    case False
    with IH [of "live_count g [e]"] reap_expired [OF False e] Cons.prems(2) show ?thesis
      by (cases "is_expired (deadline (entry_task e)) now")
        (simp_all add: Let_def split_def dead_def [of now g e] lc [of "takeWhile (dead now g) q"])
  qed
qed

text \<open>
  The scan is at index \<open>idx\<close> with the entries before it kept; it looks at \<open>budget - scanned\<close>
  more entries and keeps those that are not dead.
\<close>

lemma purge_scan_eq:
  assumes "q_ok g rest" and "purge_bounded st"
  shows "purge_scan now budget (length kept) scanned (kept @ rest) g st =
    (let seen = take (budget - scanned) rest in
     (kept @ filter (\<lambda>e. \<not> dead now g e) seen @ drop (budget - scanned) rest,
      forget (set (ids (filter (dead now g) seen))) g,
      add_reaped (live_count g (filter (dead now g) seen)) st))"
  using assms
proof (induction "budget - scanned" arbitrary: scanned kept rest g st)
  case 0
  then show ?case by (simp add: purge_scan.simps)
next
  case (Suc k)
  note unfold = purge_scan.simps [of now budget "length kept" scanned]
  show ?case
  proof (cases rest)
    case Nil
    with Suc.prems show ?thesis by (simp add: unfold)
  next
    case (Cons e q)
    from Suc.hyps(2) have lt: "scanned < budget" and k: "k = budget - Suc scanned" by auto
    from Suc.prems Cons have e: "q_ok g [e]" and qg: "q_ok g q" and q: "q_ok (forget {entry_id e} g) q"
      and fresh: "{entry_id e} \<inter> set (ids q) = {}"
      by (auto simp: q_ok_Cons intro: q_ok_forget)
    let ?seen = "take k q"
    have fs: "{entry_id e} \<inter> set (ids ?seen) = {}"
      and fd: "{entry_id e} \<inter> set (ids (filter (dead now g) ?seen)) = {}"
      using fresh by (auto dest: in_set_takeD)
    have gone: "purge_scan now budget (length kept) (Suc scanned) (kept @ q) (forget {entry_id e} g)
        (add_reaped n st) =
      (kept @ filter (\<lambda>e. \<not> dead now g e) ?seen @ drop k q,
       forget (insert (entry_id e) (set (ids (filter (dead now g) ?seen)))) g,
       add_reaped (n + live_count g (filter (dead now g) ?seen)) st)" for n
      using Suc.hyps(1) [OF k q, of "add_reaped n st" kept] live_count_forget [OF fd]
      by (simp add: dead_after_forget [OF fs] k [symmetric] Let_def del: set_filter)
    have stay: "purge_scan now budget (Suc (length kept)) (Suc scanned) (kept @ e # q) g st =
      (kept @ e # filter (\<lambda>e. \<not> dead now g e) ?seen @ drop k q,
       forget (set (ids (filter (dead now g) ?seen))) g,
       add_reaped (live_count g (filter (dead now g) ?seen)) st)"
      using Suc.hyps(1) [OF k qg Suc.prems(2), of "kept @ [e]"]
      by (simp add: k [symmetric] Let_def del: set_filter)
    have lc: "live_count g (e # r) = live_count g [e] + live_count g r" for r
      by (simp add: live_count_def)
    have un: "purge_scan now budget (length kept) scanned (kept @ rest) g st =
      (if entry_id e \<in> cancelled_ids g then
         let (g2, st2) = removed_cancelled (entry_id e) (g\<lparr>cancelled_ids := cancelled_ids g - {entry_id e}\<rparr>) st
         in purge_scan now budget (length kept) (Suc scanned) (kept @ q) g2 st2
       else if is_expired (deadline (entry_task e)) now then
         let (g2, st2) = removed_expired (entry_id e) (g\<lparr>cancelled_ids := cancelled_ids g - {entry_id e}\<rparr>) st
         in purge_scan now budget (length kept) (Suc scanned) (kept @ q) g2 st2
       else purge_scan now budget (Suc (length kept)) (Suc scanned) (kept @ e # q) g st)"
      using lt Cons by (subst unfold) (auto simp: split_def Let_def nth_append)
    show ?thesis
    proof (cases "entry_id e \<in> cancelled_ids g")
      case True
      with un gone reap_marked [OF True e Suc.prems(2)] show ?thesis
        by (simp add: Cons Suc.hyps(2) [symmetric] Let_def dead_def [of now g e]
            lc [of "filter (dead now g) ?seen"] del: set_filter)
    next
      case False
      with un gone stay reap_expired [OF False e] show ?thesis
        by (simp add: Cons Suc.hyps(2) [symmetric] Let_def dead_def [of now g e]
            lc [of "filter (dead now g) ?seen"] del: set_filter)
    qed
  qed
qed

subsection \<open>What a purge keeps and what it reaps\<close>

definition purge_kept :: "instant \<Rightarrow> nat \<Rightarrow> shared \<Rightarrow> 'a queue_entry list \<Rightarrow> 'a queue_entry list" where
  "purge_kept now budget g q =
    (let q1 = dropWhile (dead now g) q
     in filter (\<lambda>e. \<not> dead now g e) (take budget q1) @ drop budget q1)"

definition purge_reaped :: "instant \<Rightarrow> nat \<Rightarrow> shared \<Rightarrow> 'a queue_entry list \<Rightarrow> 'a queue_entry list" where
  "purge_reaped now budget g q =
    takeWhile (dead now g) q @ filter (dead now g) (take budget (dropWhile (dead now g) q))"

lemma purge_reaped_dead: "e \<in> set (purge_reaped now budget g q) \<Longrightarrow> e \<in> set q \<and> dead now g e"
  by (auto simp: purge_reaped_def dest: set_takeWhileD in_set_takeD set_dropWhileD)

lemma purge_reaped_ids: "set (ids (purge_reaped now budget g q)) \<subseteq> set (ids q)"
  using purge_reaped_dead by fastforce

lemma purge_reaped_distinct:
  assumes "distinct (ids q)"
  shows "distinct (ids (purge_reaped now budget g q))"
proof -
  let ?a = "takeWhile (dead now g) q" and ?b = "dropWhile (dead now g) q"
  have "distinct (ids (?a @ ?b))" using assms by simp
  then have ab: "distinct (ids ?a)" "distinct (ids ?b)" "set (ids ?a) \<inter> set (ids ?b) = {}"
    by (simp_all del: takeWhile_dropWhile_id)
  from ab(2) have "distinct (ids (take budget ?b))" by (simp add: take_map [symmetric])
  then have "distinct (ids (filter (dead now g) (take budget ?b)))" by (rule distinct_map_filter_le)
  with ab show ?thesis
    by (auto simp: purge_reaped_def dest: in_set_takeD)
qed

lemma purge_kept_filter:
  assumes "distinct (ids q)"
  shows "purge_kept now budget g q =
    filter (\<lambda>e. entry_id e \<notin> set (ids (purge_reaped now budget g q))) q"
proof -
  let ?a = "takeWhile (dead now g) q" and ?b = "take budget (dropWhile (dead now g) q)"
    and ?c = "drop budget (dropWhile (dead now g) q)"
  have q: "?a @ ?b @ ?c = q" by simp
  have "filter (\<lambda>e. entry_id e \<notin> entry_id ` set (?a @ filter (dead now g) ?b)) (?a @ ?b @ ?c) =
      filter (\<lambda>e. \<not> dead now g e) ?b @ ?c"
    by (rule filter_out_keys) (simp only: q assms)
  then show ?thesis
    by (simp only: q purge_kept_def purge_reaped_def Let_def list.set_map)
qed

lemma purge_queue_eq:
  assumes "q_ok g q" and "purge_bounded st"
  shows "purge_queue_with_budget now budget q g st =
    (purge_kept now budget g q, forget (set (ids (purge_reaped now budget g q))) g,
     add_reaped (live_count g (purge_reaped now budget g q)) st)"
proof -
  let ?a = "takeWhile (dead now g) q" and ?b = "dropWhile (dead now g) q"
  let ?seen = "take budget ?b" and ?st = "add_reaped (live_count g (takeWhile (dead now g) q)) st"
  define R where "R = set (ids ?a)"
  have "q_ok g (?a @ ?b)" using assms(1) by simp
  then have b: "q_ok g ?b" and ab: "R \<inter> set (ids ?b) = {}"
    by (simp_all only: q_ok_append R_def)
  then have qb: "q_ok (forget R g) ?b" by (intro q_ok_forget)
  have s: "R \<inter> set (ids ?seen) = {}" and f: "R \<inter> set (ids (filter (dead now g) ?seen)) = {}"
    using ab by (auto dest: in_set_takeD)
  have front: "purge_front now q g st = (?b, forget R g, ?st)"
    using purge_front_eq [OF assms] by (simp only: R_def)
  have scan: "purge_scan now budget 0 0 ?b (forget R g) ?st =
      (filter (\<lambda>e. \<not> dead now g e) ?seen @ drop budget ?b,
       forget (R \<union> set (ids (filter (dead now g) ?seen))) g,
       add_reaped (live_count g ?a + live_count g (filter (dead now g) ?seen)) st)"
    using purge_scan_eq [OF qb purge_bounded_add, of now budget "[]" 0 "live_count g ?a" st]
    by (simp add: Let_def dead_after_forget [OF s] live_count_forget [OF f] del: set_filter)
  have R: "set (ids (purge_reaped now budget g q)) = R \<union> set (ids (filter (dead now g) ?seen))"
    by (simp only: purge_reaped_def map_append set_append R_def)
  show ?thesis
  proof (cases "budget = 0 \<or> ?b = []")
    case True
    then have "?seen = []" and "drop budget ?b = ?b"
      by (elim disjE; simp only: take_0 drop_0 take_Nil drop_Nil)+
    then have "purge_kept now budget g q = ?b" and "purge_reaped now budget g q = ?a"
      by (simp_all only: purge_kept_def purge_reaped_def Let_def filter.simps append_Nil append_Nil2)
    with front True show ?thesis
      by (simp add: purge_queue_with_budget_def R_def)
  next
    case False
    with front scan show ?thesis
      unfolding R by (auto simp: purge_queue_with_budget_def purge_kept_def purge_reaped_def Let_def)
  qed
qed

lemma purge_after_forget:
  assumes "R \<inter> set (ids q) = {}"
  shows "purge_kept now budget (forget R g) q = purge_kept now budget g q"
    and "purge_reaped now budget (forget R g) q = purge_reaped now budget g q"
    and "live_count (forget R g) (purge_reaped now budget g q) =
      live_count g (purge_reaped now budget g q)"
proof -
  have b: "R \<inter> set (ids (take budget (dropWhile (dead now g) q))) = {}"
    using assms by (auto dest: in_set_takeD set_dropWhileD)
  show "purge_kept now budget (forget R g) q = purge_kept now budget g q"
    "purge_reaped now budget (forget R g) q = purge_reaped now budget g q"
    by (simp_all only: purge_kept_def purge_reaped_def dead_after_forget [OF assms]
        dead_after_forget [OF b] Let_def)
  show "live_count (forget R g) (purge_reaped now budget g q) =
      live_count g (purge_reaped now budget g q)"
    using assms purge_reaped_ids [of now budget g q] by (intro live_count_forget) blast
qed

lemma purge_priorities_eq:
  assumes "q_ok g (concat (map (queues ts) ps))" and "distinct ps" and "purge_bounded st"
  shows "purge_priorities ps now budget ts g st =
    (ts\<lparr>queues := (\<lambda>p. if p \<in> set ps then purge_kept now budget g (queues ts p) else queues ts p),
        active := (\<lambda>p. active ts p \<and> (p \<in> set ps \<longrightarrow> purge_kept now budget g (queues ts p) \<noteq> []))\<rparr>,
     forget (\<Union>p \<in> set ps. set (ids (purge_reaped now budget g (queues ts p)))) g,
     add_reaped (\<Sum>p \<leftarrow> ps. live_count g (purge_reaped now budget g (queues ts p))) st)"
  using assms
proof (induction ps arbitrary: ts g st)
  case Nil
  then show ?case by simp
next
  case (Cons p ps)
  let ?q = "queues ts p" and ?rest = "concat (map (queues ts) ps)"
  let ?k = "purge_kept now budget g" and ?r = "purge_reaped now budget g"
  let ?R = "set (ids (?r ?q))" and ?g = "forget (set (ids (?r ?q))) g"
  from Cons.prems(1) have q: "q_ok g ?q" and rest: "q_ok g ?rest"
    and dis: "set (ids ?q) \<inter> set (ids ?rest) = {}" by (simp_all add: q_ok_append)
  have R: "?R \<inter> set (ids (queues ts x)) = {}" if "x \<in> set ps" for x
    using dis that purge_reaped_ids [of now budget g ?q] by fastforce
  have Rr: "?R \<inter> set (ids ?rest) = {}"
    using dis purge_reaped_ids [of now budget g ?q] by blast
  have k: "purge_kept now budget ?g (queues ts x) = ?k (queues ts x)"
    and r: "purge_reaped now budget ?g (queues ts x) = ?r (queues ts x)"
    and l: "live_count ?g (?r (queues ts x)) = live_count g (?r (queues ts x))" if "x \<in> set ps" for x
    by (fact purge_after_forget [OF R [OF that]])+
  let ?ts = "ts\<lparr>queues := (queues ts)(p := ?k ?q), active := (active ts)(p := active ts p \<and> ?k ?q \<noteq> [])\<rparr>"
  have pn: "p \<notin> set ps" "distinct ps" using Cons.prems(2) by auto
  then have map: "map (queues ?ts) ps = map (queues ts) ps" by auto
  have "q_ok ?g (concat (map (queues ?ts) ps))"
    unfolding map using rest Rr by (rule q_ok_forget)
  note IH = Cons.IH [OF this pn(2) purge_bounded_add, of "live_count g (?r ?q)" st]
  have un: "purge_priorities (p # ps) now budget ts g st =
      purge_priorities ps now budget ?ts ?g (add_reaped (live_count g (?r ?q)) st)"
    using purge_queue_eq [OF q Cons.prems(3), of now budget] by (simp add: Let_def fun_upd_idem)
  have sum: "(\<Sum>x \<leftarrow> ps. live_count ?g (purge_reaped now budget ?g (queues ?ts x))) =
      (\<Sum>x \<leftarrow> ps. live_count g (?r (queues ts x)))"
    using pn r l by (intro arg_cong [where f = sum_list] map_cong) auto
  have UN: "(\<Union>x \<in> set ps. set (ids (purge_reaped now budget ?g (queues ?ts x)))) =
      (\<Union>x \<in> set ps. set (ids (?r (queues ts x))))"
    using pn r by (intro SUP_cong) (auto simp del: list.set_map)
  show ?case
    unfolding un IH sum UN using pn k
    by (auto simp: fun_eq_iff intro!: tenant_state.equality)
qed

subsection \<open>The effect on a tenant and on the books\<close>

definition tqueue :: "'a tenant_state \<Rightarrow> 'a queue_entry list" where
  "tqueue ts = concat (map (queues ts) ordered)"

lemma tqueue_eq: "tqueue ts = queues ts High @ queues ts Normal @ queues ts Low"
  by (simp add: tqueue_def ordered_def)

lemma set_queue_tqueue: "set (queues ts p) \<subseteq> set (tqueue ts)"
  by (cases p) (auto simp: tqueue_eq)

lemma q_ok_queue: "q_ok g (tqueue ts) \<Longrightarrow> q_ok g (queues ts p)"
  by (cases p) (simp_all add: tqueue_eq q_ok_append)

lemma q_ok_disjoint:
  "q_ok g (tqueue ts) \<Longrightarrow> p \<noteq> p' \<Longrightarrow> set (ids (queues ts p)) \<inter> set (ids (queues ts p')) = {}"
  by (cases p; cases p') (auto simp: tqueue_eq q_ok_append)

text \<open>
  \<open>shrinks R ts ts'\<close>: the entries with an id in \<open>R\<close> are gone from the tenant's queues; a
  queue that keeps an entry keeps its activity flag; nothing else the scheduler relies on
  has changed.
\<close>

definition shrinks :: "nat set \<Rightarrow> 'a tenant_state \<Rightarrow> 'a tenant_state \<Rightarrow> bool" where
  "shrinks R ts ts' \<longleftrightarrow>
     R \<subseteq> set (ids (tqueue ts)) \<and>
     (\<forall>p. queues ts' p = filter (\<lambda>e. entry_id e \<notin> R) (queues ts p)) \<and>
     (\<forall>p. active ts' p \<longrightarrow> active ts p) \<and>
     (\<forall>p. active ts p \<and> queues ts' p \<noteq> [] \<longrightarrow> active ts' p) \<and>
     deficits ts' = deficits ts \<and> quantum ts' = quantum ts"

lemma shrinks_refl: "shrinks {} ts ts"
  by (simp add: shrinks_def)

lemma shrinks_trans:
  assumes "shrinks R ts us" and "shrinks S us vs"
  shows "shrinks (R \<union> S) ts vs"
proof -
  have us: "queues us p = filter (\<lambda>e. entry_id e \<notin> R) (queues ts p)" for p
    using assms(1) by (simp only: shrinks_def)
  have vs: "queues vs p = filter (\<lambda>e. entry_id e \<notin> S) (queues us p)" for p
    using assms(2) by (simp only: shrinks_def)
  have "queues vs p = filter (\<lambda>e. entry_id e \<notin> R \<union> S) (queues ts p)" for p
    by (simp only: us vs filter_filter Un_iff de_Morgan_disj)
  moreover have "active vs p" if "active ts p" "queues vs p \<noteq> []" for p
  proof -
    have "queues us p \<noteq> []" using that(2) vs [of p] by (metis filter.simps(1))
    with that assms show ?thesis unfolding shrinks_def by (metis (no_types))
  qed
  moreover have "active ts p" if "active vs p" for p
    using assms that unfolding shrinks_def by (metis (no_types))
  moreover have "deficits vs = deficits ts" "quantum vs = quantum ts"
    using assms by (simp_all only: shrinks_def)
  moreover have "set (ids (tqueue us)) \<subseteq> set (ids (tqueue ts))"
    by (auto simp: tqueue_eq us)
  then have "R \<union> S \<subseteq> set (ids (tqueue ts))"
    using assms unfolding shrinks_def by blast
  ultimately show ?thesis unfolding shrinks_def by blast
qed

lemma shrinks_total_len: "shrinks R ts ts' \<Longrightarrow> total_len ts' \<le> total_len ts"
  by (intro total_len_mono) (simp add: shrinks_def)

lemma shrinks_q_ok:
  assumes "shrinks R ts ts'" and "q_ok g (tqueue ts)"
    and "pending_ids g' = pending_ids g - R" and "cancelled_ids g' = cancelled_ids g - R"
  shows "q_ok g' (tqueue ts')"
proof -
  have "tqueue ts' = filter (\<lambda>e. entry_id e \<notin> R) (tqueue ts)"
    using assms(1) by (simp add: tqueue_eq shrinks_def)
  then have "q_ok g (tqueue ts')" and "\<forall>e \<in> set (tqueue ts'). entry_id e \<notin> R"
    using assms(2) by (simp_all add: q_ok_filter)
  then show ?thesis using assms(3,4) by (simp add: q_ok_def)
qed

definition purged_ids :: "instant \<Rightarrow> nat \<Rightarrow> shared \<Rightarrow> 'a tenant_state \<Rightarrow> nat set" where
  "purged_ids now budget g ts = (\<Union>p. set (ids (purge_reaped now budget g (queues ts p))))"

lemma purged_ids_dead:
  assumes "q_ok g (tqueue ts)" and "e \<in> set (queues ts p)" and "entry_id e \<in> purged_ids now budget g ts"
  shows "dead now g e"
proof -
  from assms(3) obtain p' e' where e': "e' \<in> set (purge_reaped now budget g (queues ts p'))"
    "entry_id e' = entry_id e" by (auto simp: purged_ids_def)
  with purge_reaped_dead have d: "e' \<in> set (queues ts p')" "dead now g e'" by blast+
  then have "e \<in> set (tqueue ts)" "e' \<in> set (tqueue ts)"
    using assms(2) set_queue_tqueue by blast+
  with e'(2) assms(1) have "e = e'"
    by (auto simp: q_ok_def distinct_map dest: inj_onD)
  with d show ?thesis by simp
qed

lemma purged_ids_subset: "purged_ids now budget g ts \<subseteq> set (ids (tqueue ts))"
  unfolding purged_ids_def using purge_reaped_ids set_queue_tqueue by fastforce

lemma purge_queue_kept_tenant:
  assumes "q_ok g (tqueue ts)"
  shows "purge_kept now budget g (queues ts p) =
    filter (\<lambda>e. entry_id e \<notin> purged_ids now budget g ts) (queues ts p)"
proof -
  have "entry_id e \<in> set (ids (purge_reaped now budget g (queues ts p)))"
    if e: "e \<in> set (queues ts p)" and p': "entry_id e \<in> set (ids (purge_reaped now budget g (queues ts p')))" for e p'
  proof (cases "p' = p")
    case False
    with q_ok_disjoint [OF assms] e p' purge_reaped_ids [of now budget g "queues ts p'"]
    show ?thesis by fastforce
  qed (use p' in simp)
  then have "filter (\<lambda>e. entry_id e \<notin> purged_ids now budget g ts) (queues ts p) =
      filter (\<lambda>e. entry_id e \<notin> set (ids (purge_reaped now budget g (queues ts p)))) (queues ts p)"
    unfolding purged_ids_def by (intro filter_cong) blast+
  moreover have "distinct (ids (queues ts p))"
    using q_ok_queue [OF assms] by (simp add: q_ok_def)
  ultimately show ?thesis by (simp add: purge_kept_filter)
qed

lemma purged_live_count:
  assumes "q_ok g (tqueue ts)"
  shows "(\<Sum>p \<leftarrow> ordered. live_count g (purge_reaped now budget g (queues ts p))) =
    card (pending_ids g \<inter> purged_ids now budget g ts)"
proof -
  let ?r = "\<lambda>p. purge_reaped now budget g (queues ts p)"
  let ?all = "?r High @ ?r Normal @ ?r Low"
  have "distinct (ids (?r p))" for p
    using q_ok_queue [OF assms] by (intro purge_reaped_distinct) (simp add: q_ok_def)
  moreover have "set (ids (?r p)) \<inter> set (ids (?r p')) = {}" if "p \<noteq> p'" for p p'
    using q_ok_disjoint [OF assms that] purge_reaped_ids by blast
  ultimately have "distinct (ids ?all)" by (simp add: Int_Un_distrib)
  then have "live_count g ?all = card (pending_ids g \<inter> set (ids ?all))"
    by (rule live_count_card)
  moreover have "purged_ids now budget g ts = set (ids ?all)"
    by (simp add: purged_ids_def UNIV_priority)
  ultimately show ?thesis by (simp add: ordered_def add.assoc)
qed

lemma purge_tenant_eq:
  assumes "q_ok g (tqueue ts)"
  shows "purge_tenant_with_budget now budget ts g =
    (ts\<lparr>queues := (\<lambda>p. purge_kept now budget g (queues ts p)),
        active := (\<lambda>p. active ts p \<and> purge_kept now budget g (queues ts p) \<noteq> [])\<rparr>,
     forget (purged_ids now budget g ts) g,
     add_reaped (card (pending_ids g \<inter> purged_ids now budget g ts)) purge_stats_default)"
proof -
  have "purge_bounded purge_stats_default"
    by (simp add: purge_bounded_def purge_stats_default_def)
  then show ?thesis
    using purge_priorities_eq [of g ts ordered] assms purged_live_count [OF assms]
    by (simp add: purge_tenant_with_budget_def tqueue_def purged_ids_def)
qed

lemma record_purge_tally:
  assumes "n = card (pending_ids g \<inter> R)"
  shows "tally 0 0 R g (record_enqueue_purge_stats (add_reaped n purge_stats_default) (forget R g))"
  using assms
  by (intro tally_reap [of _ _ _ n])
    (auto simp: record_enqueue_purge_stats_def Let_def frame_simps same_frame_def settled_def
      add_reaped_def purge_stats_default_def count_up_def saturating_add_def meters_def)

text \<open>\<open>purge_tenant_for_enqueue\<close>: what it does to the tenant, to the books, and what it reports.\<close>

lemma purge_for_enqueue:
  assumes ok: "q_ok g (tqueue ts)" and "purge_tenant_for_enqueue clk reason ts g = (st, ts', g')"
  shows "\<exists>R. R = purged_ids (clk (ticks g)) (side_scan_budget reason) g ts \<and>
    shrinks R ts ts' \<and> tally 0 0 R g g' \<and> released_slots st = saturating_add 0 (card (pending_ids g \<inter> R)) \<and>
    ticks g' = Suc (ticks g)"
proof -
  define g1 where "g1 = snd (read_clock clk g)"
  let ?now = "clk (ticks g)" and ?b = "side_scan_budget reason"
  let ?R = "purged_ids ?now ?b g ts"
  have rc: "read_clock clk g = (?now, g1)" and p1: "pending_ids g1 = pending_ids g"
    by (simp_all add: g1_def read_clock_def)
  have dead: "dead ?now g1 = dead ?now g"
    by (simp add: fun_eq_iff dead_def g1_def frame_simps)
  then have same: "purge_kept ?now ?b g1 = purge_kept ?now ?b g" "purge_reaped ?now ?b g1 = purge_reaped ?now ?b g"
    by (simp_all only: fun_eq_iff purge_kept_def purge_reaped_def dead simp_thms)
  have R: "purged_ids ?now ?b g1 ts = ?R" by (simp add: purged_ids_def same)
  have ok': "q_ok g1 (tqueue ts)" using ok by (simp add: q_ok_def g1_def frame_simps)
  have eqs: "st = add_reaped (card (pending_ids g \<inter> ?R)) purge_stats_default"
    "ts' = ts\<lparr>queues := (\<lambda>p. purge_kept ?now ?b g (queues ts p)),
        active := (\<lambda>p. active ts p \<and> purge_kept ?now ?b g (queues ts p) \<noteq> []),
        enqueue_attempts_since_purge := 0\<rparr>"
    "g' = record_enqueue_purge_stats st (forget ?R g1)"
    using assms(2) purge_tenant_eq [OF ok', of ?now ?b]
    by (auto simp: purge_tenant_for_enqueue_def rc R same p1 Let_def)
  have "shrinks ?R ts ts'"
    using purged_ids_subset by (simp add: eqs(2) shrinks_def purge_queue_kept_tenant [OF ok])
  moreover have t1: "tally 0 0 ?R g1 g'"
    unfolding eqs(1,3) by (rule record_purge_tally) (simp only: p1)
  have "tally 0 0 ?R g g'"
    using tally_trans [OF tally_read_clock [of g clk, folded g1_def] t1] by (simp only: add_0 Un_empty_left)
  moreover have "ticks g' = Suc (ticks g)"
    by (simp add: eqs(3) g1_def record_enqueue_purge_stats_def Let_def frame_simps) (simp add: read_clock_def)
  ultimately show ?thesis
    by (intro exI [of _ ?R]) (simp add: eqs(1) add_reaped_def purge_stats_default_def)
qed

subsection \<open>The purge of a queue in closed form\<close>

text \<open>A state with one pending task, for the instances.\<close>

definition purge_demo_state :: shared where
  "purge_demo_state =
    \<lparr>stats = stats_counters_new\<lparr>queue_len_estimate := 1\<rparr>, signal_seq = 0, shutdown_state = 0,
     top_tenants = top_tenants_new 1, tenant_quantum = Map.empty, quantum_provider = None,
     next_task_id = 1, pending_ids = {1}, cancelled_ids = {}, ticks = 0\<rparr>"

text \<open>
  C13: The purge of a queue, with its loops over indices, does this: the dead entries at the
  front go, then the dead ones among the next \<open>budget\<close> entries; every other entry stays, in
  its order, and no live entry is touched. The ids of the entries that went leave both id
  sets, and the numbers of slots to release and of expired tasks are those that were still
  pending. With a budget not below the length no dead entry is left.
\<close>

theorem purge_queue_exact:
  assumes "q_ok g q" and "purge_queue_with_budget now budget q g purge_stats_default = (q', g', st)"
    and "length q \<le> u64_max"
  shows "(let rest = dropWhile (dead now g) q
      in q' = filter (\<lambda>e. \<not> dead now g e) (take budget rest) @ drop budget rest) \<and>
    filter (\<lambda>e. \<not> dead now g e) q' = filter (\<lambda>e. \<not> dead now g e) q \<and>
    (length q \<le> budget \<longrightarrow> (\<forall>e \<in> set q'. \<not> dead now g e)) \<and>
    (\<exists>gone. mset q = mset q' + mset gone \<and> g' = forget (set (ids gone)) g \<and>
      released_slots st = live_count g gone \<and> removed_expired_live st = live_count g gone)"
proof -
  let ?rest = "dropWhile (dead now g) q" and ?front = "takeWhile (dead now g) q"
  let ?gone = "purge_reaped now budget g q"
  have bd: "purge_bounded purge_stats_default" by (simp add: purge_bounded_def purge_stats_default_def)
  from purge_queue_eq [OF assms(1) bd] assms(2) have q': "q' = purge_kept now budget g q"
    and g': "g' = forget (set (ids ?gone)) g" and st: "st = add_reaped (live_count g ?gone) purge_stats_default"
    by simp_all
  have all_dead: "filter (\<lambda>e. \<not> dead now g e) ?front = []"
    by (auto simp: filter_empty_conv dest: set_takeWhileD)
  have "filter (\<lambda>e. \<not> dead now g e) q = filter (\<lambda>e. \<not> dead now g e) (?front @ take budget ?rest @ drop budget ?rest)"
    by simp
  also have "\<dots> = filter (\<lambda>e. \<not> dead now g e) q'"
    by (simp only: filter_append all_dead) (simp add: q' purge_kept_def Let_def)
  finally have live: "filter (\<lambda>e. \<not> dead now g e) q' = filter (\<lambda>e. \<not> dead now g e) q" by simp
  have parts: "mset (take budget ?rest) =
      mset (filter (dead now g) (take budget ?rest)) + mset (filter (\<lambda>e. \<not> dead now g e) (take budget ?rest))"
    using multiset_partition [of "mset (take budget ?rest)" "dead now g"] by (simp only: mset_filter)
  have "mset q = mset (?front @ take budget ?rest @ drop budget ?rest)" by simp
  also have "\<dots> = mset q' + mset ?gone"
    by (simp only: mset_append parts q' purge_kept_def purge_reaped_def Let_def ac_simps)
  finally have m: "mset q = mset q' + mset ?gone" .
  then have "size (mset ?gone) \<le> size (mset q)" by simp
  then have "length ?gone \<le> length q" by simp
  then have "live_count g ?gone \<le> u64_max"
    using length_filter_le [of "\<lambda>e. entry_id e \<in> pending_ids g" ?gone] assms(3)
    unfolding live_count_def by (meson order_trans)
  then have "released_slots st = live_count g ?gone \<and> removed_expired_live st = live_count g ?gone"
    by (simp add: st add_reaped_def purge_stats_default_def saturating_add_def)
  moreover have "\<forall>e \<in> set q'. \<not> dead now g e" if "length q \<le> budget"
  proof -
    have "length ?rest \<le> budget" using that length_dropWhile_le [of "dead now g" q] by linarith
    then have "q' = filter (\<lambda>e. \<not> dead now g e) ?rest" by (simp add: q' purge_kept_def)
    then show ?thesis by simp
  qed
  moreover have "q' = filter (\<lambda>e. \<not> dead now g e) (take budget ?rest) @ drop budget ?rest"
    by (simp only: q' purge_kept_def Let_def)
  ultimately show ?thesis using m g' live unfolding Let_def by blast
qed


theorem purge_queue_exact_witness:
  "\<exists>q' g' st. purge_queue_with_budget 100 1
      [\<lparr>entry_id = 1, entry_task = \<lparr>payload = 0 :: nat, enqueue_ts = 0, deadline = Some 50, prio = Low, cost = 1\<rparr>\<rparr>]
      purge_demo_state purge_stats_default = (q', g', st) \<and> q' = [] \<and> released_slots st = 1"
proof -
  let ?q = "[\<lparr>entry_id = 1, entry_task = \<lparr>payload = 0 :: nat, enqueue_ts = 0, deadline = Some 50, prio = Low, cost = 1\<rparr>\<rparr>]"
  obtain q' g' st where p: "purge_queue_with_budget 100 1 ?q purge_demo_state purge_stats_default = (q', g', st)"
    by (metis prod.exhaust)
  have "q_ok purge_demo_state ?q" by (simp add: q_ok_def purge_demo_state_def)
  from purge_queue_exact [OF this p] obtain gone where "filter (\<lambda>e. \<not> dead 100 purge_demo_state e) q' = []"
    "\<forall>e \<in> set q'. \<not> dead 100 purge_demo_state e" and gone: "mset ?q = mset q' + mset gone"
    "released_slots st = live_count purge_demo_state gone"
    by (auto simp: dead_def is_expired_def)
  then have "q' = []" by (metis filter_True)
  moreover from this gone have "gone = ?q" by (cases gone) (auto simp: single_eq_add_mset)
  ultimately show ?thesis using p gone(2) by (simp add: live_count_def purge_demo_state_def)
qed

end
