(* ===== verification/Enqueue.thy ===== *)
theory Enqueue
  imports Purge
begin

text \<open>
  The enqueue side of \<open>scheduler.rs\<close>: the reject path (\<open>enqueue_try_reject\<close>), the drop path
  (\<open>enqueue_drop_with_handle\<close>) and what they are made of. A call runs under the mutex of one
  shard and is one step here. The code checks the shutdown state before and again after
  taking the lock; in one step both checks read the same value, so there is one.
\<close>

subsection \<open>Shards and tenants\<close>

definition shard_index :: "'a sched \<Rightarrow> tenant_key \<Rightarrow> nat" where
  "shard_index s t = unat (as_u64 t) mod length (shards s)"

definition quantum_for :: "config \<Rightarrow> tenant_key \<Rightarrow> shared \<Rightarrow> u64" where
  "quantum_for C t g =
    (case tenant_quantum g t of
       Some v \<Rightarrow> max v 1
     | None \<Rightarrow> (case quantum_provider g of
         Some provider \<Rightarrow> max (provider t) 1
       | None \<Rightarrow> max (cfg_quantum C) 1))"

definition backpressure_for :: "config \<Rightarrow> tenant_key \<Rightarrow> backpressure_policy" where
  "backpressure_for C t =
    (case backpressure_by_tenant C t of Some b \<Rightarrow> b | None \<Rightarrow> backpressure C)"

text \<open>\<open>shard.tenants.entry(tenant).or_insert_with(..)\<close>.\<close>

definition tenant_entry :: "config \<Rightarrow> tenant_key \<Rightarrow> 'a shard \<Rightarrow> shared \<Rightarrow> 'a tenant_state" where
  "tenant_entry C t sh g =
    (case tenants sh t of
       Some ts \<Rightarrow> ts
     | None \<Rightarrow> tenant_state_new (as_i64 (quantum_for C t g)))"

definition put_tenant :: "nat \<Rightarrow> tenant_key \<Rightarrow> 'a tenant_state \<Rightarrow> shared \<Rightarrow> 'a sched \<Rightarrow> 'a sched" where
  "put_tenant i t ts g s =
    (let sh = shards s ! i
     in s\<lparr>shared := g, shards := (shards s)[i := sh\<lparr>tenants := (tenants sh)(t \<mapsto> ts)\<rparr>]\<rparr>)"

definition activate_shard :: "nat \<Rightarrow> 'a sched \<Rightarrow> 'a sched" where
  "activate_shard i s =
    (if shard_active s ! i then s
     else s\<lparr>shard_active := (shard_active s)[i := True],
            active_shards := ring_push_back (active_shards s) i\<rparr>)"

definition rings_empty :: "'a shard \<Rightarrow> bool" where
  "rings_empty sh = list_all (\<lambda>p. ring_is_empty (active_rings sh p)) ordered"

subsection \<open>Reserving a slot, accepting a task\<close>

text \<open>
  \<open>try_reserve_slot\<close>, and when it fails and no full purge has run yet, a full purge of this
  tenant and a second try; both paths contain this code.
\<close>

definition reserve_or_purge :: "config \<Rightarrow> clock \<Rightarrow> bool \<Rightarrow> 'a tenant_state \<Rightarrow> shared \<Rightarrow>
    bool \<times> 'a tenant_state \<times> shared" where
  "reserve_or_purge C clk ran_full_purge ts g =
    (let (reserved, g1) = try_reserve_slot C g in
     if \<not> reserved \<and> \<not> ran_full_purge then
       let (purge, ts1, g2) = purge_tenant_for_enqueue clk FullPurge ts g1 in
       if 0 < released_slots purge then
         let (reserved2, g3) = try_reserve_slot C g2 in (reserved2, ts1, g3)
       else (False, ts1, g2)
     else (reserved, ts, g1))"

text \<open>
  The part both paths end with once a slot is theirs: a fresh handle, the entry at the back
  of its queue, the tenant into the ring if the queue was empty and inactive, the shard
  into the active shards if all its rings were empty.
\<close>

definition enqueue_accept :: "nat \<Rightarrow> tenant_key \<Rightarrow> 'a task \<Rightarrow> bool \<Rightarrow> 'a tenant_state \<Rightarrow> shared \<Rightarrow>
    'a sched \<Rightarrow> task_handle \<times> 'a sched" where
  "enqueue_accept i t task shard_was_empty ts g s =
    (let (handle, g1) = next_handle g;
         g2 = register_pending handle g1;
         p = prio task;
         was_empty = (queues ts p = []);
         ts1 = ts\<lparr>queues := (queues ts)(p := queues ts p @ [\<lparr>entry_id = handle_id handle, entry_task = task\<rparr>])\<rparr>;
         activate = (was_empty \<and> \<not> active ts1 p);
         ts2 = (if activate then ts1\<lparr>active := (active ts1)(p := True)\<rparr> else ts1);
         g3 = count_up enqueued_update 1 g2;
         s1 = put_tenant i t ts2 g3 s;
         sh1 = shards s1 ! i;
         sh2 = (if activate
                then sh1\<lparr>active_rings := (active_rings sh1)(p := ring_push_back (active_rings sh1 p) t)\<rparr>
                else sh1);
         s2 = s1\<lparr>shards := (shards s1)[i := sh2]\<rparr>;
         s3 = (if shard_was_empty then activate_shard i s2 else s2);
         s4 = (if was_empty then s3\<lparr>shared := notify_all (shared s3)\<rparr> else s3)
     in (handle, s4))"

subsection \<open>The reject path\<close>

datatype 'a enqueue_attempt =
    AttemptEnqueued task_handle
  | AttemptClosed
  | AttemptFull "'a task" reject_reason

definition enqueue_try_reject :: "config \<Rightarrow> clock \<Rightarrow> tenant_key \<Rightarrow> 'a task \<Rightarrow> 'a sched \<Rightarrow>
    'a enqueue_attempt \<times> 'a sched" where
  "enqueue_try_reject C clk t task s =
    (if \<not> is_accepting_enqueues (shared s) then (AttemptClosed, s)
     else
       let i = shard_index s t;
           sh = shards s ! i;
           shard_was_empty = rings_empty sh;
           ts0 = tenant_entry C t sh (shared s);
           (purge_reason, ts1, g1) = maybe_purge_tenant_before_enqueue C clk ts0 (shared s);
           ran_full_purge = (purge_reason = Some FullPurge);
           limit = unat (max_per_tenant C);
           (ran_full_purge2, ts2, g2) =
             (if limit \<le> total_len ts1 \<and> \<not> ran_full_purge
              then let (_, ts', g') = purge_tenant_for_enqueue clk FullPurge ts1 g1 in (True, ts', g')
              else (ran_full_purge, ts1, g1))
       in if limit \<le> total_len ts2 then (AttemptFull task TenantFull, put_tenant i t ts2 g2 s)
          else
            let (reserved, ts3, g3) = reserve_or_purge C clk ran_full_purge2 ts2 g2
            in if \<not> reserved then (AttemptFull task GlobalFull, put_tenant i t ts3 g3 s)
               else let (handle, s') = enqueue_accept i t task shard_was_empty ts3 g3 s
                    in (AttemptEnqueued handle, s'))"

definition enqueue_reject_with_handle :: "config \<Rightarrow> clock \<Rightarrow> tenant_key \<Rightarrow> 'a task \<Rightarrow> 'a sched \<Rightarrow>
    enqueue_with_handle_result \<times> 'a sched" where
  "enqueue_reject_with_handle C clk t task s =
    (case enqueue_try_reject C clk t task s of
       (AttemptEnqueued handle, s1) \<Rightarrow> (Enqueued handle, s1)
     | (AttemptClosed, s1) \<Rightarrow> (EnqueueClosed, s1)
     | (AttemptFull _ reason, s1) \<Rightarrow>
         (Rejected reason, s1\<lparr>shared := record_reject reason (shared s1)\<rparr>))"

subsection \<open>The drop path\<close>

datatype drop_strategy = Oldest | Newest

fun drop_order :: "priority \<Rightarrow> priority list" where
  "drop_order High = [Low, Normal, High]"
| "drop_order Normal = [Low, Normal]"
| "drop_order Low = [Low]"

fun drop_first :: "priority list \<Rightarrow> drop_strategy \<Rightarrow> 'a tenant_state \<Rightarrow>
    ('a queue_entry \<times> 'a tenant_state) option" where
  "drop_first [] strategy ts = None"
| "drop_first (p # ps) strategy ts =
    (if queues ts p \<noteq> [] then
       (case strategy of
          Oldest \<Rightarrow> Some (hd (queues ts p), ts\<lparr>queues := (queues ts)(p := tl (queues ts p))\<rparr>)
        | Newest \<Rightarrow> Some (last (queues ts p), ts\<lparr>queues := (queues ts)(p := butlast (queues ts p))\<rparr>))
     else drop_first ps strategy ts)"

definition drop_from_tenant :: "drop_strategy \<Rightarrow> priority \<Rightarrow> 'a tenant_state \<Rightarrow>
    ('a queue_entry \<times> 'a tenant_state) option" where
  "drop_from_tenant strategy incoming ts = drop_first (drop_order incoming) strategy ts"

definition enqueue_drop_with_handle :: "config \<Rightarrow> clock \<Rightarrow> drop_strategy \<Rightarrow> tenant_key \<Rightarrow> 'a task \<Rightarrow>
    'a sched \<Rightarrow> enqueue_with_handle_result \<times> 'a sched" where
  "enqueue_drop_with_handle C clk strategy t task s =
    (if \<not> is_accepting_enqueues (shared s) then (EnqueueClosed, s)
     else
       let i = shard_index s t;
           sh = shards s ! i;
           shard_was_empty = rings_empty sh;
           ts0 = tenant_entry C t sh (shared s);
           (purge_reason, ts1, g1) = maybe_purge_tenant_before_enqueue C clk ts0 (shared s);
           ran_full_purge = (purge_reason = Some FullPurge);
           tenant_full = (unat (max_per_tenant C) \<le> total_len ts1);
           global_full = (unat (max_global C) \<le> queue_len_estimate (stats g1))
       in case (if tenant_full \<or> global_full then drop_from_tenant strategy (prio task) ts1 else None) of
            None \<Rightarrow>
              if tenant_full \<or> global_full then
                let reason = (if tenant_full then TenantFull else GlobalFull)
                in (Rejected reason, put_tenant i t ts1 (record_reject reason g1) s)
              else
                let (reserved, ts2, g2) = reserve_or_purge C clk ran_full_purge ts1 g1
                in if \<not> reserved then (Rejected GlobalFull, put_tenant i t ts2 (record_reject GlobalFull g2) s)
                   else let (handle, s') = enqueue_accept i t task shard_was_empty ts2 g2 s
                        in (Enqueued handle, s')
          | Some (victim, ts2) \<Rightarrow>
              let g2 = clear_cancelled_marker (entry_id victim) g1;
                  (was_pending, g3) = take_pending (entry_id victim) g2
              in if was_pending then
                   let (handle, s') = enqueue_accept i t task shard_was_empty ts2 (record_policy_drop g3) s
                   in (Enqueued handle, s')
                 else
                   let (reserved, ts3, g4) = reserve_or_purge C clk ran_full_purge ts2 g3
                   in if \<not> reserved then (Rejected GlobalFull, put_tenant i t ts3 (record_reject GlobalFull g4) s)
                      else let (handle, s') = enqueue_accept i t task shard_was_empty ts3 g4 s
                           in (Enqueued handle, s'))"

subsection \<open>Effects on the tenant and the books\<close>

text \<open>
  \<open>purges\<close>: what purging does to a tenant and to the books, slots reserved included; the
  entries that leave are cancelled or expired.
\<close>

definition purges :: "clock \<Rightarrow> nat \<Rightarrow> nat set \<Rightarrow> 'a tenant_state \<Rightarrow> shared \<Rightarrow> 'a tenant_state \<Rightarrow> shared \<Rightarrow> bool" where
  "purges clk k R ts g ts' g' \<longleftrightarrow> shrinks R ts ts' \<and> tally k 0 R g g' \<and> ticks g \<le> ticks g' \<and>
     (\<forall>e \<in> set (tqueue ts). entry_id e \<in> R \<longrightarrow> gone clk g g' e)"

lemma purges_refl: "purges clk 0 {} ts g ts g"
  by (simp add: purges_def shrinks_refl)

lemma purge_purges:
  assumes ok: "q_ok g (tqueue ts)" and "purge_tenant_for_enqueue clk reason ts g = (st, ts', g')"
  shows "\<exists>R. purges clk 0 R ts g ts' g'"
proof -
  let ?R = "purged_ids (clk (ticks g)) (side_scan_budget reason) g ts"
  from purge_for_enqueue [OF assms] have R: "shrinks ?R ts ts'" "tally 0 0 ?R g g'" "ticks g' = Suc (ticks g)"
    by simp_all
  have "gone clk g g' e" if "e \<in> set (tqueue ts)" "entry_id e \<in> ?R" for e
  proof -
    from that(1) obtain p where "e \<in> set (queues ts p)" by (auto simp: tqueue_eq)
    from purged_ids_dead [OF ok this that(2)] R(3) show ?thesis by (simp add: dead_gone)
  qed
  with R show ?thesis unfolding purges_def by (metis le_SucI order_refl)
qed

lemma maybe_purge:
  assumes ok: "q_ok g (tqueue ts)" and "maybe_purge_tenant_before_enqueue C clk ts g = (r, ts', g')"
  shows "\<exists>R. purges clk 0 R ts g ts' g'"
proof -
  let ?ts = "ts\<lparr>enqueue_attempts_since_purge := saturating_add32 (enqueue_attempts_since_purge ts) 1\<rparr>"
  have ok': "q_ok g (tqueue ?ts)" using ok by (simp add: tqueue_eq)
  have sh: "purges clk k R ts g us h \<longleftrightarrow> purges clk k R ?ts g us h" for k R us h
    by (simp add: purges_def shrinks_def tqueue_eq)
  show ?thesis
  proof (cases r)
    case None
    then have "ts' = ?ts \<and> g' = g"
      using assms(2) by (auto simp: maybe_purge_tenant_before_enqueue_def Let_def split: if_splits prod.splits)
    then show ?thesis using purges_refl [of clk ?ts g] sh by auto
  next
    case (Some reason)
    then obtain st where "purge_tenant_for_enqueue clk reason ?ts g = (st, ts', g')"
      using assms(2) by (auto simp: maybe_purge_tenant_before_enqueue_def Let_def split: if_splits prod.splits)
    from purge_purges [OF ok' this] show ?thesis unfolding sh by blast
  qed
qed

lemma purges_reserve:
  assumes "purges clk 0 R ts g ts' g1" and "try_reserve_slot C g1 = (res, g')"
  shows "purges clk (if res then 1 else 0) R ts g ts' g'"
proof -
  from tally_reserve [OF assms(2)] assms(1) have "tally (if res then 1 else 0) 0 R g g'"
    unfolding purges_def using tally_trans by fastforce
  moreover have "ticks g' = ticks g1" using assms(2) by (auto simp: try_reserve_slot_def split: if_splits)
  ultimately show ?thesis using assms(1) by (simp add: purges_def gone_def)
qed

lemma reserve_or_purge:
  assumes ok: "q_ok g (tqueue ts)" and "reserve_or_purge C clk full ts g = (res, ts', g')"
  shows "\<exists>R. purges clk (if res then 1 else 0) R ts g ts' g'"
proof (cases "fst (try_reserve_slot C g) \<or> full")
  case True
  with assms(2) have "try_reserve_slot C g = (res, g')" and "ts' = ts"
    by (auto simp: reserve_or_purge_def split: prod.splits if_splits)
  then show ?thesis using purges_reserve [OF purges_refl] by blast
next
  case False
  then have g: "try_reserve_slot C g = (False, g)"
    by (auto simp: try_reserve_slot_def split: if_splits)
  obtain st ts1 g2 where p: "purge_tenant_for_enqueue clk FullPurge ts g = (st, ts1, g2)"
    by (metis prod_cases3)
  from purge_purges [OF ok p] obtain R where R: "purges clk 0 R ts g ts1 g2" by blast
  from False g p assms(2) have "ts' = ts1"
    and "if 0 < released_slots st then try_reserve_slot C g2 = (res, g') else res = False \<and> g' = g2"
    by (auto simp: reserve_or_purge_def split: prod.splits if_splits)
  with R purges_reserve [OF R, of C res g'] have "purges clk (if res then 1 else 0) R ts g ts' g'"
    by (cases "0 < released_slots st") auto
  then show ?thesis ..
qed

lemma try_reserve_bound: "try_reserve_slot C g = (True, g') \<Longrightarrow> slots g' \<le> unat (max_global C)"
  by (auto simp: try_reserve_slot_def split: if_splits)

lemma reserve_or_purge_bound:
  "reserve_or_purge C clk full ts g = (True, ts', g') \<Longrightarrow> slots g' \<le> unat (max_global C)"
  by (auto simp: reserve_or_purge_def dest: try_reserve_bound split: prod.splits if_splits)

lemma drop_order_ge: "p \<in> set (drop_order incoming) \<longleftrightarrow> incoming \<le> p"
  by (cases incoming; cases p) (simp_all add: less_eq_priority_def)

text \<open>
  The victim: the lowest priority that has an entry, no higher than the incoming one, and the
  front or the back of its queue.
\<close>

lemma drop_from_tenant_Some:
  assumes "drop_from_tenant strategy incoming ts = Some (e, ts')"
  shows "\<exists>p pre post. incoming \<le> p \<and> (\<forall>q. p < q \<longrightarrow> queues ts q = []) \<and> queues ts p = pre @ e # post \<and>
    (case strategy of Oldest \<Rightarrow> pre | Newest \<Rightarrow> post) = [] \<and> ts' = ts\<lparr>queues := (queues ts)(p := pre @ post)\<rparr>"
proof -
  have pick: "\<exists>pre post. q = pre @ x # post \<and> (case strategy of Oldest \<Rightarrow> pre | Newest \<Rightarrow> post) = [] \<and> q' = pre @ post"
    if "q \<noteq> []" "x = (case strategy of Oldest \<Rightarrow> hd q | Newest \<Rightarrow> last q)"
      "q' = (case strategy of Oldest \<Rightarrow> tl q | Newest \<Rightarrow> butlast q)" for x :: "'a queue_entry" and q q'
    using that by (cases strategy; cases q rule: rev_cases; cases q) auto
  have ex_priority: "(\<exists>p. P p) \<longleftrightarrow> P High \<or> P Normal \<or> P Low" for P
    by (metis priority.exhaust)
  have lower: "(\<forall>q. p < q \<longrightarrow> P q) \<longleftrightarrow> (p = High \<longrightarrow> P Normal \<and> P Low) \<and> (p = Normal \<longrightarrow> P Low)" for p P
    by (cases p) (auto simp: less_priority_def all_priority)
  have "\<exists>p. incoming \<le> p \<and> (\<forall>q. p < q \<longrightarrow> queues ts q = []) \<and> queues ts p \<noteq> [] \<and>
      e = (case strategy of Oldest \<Rightarrow> hd (queues ts p) | Newest \<Rightarrow> last (queues ts p)) \<and>
      ts' = ts\<lparr>queues := (queues ts)(p := (case strategy of Oldest \<Rightarrow> tl (queues ts p) | Newest \<Rightarrow> butlast (queues ts p)))\<rparr>"
    using assms unfolding lower ex_priority
    by (cases incoming) (auto simp: drop_from_tenant_def less_eq_priority_def split: if_splits drop_strategy.splits)
  with pick show ?thesis by metis
qed

lemma drop_first_None: "drop_first ps strategy ts = None \<longleftrightarrow> (\<forall>p \<in> set ps. queues ts p = [])"
  by (induction ps) (auto split: drop_strategy.splits)

lemma drop_from_tenant_None:
  "drop_from_tenant strategy incoming ts = None \<longleftrightarrow> (\<forall>p. incoming \<le> p \<longrightarrow> queues ts p = [])"
  by (auto simp: drop_from_tenant_def drop_first_None drop_order_ge)

lemma drop_effect:
  assumes ok: "q_ok g (tqueue ts)" and "drop_from_tenant strategy incoming ts = Some (e, ts')"
  shows "shrinks {entry_id e} ts ts' \<and> total_len ts = Suc (total_len ts') \<and> (\<exists>p. e \<in> set (queues ts p))"
proof -
  from drop_from_tenant_Some [OF assms(2)] obtain p pre post
    where q: "queues ts p = pre @ e # post" and ts': "ts' = ts\<lparr>queues := (queues ts)(p := pre @ post)\<rparr>" by blast
  then have mem: "e \<in> set (queues ts p)" by simp
  have d: "distinct (ids (queues ts p))" using q_ok_queue [OF ok] by (simp add: q_ok_def)
  have "queues ts' r = filter (\<lambda>x. entry_id x \<notin> {entry_id e}) (queues ts r)" for r
  proof (cases "r = p")
    case True
    with d show ?thesis by (simp add: ts' q filter_other_key)
  next
    case False
    then have "entry_id e \<notin> set (ids (queues ts r))" using q_ok_disjoint [OF ok, of r p] mem by auto
    with False show ?thesis by (simp add: ts' filter_other_key)
  qed
  moreover have "entry_id e \<in> set (ids (tqueue ts))" using mem set_queue_tqueue by fastforce
  ultimately have "shrinks {entry_id e} ts ts'" by (simp add: shrinks_def) (simp add: ts')
  moreover have "total_len ts = Suc (total_len ts')" using q by (cases p) (simp_all add: ts' total_len_eq)
  ultimately show ?thesis using mem by blast
qed

lemma drop_books_live:
  assumes "q_ok g [e]" and "entry_id e \<in> pending_ids g"
  shows "tally 1 0 {entry_id e} g
    (record_policy_drop (snd (take_pending (entry_id e) (clear_cancelled_marker (entry_id e) g))))"
proof -
  have "pending_ids g \<inter> {entry_id e} = {entry_id e}" using assms(2) by auto
  moreover have "0 < card (pending_ids g)" if "finite (pending_ids g)"
    using assms(2) that card_gt_0_iff by blast
  ultimately show ?thesis
    by (auto simp: tally_def same_frame_def record_policy_drop_def count_up_def settled_def
        clear_cancelled_marker_def saturating_add_def meters_def intro: bumped_none)
qed

lemma drop_books_dead:
  assumes "entry_id e \<notin> pending_ids g"
  shows "tally 0 0 {entry_id e} g (snd (take_pending (entry_id e) (clear_cancelled_marker (entry_id e) g)))"
  using assms by (simp add: tally_def same_frame_def settled_def clear_cancelled_marker_def meters_def bumped_none)

end
