(* ===== verification/Invariant.thy ===== *)
theory Invariant
  imports Enqueue
begin

text \<open>
  The invariant of the scheduler, in four parts: every tenant lives in the shard its key
  selects; within a shard a non-empty queue is active, an active tenant is in the ring of
  its priority, and no tenant is over its limit; a shard is in the active shards exactly
  when one of its rings is not empty; and every queued entry is either pending or
  cancelled, with no id in two places and no stray id. \<open>books\<close> adds the counters.
\<close>

definition sched_queue :: "'a sched \<Rightarrow> tenant_key \<Rightarrow> priority \<Rightarrow> 'a queue_entry list" where
  "sched_queue s t p = squeue (shards s ! shard_index s t) t p"

definition placed :: "'a sched \<Rightarrow> bool" where
  "placed s \<longleftrightarrow> shards s \<noteq> [] \<and> length (shard_active s) = length (shards s) \<and>
     (\<forall>i < length (shards s). \<forall>t \<in> dom (tenants (shards s ! i)). shard_index s t = i)"

definition shard_inv :: "config \<Rightarrow> 'a shard \<Rightarrow> bool" where
  "shard_inv C sh \<longleftrightarrow>
     (\<forall>p. ring_inv (active_rings sh p)) \<and>
     (\<forall>p. set (ring_items (active_rings sh p)) \<subseteq> dom (tenants sh)) \<and>
     (\<forall>t ts p. tenants sh t = Some ts \<longrightarrow>
        (queues ts p \<noteq> [] \<longrightarrow> active ts p) \<and>
        (active ts p \<longrightarrow> t \<in> set (ring_items (active_rings sh p)))) \<and>
     (\<forall>t ts. tenants sh t = Some ts \<longrightarrow> total_len ts \<le> unat (max_per_tenant C))"

definition active_inv :: "'a sched \<Rightarrow> bool" where
  "active_inv s \<longleftrightarrow>
     ring_inv (active_shards s) \<and> distinct (ring_items (active_shards s)) \<and>
     set (ring_items (active_shards s)) = {i. i < length (shards s) \<and> \<not> rings_empty (shards s ! i)} \<and>
     (\<forall>i < length (shards s). shard_active s ! i = (\<not> rings_empty (shards s ! i)))"

definition ledger :: "'a sched \<Rightarrow> bool" where
  "ledger s \<longleftrightarrow>
     (\<forall>t p. distinct (ids (sched_queue s t p))) \<and>
     (\<exists>own. \<forall>t p. \<forall>e \<in> set (sched_queue s t p). own (entry_id e) = (t, p)) \<and>
     (\<forall>t p. \<forall>e \<in> set (sched_queue s t p).
        (entry_id e \<in> pending_ids (shared s)) \<noteq> (entry_id e \<in> cancelled_ids (shared s))) \<and>
     pending_ids (shared s) \<union> cancelled_ids (shared s) \<subseteq> (\<Union>t p. set (ids (sched_queue s t p)))"

definition sched_ok :: "config \<Rightarrow> 'a sched \<Rightarrow> bool" where
  "sched_ok C s \<longleftrightarrow> placed s \<and> (\<forall>i < length (shards s). shard_inv C (shards s ! i)) \<and>
     active_inv s \<and> ledger s"

text \<open>The meters show \<open>d\<close> samples taken since the start.\<close>

definition sampled :: "nat \<Rightarrow> shared \<Rightarrow> bool" where
  "sampled d g \<longleftrightarrow> (\<exists>vs. length vs = d \<and> (\<forall>v \<in> set vs. v \<le> u64_max) \<and>
     meters g = fold meter vs (0, 0, replicate (length QUEUE_TIME_BUCKETS_NS) 0))"

lemma sampled_metered:
  assumes "sampled d g" and "metered e g g'"
  shows "sampled (d + e) g'"
proof -
  from assms obtain vs ws where "length vs = d" "\<forall>v \<in> set vs. v \<le> u64_max"
    "meters g = fold meter vs (0, 0, replicate (length QUEUE_TIME_BUCKETS_NS) 0)"
    "length ws = e" "\<forall>v \<in> set ws. v \<le> u64_max" "meters g' = fold meter ws (meters g)"
    unfolding sampled_def metered_def by blast
  then show ?thesis unfolding sampled_def by (intro exI [of _ "vs @ ws"]) auto
qed

lemma sampled_same: "sampled d g \<Longrightarrow> meters g' = meters g \<Longrightarrow> sampled d g'"
  by (simp add: sampled_def)

text \<open>
  \<open>books C k a d c g\<close>: \<open>a\<close> tasks were accepted, \<open>d\<close> were dequeued and \<open>c\<close> cancelled so far;
  \<open>k\<close> slots are reserved beyond the pending tasks.
\<close>

definition books :: "config \<Rightarrow> nat \<Rightarrow> nat \<Rightarrow> nat \<Rightarrow> nat \<Rightarrow> shared \<Rightarrow> bool" where
  "books C k a d c g \<longleftrightarrow>
     finite (pending_ids g) \<and> slots g = card (pending_ids g) + k \<and> slots g \<le> unat (max_global C) \<and>
     a \<le> u64_max \<and> next_task_id g = a \<and> enqueued (stats g) = a \<and> dequeued (stats g) = d \<and>
     settled g + card (pending_ids g) + c = a \<and>
     (\<forall>i \<in> pending_ids g \<union> cancelled_ids g. i \<le> a) \<and> shutdown_state g \<le> 2 \<and> sampled d g"

lemma sched_ok_shared:
  assumes "sched_ok C s" and "pending_ids g = pending_ids (shared s)" "cancelled_ids g = cancelled_ids (shared s)"
  shows "sched_ok C (s\<lparr>shared := g\<rparr>)"
  using assms by (simp add: sched_ok_def placed_def active_inv_def ledger_def sched_queue_def shard_index_def)

subsection \<open>The ledger\<close>

lemma ledger_q_ok: "ledger s \<Longrightarrow> q_ok (shared s) (sched_queue s t p)"
  by (simp add: ledger_def q_ok_def)

lemma ledger_disjoint:
  assumes "ledger s" and "e \<in> set (sched_queue s t p)" and "e' \<in> set (sched_queue s t' p')"
    and "entry_id e = entry_id e'"
  shows "t = t' \<and> p = p' \<and> e = e'"
proof -
  from assms(1) obtain own where "\<forall>t p. \<forall>e \<in> set (sched_queue s t p). own (entry_id e) = (t, p)"
    unfolding ledger_def by blast
  with assms(2-4) have "(t, p) = (t', p')" by metis
  then have tp: "t = t'" "p = p'" by simp_all
  moreover have "distinct (ids (sched_queue s t p))" using assms(1) unfolding ledger_def by blast
  then have "inj_on entry_id (set (sched_queue s t p))" by (simp add: distinct_map)
  ultimately show ?thesis using assms(2-4) by (auto dest: inj_onD)
qed

lemma ledger_tenant_ok:
  assumes "ledger s" and "\<And>p. queues ts p = sched_queue s t p"
  shows "q_ok (shared s) (tqueue ts)"
proof -
  have dis: "set (ids (queues ts p)) \<inter> set (ids (queues ts p')) = {}" if "p \<noteq> p'" for p p'
    using ledger_disjoint [OF assms(1)] that by (fastforce simp: assms(2))
  then show ?thesis
    using ledger_q_ok [OF assms(1)] by (simp add: tqueue_eq q_ok_append assms(2)) blast
qed

lemma ledger_take_out:
  assumes "ledger s" and q: "\<And>t p. sched_queue s' t p = filter (\<lambda>e. entry_id e \<notin> R) (sched_queue s t p)"
    and pc: "pending_ids (shared s') = pending_ids (shared s) - R"
      "cancelled_ids (shared s') = cancelled_ids (shared s) - R"
  shows "ledger s'"
proof -
  from assms(1) obtain own where own: "\<forall>t p. \<forall>e \<in> set (sched_queue s t p). own (entry_id e) = (t, p)"
    unfolding ledger_def by blast
  have "distinct (ids (sched_queue s' t p))" for t p
    using assms(1) unfolding q ledger_def by (blast intro: distinct_map_filter_le)
  moreover have "\<forall>t p. \<forall>e \<in> set (sched_queue s' t p). own (entry_id e) = (t, p)"
    using own by (simp add: q)
  moreover have "(entry_id e \<in> pending_ids (shared s')) \<noteq> (entry_id e \<in> cancelled_ids (shared s'))"
    if "e \<in> set (sched_queue s' t p)" for e t p
  proof -
    from that have "e \<in> set (sched_queue s t p)" "entry_id e \<notin> R" by (simp_all add: q)
    with assms(1) show ?thesis unfolding ledger_def pc by blast
  qed
  moreover have "pending_ids (shared s') \<union> cancelled_ids (shared s') \<subseteq> (\<Union>t p. set (ids (sched_queue s' t p)))"
  proof
    fix i assume "i \<in> pending_ids (shared s') \<union> cancelled_ids (shared s')"
    then have "i \<in> pending_ids (shared s) \<union> cancelled_ids (shared s)" and "i \<notin> R" by (auto simp: pc)
    with assms(1) have "i \<in> (\<Union>t p. set (ids (sched_queue s t p)))"
      unfolding ledger_def by blast
    then obtain t p e where "e \<in> set (sched_queue s t p)" "entry_id e = i"
      by (auto simp only: UN_iff set_map image_iff)
    with \<open>i \<notin> R\<close> have "i \<in> set (ids (sched_queue s' t p))" by (auto simp: q)
    then show "i \<in> (\<Union>t p. set (ids (sched_queue s' t p)))" by blast
  qed
  ultimately show ?thesis unfolding ledger_def by blast
qed

lemma ledger_push:
  assumes "ledger s" and h: "h \<notin> pending_ids (shared s) \<union> cancelled_ids (shared s)"
    and q: "\<And>t' p'. sched_queue s' t' p' = sched_queue s t' p' @
      (if t' = t \<and> p' = p then [\<lparr>entry_id = h, entry_task = x\<rparr>] else [])"
    and pc: "pending_ids (shared s') = insert h (pending_ids (shared s))"
      "cancelled_ids (shared s') = cancelled_ids (shared s)"
  shows "ledger s'"
proof -
  from assms(1) obtain own where own: "\<forall>t p. \<forall>e \<in> set (sched_queue s t p). own (entry_id e) = (t, p)"
    unfolding ledger_def by blast
  have new: "entry_id e \<noteq> h" if "e \<in> set (sched_queue s t' p')" for e t' p'
    using assms(1) h that unfolding ledger_def by blast
  have "distinct (ids (sched_queue s' t' p'))" for t' p'
    using assms(1) new unfolding q ledger_def by (auto simp: image_iff)
  moreover have "\<forall>t' p'. \<forall>e \<in> set (sched_queue s' t' p'). (own(h := (t, p))) (entry_id e) = (t', p')"
  proof (intro allI ballI)
    fix t' p' e assume "e \<in> set (sched_queue s' t' p')"
    then consider "e \<in> set (sched_queue s t' p')" | "entry_id e = h" "t' = t" "p' = p"
      by (auto simp: q split: if_splits)
    then show "(own(h := (t, p))) (entry_id e) = (t', p')"
      by cases (use own new in auto)
  qed
  moreover have "(entry_id e \<in> pending_ids (shared s')) \<noteq> (entry_id e \<in> cancelled_ids (shared s'))"
    if "e \<in> set (sched_queue s' t' p')" for e t' p'
  proof (cases "e \<in> set (sched_queue s t' p')")
    case True
    with assms(1) new [OF True] show ?thesis unfolding ledger_def pc by blast
  next
    case False
    with that have "entry_id e = h" by (auto simp: q split: if_splits)
    with h show ?thesis by (simp add: pc)
  qed
  moreover have "pending_ids (shared s') \<union> cancelled_ids (shared s') \<subseteq> (\<Union>t p. set (ids (sched_queue s' t p)))"
  proof
    fix i assume "i \<in> pending_ids (shared s') \<union> cancelled_ids (shared s')"
    then consider "i = h" | "i \<in> pending_ids (shared s) \<union> cancelled_ids (shared s)" by (auto simp: pc)
    then show "i \<in> (\<Union>t p. set (ids (sched_queue s' t p)))"
    proof cases
      case 1
      then have "i \<in> set (ids (sched_queue s' t p))" by (simp add: q)
      then show ?thesis by blast
    next
      case 2
      with assms(1) obtain t' p' where "i \<in> set (ids (sched_queue s t' p'))"
        unfolding ledger_def by blast
      then have "i \<in> set (ids (sched_queue s' t' p'))" by (auto simp: q)
      then show ?thesis by blast
    qed
  qed
  ultimately show ?thesis unfolding ledger_def by blast
qed

subsection \<open>Writing a tenant back\<close>

lemma shard_index_less: "placed s \<Longrightarrow> shard_index s t < length (shards s)"
  by (simp add: placed_def shard_index_def)

lemma shard_index_cong: "length (shards s') = length (shards s) \<Longrightarrow> shard_index s' t = shard_index s t"
  by (simp add: shard_index_def)

lemma placed_cong:
  assumes "placed s" and "length (shards s') = length (shards s)"
    and "length (shard_active s') = length (shard_active s)"
    and "\<And>j. j < length (shards s) \<Longrightarrow> dom (tenants (shards s' ! j)) = dom (tenants (shards s ! j))"
  shows "placed s'"
  using assms unfolding placed_def shard_index_def by (simp flip: length_greater_0_conv)

lemma put_tenant_simps [simp]:
  "shared (put_tenant i t ts g s) = g"
  "length (shards (put_tenant i t ts g s)) = length (shards s)"
  "active_shards (put_tenant i t ts g s) = active_shards s"
  "shard_active (put_tenant i t ts g s) = shard_active s"
  "shard_index (put_tenant i t ts g s) u = shard_index s u"
  by (simp_all add: put_tenant_def Let_def shard_index_def)

lemma put_tenant_shard:
  "i < length (shards s) \<Longrightarrow> shards (put_tenant i t ts g s) ! j =
    (if j = i then (shards s ! i)\<lparr>tenants := (tenants (shards s ! i))(t \<mapsto> ts)\<rparr> else shards s ! j)"
  by (simp add: put_tenant_def Let_def)

lemma rings_empty_tenants [simp]: "rings_empty (sh\<lparr>tenants := f\<rparr>) = rings_empty sh"
  by (simp add: rings_empty_def)

lemma rings_empty_items:
  "(\<And>p. ring_inv (active_rings sh p)) \<Longrightarrow> rings_empty sh \<longleftrightarrow> (\<forall>p. ring_items (active_rings sh p) = [])"
  by (simp add: rings_empty_def list_all_iff)

lemma put_tenant_queue:
  assumes "placed s" and "i = shard_index s t"
  shows "sched_queue (put_tenant i t ts g s) u p = (if u = t then queues ts p else sched_queue s u p)"
  using assms shard_index_less [OF assms(1), of t]
  by (simp add: sched_queue_def put_tenant_shard squeue_def)

lemma tenant_entry_queue: "queues (tenant_entry C t (shards s ! shard_index s t) g) p = sched_queue s t p"
  by (simp add: tenant_entry_def sched_queue_def squeue_def split: option.split)

lemma tenant_entry_ok: "ledger s \<Longrightarrow> q_ok (shared s) (tqueue (tenant_entry C t (shards s ! shard_index s t) g))"
  by (rule ledger_tenant_ok) (simp_all add: tenant_entry_queue)

lemma tenant_entry_active:
  assumes "shard_inv C sh"
  shows "queues (tenant_entry C t sh g) p \<noteq> [] \<Longrightarrow> active (tenant_entry C t sh g) p"
    and "active (tenant_entry C t sh g) p \<Longrightarrow> t \<in> set (ring_items (active_rings sh p))"
    and "total_len (tenant_entry C t sh g) \<le> unat (max_per_tenant C)"
  using assms by (auto simp: tenant_entry_def shard_inv_def split: option.splits)

lemma shard_inv_put:
  assumes "shard_inv C sh" and "shrinks R (tenant_entry C t sh g) ts"
  shows "shard_inv C (sh\<lparr>tenants := (tenants sh)(t \<mapsto> ts)\<rparr>)"
proof -
  let ?ts = "tenant_entry C t sh g"
  note e = tenant_entry_active [OF assms(1), of t g]
  have "queues ts p \<noteq> [] \<Longrightarrow> active ts p" for p
  proof -
    assume a: "queues ts p \<noteq> []"
    then have "queues ?ts p \<noteq> []" using assms(2) unfolding shrinks_def by (metis filter.simps(1))
    then show "active ts p" using e(1) a assms(2) unfolding shrinks_def by blast
  qed
  moreover have "active ts p \<Longrightarrow> t \<in> set (ring_items (active_rings sh p))" for p
    using e(2) assms(2) unfolding shrinks_def by blast
  moreover have "total_len ts \<le> unat (max_per_tenant C)"
    using shrinks_total_len [OF assms(2)] e(3) by (rule order_trans)
  ultimately show ?thesis
    using assms(1) unfolding shard_inv_def by (auto split: if_splits)
qed

lemma put_tenant_ok:
  assumes ok: "sched_ok C s" and i: "i = shard_index s t"
    and sh: "shrinks R (tenant_entry C t (shards s ! i) g0) ts"
    and pc: "pending_ids g = pending_ids (shared s) - R" "cancelled_ids g = cancelled_ids (shared s) - R"
  shows "sched_ok C (put_tenant i t ts g s)"
proof -
  let ?s = "put_tenant i t ts g s"
  from ok have pl: "placed s" and si: "\<And>j. j < length (shards s) \<Longrightarrow> shard_inv C (shards s ! j)"
    and ac: "active_inv s" and le: "ledger s" by (simp_all add: sched_ok_def)
  have il: "i < length (shards s)" using shard_index_less [OF pl] i by simp
  note sh_j = put_tenant_shard [OF il, of t ts g]
  have "placed ?s"
    using pl i [symmetric] unfolding placed_def
    by (auto simp: sh_j simp flip: length_greater_0_conv split: if_splits)
  moreover have "\<forall>j < length (shards ?s). shard_inv C (shards ?s ! j)"
    using si shard_inv_put [OF si [OF il] sh] by (simp add: sh_j)
  moreover have "rings_empty (shards ?s ! j) = rings_empty (shards s ! j)" for j
    by (simp add: sh_j)
  then have "active_inv ?s" using ac by (simp add: active_inv_def)
  moreover have "ledger ?s"
  proof (rule ledger_take_out [OF le])
    fix u p
    have R: "R \<subseteq> set (ids (tqueue (tenant_entry C t (shards s ! i) g0)))"
      using sh by (simp add: shrinks_def)
    have out: "entry_id e \<notin> R" if "e \<in> set (sched_queue s u p)" "u \<noteq> t" for e
    proof
      assume "entry_id e \<in> R"
      with R obtain e' p' where "e' \<in> set (sched_queue s t p')" "entry_id e' = entry_id e"
        by (fastforce simp: tqueue_eq tenant_entry_queue i)
      with ledger_disjoint [OF le that(1)] that(2) show False by metis
    qed
    show "sched_queue ?s u p = filter (\<lambda>e. entry_id e \<notin> R) (sched_queue s u p)"
    proof (cases "u = t")
      case True
      with sh show ?thesis
        using tenant_entry_queue [of C t s g0 p, folded i] by (simp add: put_tenant_queue [OF pl i] shrinks_def)
    next
      case False
      with out show ?thesis by (simp add: put_tenant_queue [OF pl i] filter_id_conv)
    qed
  qed (simp_all add: pc)
  ultimately show ?thesis by (simp add: sched_ok_def)
qed

subsection \<open>Accepting a task\<close>

lemma enqueue_accept_put:
  "i < length (shards s) \<Longrightarrow> enqueue_accept i t task e ts g (put_tenant i t ts g' s) = enqueue_accept i t task e ts g s"
  by (simp add: enqueue_accept_def put_tenant_def Let_def split_def)

text \<open>What \<open>enqueue_accept\<close> leaves behind, before the shard is activated and the signal raised.\<close>

definition pushed_tenant :: "nat \<Rightarrow> 'a task \<Rightarrow> 'a tenant_state \<Rightarrow> 'a tenant_state" where
  "pushed_tenant h task ts =
    (let p = prio task
     in ts\<lparr>queues := (queues ts)(p := queues ts p @ [\<lparr>entry_id = h, entry_task = task\<rparr>]),
           active := (active ts)(p := active ts p \<or> queues ts p = [])\<rparr>)"

definition pushed_shard :: "tenant_key \<Rightarrow> nat \<Rightarrow> 'a task \<Rightarrow> 'a tenant_state \<Rightarrow> 'a shard \<Rightarrow> 'a shard" where
  "pushed_shard t h task ts sh =
    (let p = prio task
     in sh\<lparr>tenants := (tenants sh)(t \<mapsto> pushed_tenant h task ts),
           active_rings := (if queues ts p = [] \<and> \<not> active ts p
             then (active_rings sh)(p := ring_push_back (active_rings sh p) t) else active_rings sh)\<rparr>)"

lemma enqueue_accept_eq:
  assumes "i < length (shards s)" and "queues ts (prio task) \<noteq> [] \<Longrightarrow> active ts (prio task)"
    and "enqueue_accept i t task e ts g s = (h, s')"
  shows "handle_id h = wrapping_inc (next_task_id g)"
    and "shards s' = (shards s)[i := pushed_shard t (handle_id h) task ts (shards s ! i)]"
    and "pending_ids (shared s') = insert (handle_id h) (pending_ids g)"
    and "cancelled_ids (shared s') = cancelled_ids g"
    and "next_task_id (shared s') = handle_id h"
    and "stats (shared s') = enqueued_update (\<lambda>c. saturating_add c 1) (stats g)"
    and "shutdown_state (shared s') = shutdown_state g"
    and "shard_active s' = (if e then (shard_active s)[i := True] else shard_active s)"
    and "active_shards s' = (if e \<and> \<not> shard_active s ! i then ring_push_back (active_shards s) i else active_shards s)"
proof -
  have ts2: "(if queues ts (prio task) = [] \<and> \<not> active ts (prio task)
      then ts\<lparr>queues := q, active := (active ts)(prio task := True)\<rparr> else ts\<lparr>queues := q\<rparr>) =
    ts\<lparr>queues := q, active := (active ts)(prio task := active ts (prio task) \<or> queues ts (prio task) = [])\<rparr>" for q
    using assms(2) by (auto simp: fun_upd_idem)
  have idem: "shard_active s ! i \<Longrightarrow> (shard_active s)[i := True] = shard_active s"
    using list_update_id [of "shard_active s" i] by simp
  show "handle_id h = wrapping_inc (next_task_id g)"
    "pending_ids (shared s') = insert (handle_id h) (pending_ids g)"
    "cancelled_ids (shared s') = cancelled_ids g"
    "next_task_id (shared s') = handle_id h"
    "stats (shared s') = enqueued_update (\<lambda>c. saturating_add c 1) (stats g)"
    "shutdown_state (shared s') = shutdown_state g"
    using assms(3)
    by (auto simp: enqueue_accept_def Let_def next_handle_def register_pending_def activate_shard_def
        count_up_def frame_simps put_tenant_def split: if_splits)
  show "shard_active s' = (if e then (shard_active s)[i := True] else shard_active s)"
    "active_shards s' = (if e \<and> \<not> shard_active s ! i then ring_push_back (active_shards s) i else active_shards s)"
    using assms(3)
    by (auto simp: enqueue_accept_def Let_def activate_shard_def split_def idem split: if_splits)
  show "shards s' = (shards s)[i := pushed_shard t (handle_id h) task ts (shards s ! i)]"
    using assms(1,3) ts2
    by (auto simp: enqueue_accept_def Let_def activate_shard_def put_tenant_def pushed_shard_def
        pushed_tenant_def next_handle_def register_pending_def count_up_def split: if_splits)
qed

lemma enqueue_accept_ticks:
  "enqueue_accept i t task e ts g s = (h, s') \<Longrightarrow> ticks (shared s') = ticks g"
  by (auto simp: enqueue_accept_def Let_def next_handle_def register_pending_def activate_shard_def
      count_up_def frame_simps put_tenant_def split: if_splits)

lemma enqueue_accept_signal:
  "enqueue_accept i t task e ts g s = (h, s') \<Longrightarrow>
    signal_seq (shared s') = (if queues ts (prio task) = [] then wrapping_inc (signal_seq g) else signal_seq g)"
  by (auto simp: enqueue_accept_def Let_def next_handle_def register_pending_def activate_shard_def
      count_up_def frame_simps put_tenant_def split: if_splits)

lemma pushed_shard_inv:
  assumes inv: "shard_inv C sh" and t: "tenants sh t = Some ts" and len: "total_len ts < unat (max_per_tenant C)"
  shows "shard_inv C (pushed_shard t h task ts sh)" and "\<not> rings_empty (pushed_shard t h task ts sh)"
proof -
  let ?p = "prio task" and ?sh = "pushed_shard t h task ts sh"
  let ?push = "queues ts ?p = [] \<and> \<not> active ts ?p"
  from inv have ring: "ring_inv (active_rings sh p)" for p by (simp add: shard_inv_def)
  from inv t have act: "queues ts p \<noteq> [] \<Longrightarrow> active ts p" "active ts p \<Longrightarrow> t \<in> set (ring_items (active_rings sh p))" for p
    by (auto simp: shard_inv_def)
  have items: "ring_items (active_rings ?sh p) =
      ring_items (active_rings sh p) @ (if p = ?p \<and> ?push then [t] else [])" for p
    using ring by (simp add: pushed_shard_def Let_def)
  have inv': "ring_inv (active_rings ?sh p)" for p
    using ring by (simp add: pushed_shard_def Let_def)
  have "total_len (pushed_tenant h task ts) = Suc (total_len ts)"
    by (cases ?p) (simp_all add: pushed_tenant_def Let_def total_len_eq)
  then show "shard_inv C ?sh"
    using inv inv' items len act t unfolding shard_inv_def
    by (auto simp: pushed_shard_def pushed_tenant_def Let_def split: if_splits)
  have "t \<in> set (ring_items (active_rings ?sh ?p))"
    using items act by auto
  then show "\<not> rings_empty ?sh"
    using inv' rings_empty_items [of ?sh] by (metis empty_iff empty_set)
qed

lemma enqueue_accept_ok:
  assumes ok: "sched_ok C s" and i: "shard_index s t = i"
    and t: "tenants (shards s ! i) t = Some ts" and e: "e = rings_empty (shards s ! i)"
    and len: "total_len ts < unat (max_per_tenant C)"
    and pc: "pending_ids g = pending_ids (shared s)" "cancelled_ids g = cancelled_ids (shared s)"
    and fresh: "wrapping_inc (next_task_id g) \<notin> pending_ids g \<union> cancelled_ids g"
    and acc: "enqueue_accept i t task e ts g s = (h, s')"
  shows "sched_ok C s'"
proof -
  from ok have pl: "placed s" and si: "\<And>j. j < length (shards s) \<Longrightarrow> shard_inv C (shards s ! j)"
    and ac: "active_inv s" and le: "ledger s" by (simp_all add: sched_ok_def)
  have il: "i < length (shards s)" using shard_index_less [OF pl] i by blast
  have act: "queues ts (prio task) \<noteq> [] \<Longrightarrow> active ts (prio task)"
    using si [OF il] t by (auto simp: shard_inv_def)
  note eq = enqueue_accept_eq [OF il act acc]
  let ?sh = "pushed_shard t (handle_id h) task ts (shards s ! i)"
  have sh_j: "shards s' ! j = (if j = i then ?sh else shards s ! j)" for j
    using il by (simp add: eq(2))
  have len': "length (shards s') = length (shards s)" by (simp add: eq(2))
  then have ix: "shard_index s' u = shard_index s u" for u by (rule shard_index_cong)
  have "length (shard_active s') = length (shard_active s)" by (simp add: eq(8))
  then have "placed s'"
    using t by (intro placed_cong [OF pl len']) (auto simp: sh_j pushed_shard_def Let_def)
  moreover have "\<forall>j < length (shards s'). shard_inv C (shards s' ! j)"
    using si pushed_shard_inv(1) [OF si [OF il] t len] by (simp add: sh_j len')
  moreover have "active_inv s'"
  proof (cases e)
    case True
    with ac e il have "\<not> shard_active s ! i" "i \<notin> set (ring_items (active_shards s))" "ring_inv (active_shards s)"
      by (auto simp: active_inv_def)
    with ac il True pl pushed_shard_inv(2) [OF si [OF il] t len] show ?thesis
      by (auto simp: active_inv_def eq(8,9) len' sh_j nth_list_update placed_def)
  next
    case False
    with ac e pushed_shard_inv(2) [OF si [OF il] t len] show ?thesis
      by (auto simp: active_inv_def eq(8,9) len' sh_j)
  qed
  moreover have "ledger s'"
  proof (rule ledger_push [OF le, of "handle_id h" s' t "prio task" task])
    fix u p
    show "sched_queue s' u p = sched_queue s u p @
        (if u = t \<and> p = prio task then [\<lparr>entry_id = handle_id h, entry_task = task\<rparr>] else [])"
      using t i by (auto simp: sched_queue_def ix sh_j squeue_def pushed_shard_def pushed_tenant_def Let_def)
  qed (use fresh pc eq(1,3,4) in simp_all)
  ultimately show ?thesis by (simp add: sched_ok_def)
qed

lemma books_ids_le: "books C k a d c g \<Longrightarrow> i \<in> pending_ids g \<union> cancelled_ids g \<Longrightarrow> i \<le> a"
  unfolding books_def by blast

lemma books_fresh:
  assumes "books C k a d c g" and "a < u64_max"
  shows "wrapping_inc (next_task_id g) \<notin> pending_ids g \<union> cancelled_ids g"
  using books_ids_le [OF assms(1), of "Suc a"] assms by (auto simp: books_def wrapping_inc_exact)

lemma enqueue_accept_books:
  assumes bk: "books C 1 a d c g" and a: "a < u64_max"
    and il: "i < length (shards s)" and act: "queues ts (prio task) \<noteq> [] \<Longrightarrow> active ts (prio task)"
    and acc: "enqueue_accept i t task e ts g s = (h, s')"
  shows "books C 0 (Suc a) d c (shared s')" and "h = TaskHandle (Suc a)"
proof -
  note eq = enqueue_accept_eq [OF il act acc]
  have h: "handle_id h = Suc a" using bk a by (simp add: eq(1) books_def wrapping_inc_exact)
  then show "h = TaskHandle (Suc a)" by (cases h) simp
  have "Suc a \<notin> pending_ids g"
    using books_ids_le [OF bk, of "Suc a"] by auto
  then show "books C 0 (Suc a) d c (shared s')"
    using bk a by (auto simp: books_def eq h settled_def saturating_add_exact meters_def
        intro: le_SucI elim: sampled_same)
qed

lemma books_tally:
  assumes bk: "books C k a d c g" and ta: "tally l e R g g'" and b: "slots g' \<le> unat (max_global C)"
  shows "books C (k + l) a (d + e) c g'"
proof -
  let ?P = "pending_ids g"
  from bk have f: "finite ?P" and s: "slots g = card ?P + k" and le: "card ?P \<le> u64_max"
    and c: "settled g + card ?P \<le> u64_max"
    by (auto simp: books_def)
  note cd = card_diff_take_out [OF f, of R]
  from ta f s le c have "slots g' + card (?P \<inter> R) = slots g + l"
    and "settled g' = settled g + card (?P \<inter> R)" "dequeued (stats g') = dequeued (stats g) + e"
    and "pending_ids g' = ?P - R" "cancelled_ids g' = cancelled_ids g - R" and "same_frame g g'"
    by (auto simp: tally_def)
  moreover have "sampled (d + e) g'"
    using bk ta sampled_metered by (auto simp: books_def tally_def)
  ultimately show ?thesis using bk b cd by (auto simp: books_def same_frame_def)
qed

lemma books_tally_shrink:
  assumes "books C k a d c g" and "tally 0 e R g g'"
  shows "books C k a (d + e) c g'"
proof -
  from assms have "slots g' + card (pending_ids g \<inter> R) = slots g"
    by (auto simp: books_def tally_def)
  then have "slots g' \<le> unat (max_global C)" using assms(1) by (simp add: books_def)
  from books_tally [OF assms this] show ?thesis by simp
qed

lemma books_reject: "books C k a d c g \<Longrightarrow> books C k a d c (record_reject r g)"
  using books_tally_shrink [OF _ tally_reject [of g r]] by simp

end
