(* ===== verification/Enqueue_Sound.thy ===== *)
theory Enqueue_Sound
  imports Invariant
begin

text \<open>
  The enqueue paths keep the invariant and the books. Everything an enqueue does before it
  answers, it does to one tenant and to the shared state; \<open>prepared\<close> collects that, each
  part of the paths extends it, and the two ways to end (write the tenant back, accept the
  task) use it. \<open>drop_outcome\<close> says what a drop policy may evict and when it refuses.
\<close>

text \<open>
  \<open>V\<close> holds the ids of tasks evicted by a drop policy; every other entry that leaves is
  cancelled, or expired at a clock reading of the call.
\<close>

definition prepared :: "config \<Rightarrow> clock \<Rightarrow> 'a sched \<Rightarrow> tenant_key \<Rightarrow> nat \<Rightarrow> nat set \<Rightarrow> 'a tenant_state \<Rightarrow>
    shared \<Rightarrow> bool" where
  "prepared C clk s t k V ts g \<longleftrightarrow>
     (let ts0 = tenant_entry C t (shards s ! shard_index s t) (shared s) in
      \<exists>R. shrinks R ts0 ts \<and> tally k 0 R (shared s) g \<and> ticks (shared s) \<le> ticks g \<and>
        (\<forall>e \<in> set (tqueue ts0). entry_id e \<in> R - V \<longrightarrow> gone clk (shared s) g e))"

lemma prepared_start:
  "prepared C clk s t 0 V (tenant_entry C t (shards s ! shard_index s t) (shared s)) (shared s)"
  unfolding prepared_def Let_def by (intro exI [of _ "{}"]) (simp add: shrinks_refl)

lemma prepared_q_ok:
  assumes "sched_ok C s" and "prepared C clk s t k V ts g"
  shows "q_ok g (tqueue ts)"
proof -
  from assms(1) have "ledger s" by (simp add: sched_ok_def)
  from tenant_entry_ok [OF this, of C t "shared s"] assms(2) show ?thesis
    unfolding prepared_def tally_def Let_def by (blast intro: shrinks_q_ok)
qed

lemma shrinks_set: "shrinks R ts ts' \<Longrightarrow> set (tqueue ts') = {e \<in> set (tqueue ts). entry_id e \<notin> R}"
  unfolding shrinks_def tqueue_eq by auto

lemma prepared_step:
  assumes pr: "prepared C clk s t k V ts g" and sh: "shrinks R ts ts'" and ta: "tally l 0 R g g'"
    and ti: "ticks g \<le> ticks g'"
    and gone: "\<And>e. e \<in> set (tqueue ts) \<Longrightarrow> entry_id e \<in> R - V \<Longrightarrow> gone clk g g' e"
  shows "prepared C clk s t (k + l) V ts' g'"
proof -
  let ?ts0 = "tenant_entry C t (shards s ! shard_index s t) (shared s)"
  from pr obtain S where S: "shrinks S ?ts0 ts" "tally k 0 S (shared s) g" "ticks (shared s) \<le> ticks g"
    and g0: "\<And>e. e \<in> set (tqueue ?ts0) \<Longrightarrow> entry_id e \<in> S - V \<Longrightarrow> gone clk (shared s) g e"
    unfolding prepared_def Let_def by blast
  have "gone clk (shared s) g' e" if e: "e \<in> set (tqueue ?ts0)" "entry_id e \<in> S \<union> R - V" for e
  proof (cases "entry_id e \<in> S")
    case True
    with g0 e ti show ?thesis by (blast intro: gone_later)
  next
    case False
    with e shrinks_set [OF S(1)] have "e \<in> set (tqueue ts)" "entry_id e \<in> R - V" by auto
    from gone [OF this] show ?thesis
      by (rule gone_earlier) (use S in \<open>auto simp: tally_def\<close>)
  qed
  moreover have "tally (k + l) 0 (S \<union> R) (shared s) g'" using tally_trans [OF S(2) ta] by simp
  ultimately show ?thesis
    unfolding prepared_def Let_def using shrinks_trans [OF S(1) sh] order_trans [OF S(3) ti] by blast
qed

lemma prepared_purges:
  "prepared C clk s t k V ts g \<Longrightarrow> purges clk l R ts g ts' g' \<Longrightarrow> prepared C clk s t (k + l) V ts' g'"
  unfolding purges_def by (blast intro: prepared_step)

lemma prepared_total_len:
  assumes "sched_ok C s" and "prepared C clk s t k V ts g"
  shows "total_len ts \<le> unat (max_per_tenant C)"
proof -
  from assms(1) have "shard_inv C (shards s ! shard_index s t)"
    using shard_index_less by (auto simp: sched_ok_def)
  from tenant_entry_active(3) [OF this] assms(2) shrinks_total_len show ?thesis
    unfolding prepared_def Let_def by (metis order_trans)
qed

lemma prepared_maybe_purge:
  assumes "sched_ok C s" and "prepared C clk s t 0 V ts g"
    and "maybe_purge_tenant_before_enqueue C clk ts g = (r, ts', g')"
  shows "prepared C clk s t 0 V ts' g'"
  using maybe_purge [OF prepared_q_ok [OF assms(1,2)] assms(3)] prepared_purges [OF assms(2)] by fastforce

lemma prepared_purge:
  assumes "sched_ok C s" and "prepared C clk s t 0 V ts g"
    and "purge_tenant_for_enqueue clk reason ts g = (st, ts', g')"
  shows "prepared C clk s t 0 V ts' g'"
  using purge_purges [OF prepared_q_ok [OF assms(1,2)] assms(3)] prepared_purges [OF assms(2)] by fastforce

lemma prepared_reserve:
  assumes "sched_ok C s" and "prepared C clk s t 0 V ts g"
    and "reserve_or_purge C clk full ts g = (res, ts', g')"
  shows "prepared C clk s t (if res then 1 else 0) V ts' g'" and "total_len ts' \<le> total_len ts"
  using reserve_or_purge [OF prepared_q_ok [OF assms(1,2)] assms(3)] prepared_purges [OF assms(2)]
    shrinks_total_len unfolding purges_def by fastforce+

subsection \<open>The effect of an enqueue\<close>

text \<open>
  What a call did to the queues: the entries with an id in \<open>R\<close> left the queues of the
  tenant, and the new task, if it was accepted, is at the back of its queue.
\<close>

definition enqueues :: "clock \<Rightarrow> nat set \<Rightarrow> tenant_key \<Rightarrow> 'a task \<Rightarrow> nat option \<Rightarrow> 'a sched \<Rightarrow> 'a sched \<Rightarrow> bool" where
  "enqueues clk V t task new s s' \<longleftrightarrow>
     (\<exists>R. (\<forall>u p. sched_queue s' u p =
             filter (\<lambda>e. entry_id e \<notin> R) (sched_queue s u p) @
             (if u = t \<and> p = prio task
              then (case new of None \<Rightarrow> [] | Some h \<Rightarrow> [\<lparr>entry_id = h, entry_task = task\<rparr>]) else [])) \<and>
          R \<subseteq> (\<Union>p. set (ids (sched_queue s t p))) \<and>
          (\<forall>u p. \<forall>e \<in> set (sched_queue s u p). entry_id e \<in> R - V \<longrightarrow> gone clk (shared s) (shared s') e) \<and>
          pending_ids (shared s') = (pending_ids (shared s) - R) \<union> set_option new \<and>
          cancelled_ids (shared s') = cancelled_ids (shared s) - R) \<and>
     ticks (shared s) \<le> ticks (shared s') \<and> shutdown_state (shared s') = shutdown_state (shared s) \<and>
     stirred (if new = None then \<not> pending_ids (shared s) \<subseteq> pending_ids (shared s')
              else length (sched_queue s' t (prio task)) = 1) (shared s) (shared s')"

lemma enqueues_refl: "enqueues clk V t task None s s"
  unfolding enqueues_def by (intro conjI exI [of _ "{}"]) (simp_all add: stirred_none split: option.split)

lemma prepared_effect:
  assumes ok: "sched_ok C s" and pr: "prepared C clk s t k V ts g"
  shows "\<exists>R. shrinks R (tenant_entry C t (shards s ! shard_index s t) (shared s)) ts \<and>
    tally k 0 R (shared s) g \<and> ticks (shared s) \<le> ticks g \<and>
    R \<subseteq> (\<Union>p. set (ids (sched_queue s t p))) \<and>
    (\<forall>u p. (if u = t then queues ts p else sched_queue s u p) = filter (\<lambda>e. entry_id e \<notin> R) (sched_queue s u p)) \<and>
    (\<forall>u p. \<forall>e \<in> set (sched_queue s u p). entry_id e \<in> R - V \<longrightarrow> gone clk (shared s) g e)"
proof -
  let ?ts0 = "tenant_entry C t (shards s ! shard_index s t) (shared s)"
  from ok have le: "ledger s" by (simp add: sched_ok_def)
  from pr obtain R where R: "shrinks R ?ts0 ts" "tally k 0 R (shared s) g" "ticks (shared s) \<le> ticks g"
    and gone: "\<And>e. e \<in> set (tqueue ?ts0) \<Longrightarrow> entry_id e \<in> R - V \<Longrightarrow> gone clk (shared s) g e"
    unfolding prepared_def Let_def by blast
  have q: "queues ?ts0 p = sched_queue s t p" for p by (rule tenant_entry_queue)
  have tq: "e \<in> set (tqueue ?ts0) \<longleftrightarrow> (\<exists>p. e \<in> set (sched_queue s t p))" for e
    using all_priority [of "\<lambda>p. e \<notin> set (sched_queue s t p)"] by (auto simp: tqueue_eq q)
  have sub: "R \<subseteq> (\<Union>p. set (ids (sched_queue s t p)))"
  proof
    fix i assume "i \<in> R"
    with R(1) obtain e where "e \<in> set (tqueue ?ts0)" "entry_id e = i" unfolding shrinks_def by auto
    with tq obtain p where "i \<in> set (ids (sched_queue s t p))" by auto
    then show "i \<in> (\<Union>p. set (ids (sched_queue s t p)))" by blast
  qed
  have out: "u = t" if "e \<in> set (sched_queue s u p)" "entry_id e \<in> R" for e u p
  proof -
    from sub that(2) obtain e' p' where "e' \<in> set (sched_queue s t p')" "entry_id e' = entry_id e" by auto
    with ledger_disjoint [OF le that(1)] show ?thesis by metis
  qed
  have "(if u = t then queues ts p else sched_queue s u p) = filter (\<lambda>e. entry_id e \<notin> R) (sched_queue s u p)" for u p
  proof (cases "u = t")
    case True
    with R(1) show ?thesis by (simp add: shrinks_def q)
  next
    case False
    then have "filter (\<lambda>e. entry_id e \<notin> R) (sched_queue s u p) = sched_queue s u p"
      using out by (intro filter_True) blast
    with False show ?thesis by simp
  qed
  moreover have "gone clk (shared s) g e" if "e \<in> set (sched_queue s u p)" "entry_id e \<in> R - V" for e u p
    using gone that out tq by blast
  ultimately show ?thesis using R sub by blast
qed

subsection \<open>The two ways to end\<close>

definition tenant_load :: "'a sched \<Rightarrow> tenant_key \<Rightarrow> nat" where
  "tenant_load s t = (\<Sum>p \<leftarrow> ordered. length (sched_queue s t p))"

lemma prepared_put:
  assumes ok: "sched_ok C s" and pr: "prepared C clk s t 0 V ts g"
  shows "sched_ok C (put_tenant (shard_index s t) t ts g s)"
    and "books C 0 a d c (shared s) \<Longrightarrow> books C 0 a d c g"
    and "enqueues clk V t task None s (put_tenant (shard_index s t) t ts g s)"
proof -
  from prepared_effect [OF ok pr] obtain R
    where R: "shrinks R (tenant_entry C t (shards s ! shard_index s t) (shared s)) ts"
    and ta: "tally 0 0 R (shared s) g" and ef: "ticks (shared s) \<le> ticks g"
      "R \<subseteq> (\<Union>p. set (ids (sched_queue s t p)))"
      "\<And>u p. (if u = t then queues ts p else sched_queue s u p) = filter (\<lambda>e. entry_id e \<notin> R) (sched_queue s u p)"
      "\<forall>u p. \<forall>e \<in> set (sched_queue s u p). entry_id e \<in> R - V \<longrightarrow> gone clk (shared s) g e"
    by blast
  from put_tenant_ok [OF ok refl R] ta show "sched_ok C (put_tenant (shard_index s t) t ts g s)"
    by (simp add: tally_def)
  show "books C 0 a d c (shared s) \<Longrightarrow> books C 0 a d c g"
    using books_tally_shrink [OF _ ta] by simp
  from ok have pl: "placed s" by (simp add: sched_ok_def)
  show "enqueues clk V t task None s (put_tenant (shard_index s t) t ts g s)"
    unfolding enqueues_def put_tenant_queue [OF pl refl]
    using ef(1,2,4) ta by (intro conjI exI [of _ R])
      (auto simp: ef(3) tally_def same_frame_def intro: bumped_stirred [where again = False])
qed

lemma prepared_reject:
  assumes "prepared C clk s t 0 V ts g"
  shows "prepared C clk s t 0 V ts (record_reject r g)"
proof -
  have "ticks (record_reject r g) = ticks g" by (cases r) (simp_all add: frame_simps)
  then show ?thesis
    using prepared_step [OF assms shrinks_refl tally_reject, of r] by simp
qed

lemma prepared_accept:
  assumes ok: "sched_ok C s" and pr: "prepared C clk s t 1 V ts g" and b: "slots g \<le> unat (max_global C)"
    and len: "total_len ts < unat (max_per_tenant C)"
    and bk: "books C 0 a d c (shared s)" and a: "a < u64_max"
    and acc: "enqueue_accept (shard_index s t) t task (rings_empty (shards s ! shard_index s t)) ts g s = (h, s')"
  shows "sched_ok C s' \<and> h = TaskHandle (Suc a) \<and> books C 0 (Suc a) d c (shared s') \<and>
    enqueues clk V t task (Some (Suc a)) s s'"
    and "tenant_load s' t = Suc (total_len ts) \<and> slots (shared s') = slots g \<and> ticks (shared s') = ticks g \<and>
      pending_ids (shared s') = insert (Suc a) (pending_ids g) \<and> Suc a \<notin> pending_ids g"
proof -
  let ?i = "shard_index s t" and ?s = "put_tenant (shard_index s t) t ts g s"
  from prepared_effect [OF ok pr] obtain R
    where R: "shrinks R (tenant_entry C t (shards s ! shard_index s t) (shared s)) ts"
    and ta: "tally 1 0 R (shared s) g" and ef: "ticks (shared s) \<le> ticks g"
      "R \<subseteq> (\<Union>p. set (ids (sched_queue s t p)))"
      "\<And>u p. (if u = t then queues ts p else sched_queue s u p) = filter (\<lambda>e. entry_id e \<notin> R) (sched_queue s u p)"
      "\<forall>u p. \<forall>e \<in> set (sched_queue s u p). entry_id e \<in> R - V \<longrightarrow> gone clk (shared s) g e"
    by blast
  have bg: "books C 1 a d c g" using books_tally [OF bk ta b] by simp
  from ok have il: "?i < length (shards s)" and pl: "placed s"
    using shard_index_less by (auto simp: sched_ok_def)
  have ok': "sched_ok C ?s" using put_tenant_ok [OF ok refl R] ta by (simp add: tally_def)
  note sh = put_tenant_shard [OF il, of t ts g ?i, simplified]
  have ts: "tenants (shards ?s ! ?i) t = Some ts" by (simp add: sh)
  have act: "queues ts (prio task) \<noteq> [] \<Longrightarrow> active ts (prio task)"
    using ok' il ts by (auto simp: sched_ok_def shard_inv_def)
  have acc': "enqueue_accept ?i t task (rings_empty (shards s ! ?i)) ts g ?s = (h, s')"
    using acc by (simp add: enqueue_accept_put [OF il])
  have ok2: "sched_ok C s'"
    by (rule enqueue_accept_ok [OF ok' _ ts _ len _ _ books_fresh [OF bg a] acc'])
      (simp_all add: sh)
  note fin = enqueue_accept_books [OF bg a il act acc]
  note eq = enqueue_accept_eq [OF il act acc]
  have ix: "shard_index s' u = shard_index s u" for u by (simp add: shard_index_def eq(2))
  have "sched_queue s' u p = (if u = t then queues ts p else sched_queue s u p) @
      (if u = t \<and> p = prio task then [\<lparr>entry_id = Suc a, entry_task = task\<rparr>] else [])" for u p
    using il fin(2) by (auto simp: sched_queue_def ix eq(2) nth_list_update squeue_def pushed_shard_def
        pushed_tenant_def Let_def)
  note q = this
  have "stirred (length (sched_queue s' t (prio task)) = 1) (shared s) (shared s')"
    using ta enqueue_accept_signal [OF acc]
    by (intro bumped_stirred [where again = "queues ts (prio task) = []"]) (auto simp: tally_def q)
  with q have "enqueues clk V t task (Some (Suc a)) s s'"
    unfolding enqueues_def
    using ef(1,2,4) ta fin(2) enqueue_accept_ticks [OF acc]
    by (intro conjI exI [of _ R]) (simp_all add: ef(3) tally_def eq(3,4,7) gone_def same_frame_def)
  with ok2 fin show "sched_ok C s' \<and> h = TaskHandle (Suc a) \<and> books C 0 (Suc a) d c (shared s') \<and>
    enqueues clk V t task (Some (Suc a)) s s'" by simp
  have "tenant_load s' t = Suc (total_len ts)"
    by (cases "prio task") (simp_all add: tenant_load_def q total_len_eq ordered_def)
  moreover have "Suc a \<notin> pending_ids g" using books_ids_le [OF bg, of "Suc a"] by auto
  ultimately show "tenant_load s' t = Suc (total_len ts) \<and> slots (shared s') = slots g \<and> ticks (shared s') = ticks g \<and>
      pending_ids (shared s') = insert (Suc a) (pending_ids g) \<and> Suc a \<notin> pending_ids g"
    using fin(2) enqueue_accept_ticks [OF acc] by (simp add: eq)
qed

subsection \<open>Dropping a victim\<close>

text \<open>
  A victim that was still pending is evicted and its slot goes to the new task; a victim that
  was not has been cancelled, and leaves as a purge would have made it leave.
\<close>

lemma prepared_drop:
  assumes ok: "sched_ok C s" and pr: "prepared C clk s t 0 {} ts g"
    and drop: "drop_from_tenant strategy incoming ts = Some (e, ts')"
    and tp: "take_pending (entry_id e) (clear_cancelled_marker (entry_id e) g) = (was, g')"
  shows "was \<longleftrightarrow> entry_id e \<in> pending_ids g"
    and "was \<Longrightarrow> prepared C clk s t 1 {entry_id e} ts' (record_policy_drop g')"
    and "\<not> was \<Longrightarrow> prepared C clk s t 0 {} ts' g'"
    and "total_len ts = Suc (total_len ts')" and "total_len ts' < unat (max_per_tenant C)"
    and "slots (record_policy_drop g') = slots g \<and> ticks (record_policy_drop g') = ticks g \<and>
      pending_ids (record_policy_drop g') = pending_ids g - {entry_id e}"
proof -
  note q = prepared_q_ok [OF ok pr]
  note d = drop_effect [OF q drop]
  then obtain p where "e \<in> set (queues ts p)" by blast
  with q_ok_queue [OF q, of p] have e: "q_ok g [e]" by (simp add: q_ok_def)
  show w: "was \<longleftrightarrow> entry_id e \<in> pending_ids g"
    using tp by (auto simp: take_pending_def clear_cancelled_marker_def)
  have g': "g' = snd (take_pending (entry_id e) (clear_cancelled_marker (entry_id e) g))" using tp by simp
  have ti: "ticks g' = ticks g" "ticks (record_policy_drop g') = ticks g" "slots g' = slots g"
    "slots (record_policy_drop g') = slots g"
    by (simp_all add: g' record_policy_drop_def frame_simps) (simp_all add: clear_cancelled_marker_def count_up_def)
  then show "slots (record_policy_drop g') = slots g \<and> ticks (record_policy_drop g') = ticks g \<and>
      pending_ids (record_policy_drop g') = pending_ids g - {entry_id e}"
    by (simp add: g' record_policy_drop_def frame_simps) (auto simp: take_pending_def clear_cancelled_marker_def)
  have pr': "prepared C clk s t 0 {entry_id e} ts g"
    using pr unfolding prepared_def Let_def by blast
  show "was \<Longrightarrow> prepared C clk s t 1 {entry_id e} ts' (record_policy_drop g')"
    using prepared_step [OF pr' conjunct1 [OF d] drop_books_live [OF e]] w ti by (simp add: g')
  have "gone clk g g' x" if "\<not> was" "x \<in> set (tqueue ts)" "entry_id x = entry_id e" for x
    using that w q by (metis gone_def q_ok_def)
  then show "\<not> was \<Longrightarrow> prepared C clk s t 0 {} ts' g'"
    using prepared_step [OF pr conjunct1 [OF d] drop_books_dead] w ti by (simp add: g')
  show "total_len ts = Suc (total_len ts')" "total_len ts' < unat (max_per_tenant C)"
    using d prepared_total_len [OF ok pr] by simp_all
qed

subsection \<open>The two paths\<close>

text \<open>What the result of a call means for the invariant, the books and the queues.\<close>

definition sound_as :: "config \<Rightarrow> clock \<Rightarrow> nat set \<Rightarrow> nat \<Rightarrow> nat \<Rightarrow> nat \<Rightarrow> tenant_key \<Rightarrow> 'a task \<Rightarrow> nat option \<Rightarrow>
    'a sched \<Rightarrow> 'a sched \<Rightarrow> bool" where
  "sound_as C clk V a d c t task new s s' \<longleftrightarrow> sched_ok C s' \<and> enqueues clk V t task new s s' \<and>
     (case new of None \<Rightarrow> books C 0 a d c (shared s') | Some h \<Rightarrow> h = Suc a \<and> books C 0 (Suc a) d c (shared s'))"

fun accepted_id :: "enqueue_with_handle_result \<Rightarrow> nat option" where
  "accepted_id (Enqueued h) = Some (handle_id h)"
| "accepted_id (Rejected r) = None"
| "accepted_id EnqueueClosed = None"

fun attempt_id :: "'a enqueue_attempt \<Rightarrow> nat option" where
  "attempt_id (AttemptEnqueued h) = Some (handle_id h)"
| "attempt_id AttemptClosed = None"
| "attempt_id (AttemptFull task r) = None"

lemma sound_as_refl: "sched_ok C s \<Longrightarrow> books C 0 a d c (shared s) \<Longrightarrow> sound_as C clk V a d c t task None s s"
  by (simp add: sound_as_def enqueues_refl)

lemma finish_reject:
  assumes "sched_ok C s" and "prepared C clk s t 0 V ts g" and "books C 0 a d c (shared s)"
  shows "sound_as C clk V a d c t task None s (put_tenant (shard_index s t) t ts g s)"
  using prepared_put [OF assms(1,2)] assms(3) by (simp add: sound_as_def)

lemma finish_accept:
  assumes "sched_ok C s" and "prepared C clk s t 1 V ts g" and "slots g \<le> unat (max_global C)"
    and "total_len ts < unat (max_per_tenant C)"
    and "books C 0 a d c (shared s)" and "a < u64_max"
    and "enqueue_accept (shard_index s t) t task (rings_empty (shards s ! shard_index s t)) ts g s = (h, s')"
  shows "sound_as C clk V a d c t task (Some (handle_id h)) s s'"
  using prepared_accept(1) [OF assms] by (simp add: sound_as_def)

lemma finish_reserve:
  assumes ok: "sched_ok C s" and pr: "prepared C clk s t 0 V ts g" and bk: "books C 0 a d c (shared s)"
    and a: "a < u64_max" and len: "total_len ts < unat (max_per_tenant C)"
    and res: "reserve_or_purge C clk full ts g = (res, ts', g')"
  shows "\<not> res \<Longrightarrow> prepared C clk s t 0 V ts' g'"
    and "res \<Longrightarrow> enqueue_accept (shard_index s t) t task (rings_empty (shards s ! shard_index s t)) ts' g' s = (h, s') \<Longrightarrow>
      sound_as C clk V a d c t task (Some (handle_id h)) s s'"
proof -
  note p = prepared_reserve [OF ok pr res]
  show "\<not> res \<Longrightarrow> prepared C clk s t 0 V ts' g'" using p by simp
  assume r: res and acc: "enqueue_accept (shard_index s t) t task (rings_empty (shards s ! shard_index s t)) ts' g' s = (h, s')"
  with p len reserve_or_purge_bound res show "sound_as C clk V a d c t task (Some (handle_id h)) s s'"
    by (intro finish_accept [OF ok _ _ _ bk a acc]) auto
qed

lemma enqueue_try_reject_sound:
  assumes ok: "sched_ok C s" and bk: "books C 0 a d c (shared s)" and a: "a < u64_max"
    and call: "enqueue_try_reject C clk t task s = (r, s')"
  shows "sound_as C clk {} a d c t task (attempt_id r) s s'"
proof (cases "is_accepting_enqueues (shared s)")
  case False
  with call sound_as_refl [OF ok bk] show ?thesis
    by (auto simp: enqueue_try_reject_def)
next
  case True
  let ?i = "shard_index s t" and ?limit = "unat (max_per_tenant C)"
  let ?ts0 = "tenant_entry C t (shards s ! ?i) (shared s)"
  obtain why ts1 g1 where m: "maybe_purge_tenant_before_enqueue C clk ?ts0 (shared s) = (why, ts1, g1)"
    by (metis prod_cases3)
  note p1 = prepared_maybe_purge [OF ok prepared_start [where V = "{}"] m]
  obtain full ts2 g2 where f: "(if ?limit \<le> total_len ts1 \<and> why \<noteq> Some FullPurge
      then let (_, ts', g') = purge_tenant_for_enqueue clk FullPurge ts1 g1 in (True, ts', g')
      else (why = Some FullPurge, ts1, g1)) = (full, ts2, g2)"
    by (metis prod_cases3)
  with p1 prepared_purge [OF ok p1] have p2: "prepared C clk s t 0 {} ts2 g2"
    by (auto split: if_splits prod.splits)
  obtain res ts3 g3 where rs: "reserve_or_purge C clk full ts2 g2 = (res, ts3, g3)"
    by (metis prod_cases3)
  note un = enqueue_try_reject_def Let_def
  consider (tenant_full) "?limit \<le> total_len ts2" | (slot) "total_len ts2 < ?limit" by linarith
  then show ?thesis
  proof cases
    case tenant_full
    with call True m f have "r = AttemptFull task TenantFull"
      and s': "s' = put_tenant ?i t ts2 g2 s"
      by (auto simp: un)
    with finish_reject [OF ok p2 bk] show ?thesis
      by simp
  next
    case slot
    note fin = finish_reserve [OF ok p2 bk a slot rs]
    show ?thesis
    proof (cases res)
      case False
      with call True m f slot rs have "r = AttemptFull task GlobalFull"
        and s': "s' = put_tenant ?i t ts3 g3 s"
        by (auto simp: un)
      with finish_reject [OF ok fin(1) [OF False] bk] show ?thesis
        by simp
    next
      case True
      obtain h s2 where acc: "enqueue_accept ?i t task (rings_empty (shards s ! ?i)) ts3 g3 s = (h, s2)"
        by fastforce
      with call \<open>is_accepting_enqueues (shared s)\<close> m f slot rs True have "r = AttemptEnqueued h" "s' = s2"
        by (auto simp: un)
      with fin(2) [OF True acc] show ?thesis by simp
    qed
  qed
qed

lemma enqueue_reject_sound:
  assumes ok: "sched_ok C s" and bk: "books C 0 a d c (shared s)" and a: "a < u64_max"
    and call: "enqueue_reject_with_handle C clk t task s = (r, s')"
  shows "sound_as C clk {} a d c t task (accepted_id r) s s'"
proof -
  obtain att s1 where tr: "enqueue_try_reject C clk t task s = (att, s1)" by fastforce
  note sound = enqueue_try_reject_sound [OF ok bk a tr]
  have rej: "sound_as C clk {} a d c t task None s (s1\<lparr>shared := record_reject reason (shared s1)\<rparr>)"
    if "attempt_id att = None" for reason
  proof -
    let ?g = "record_reject reason (shared s1)"
    from sound that have s1: "sched_ok C s1" "enqueues clk {} t task None s s1" "books C 0 a d c (shared s1)"
      by (simp_all add: sound_as_def)
    have pc: "pending_ids ?g = pending_ids (shared s1)" "cancelled_ids ?g = cancelled_ids (shared s1)"
      "ticks ?g = ticks (shared s1)" "shutdown_state ?g = shutdown_state (shared s1)"
      "signal_seq ?g = signal_seq (shared s1)" by (cases reason; simp add: frame_simps)+
    have sg: "shared (s1\<lparr>shared := ?g\<rparr>) = ?g" by simp
    have q: "sched_queue (s1\<lparr>shared := ?g\<rparr>) u p = sched_queue s1 u p" for u p
      by (simp add: sched_queue_def shard_index_def)
    have "enqueues clk {} t task None s (s1\<lparr>shared := ?g\<rparr>)"
      using s1(2) unfolding enqueues_def q gone_def stirred_def sg pc .
    with s1 pc books_reject show ?thesis by (simp add: sound_as_def sched_ok_shared del: record_reject.simps)
  qed
  show ?thesis
    using call tr sound rej
    by (cases att) (auto simp: enqueue_reject_with_handle_def simp del: record_reject.simps)
qed

subsection \<open>Why a call is rejected\<close>

lemma purge_slots:
  assumes ok: "q_ok g (tqueue ts)" and call: "purge_tenant_for_enqueue clk reason ts g = (st, ts', g')"
    and "released_slots st = 0"
  shows "slots g' = slots g"
proof -
  let ?g1 = "snd (read_clock clk g)"
  have "q_ok ?g1 (tqueue ts)" using ok by (simp add: q_ok_def frame_simps)
  from purge_tenant_eq [OF this] call assms(3) show ?thesis
    by (auto simp: purge_tenant_for_enqueue_def split_def Let_def record_enqueue_purge_stats_def frame_simps
        count_up_def)
qed

lemma reserve_or_purge_full:
  assumes ok: "q_ok g (tqueue ts)" and call: "reserve_or_purge C clk full ts g = (False, ts', g')"
  shows "unat (max_global C) \<le> slots g'"
proof -
  have full: "unat (max_global C) \<le> slots h \<and> h' = h" if "try_reserve_slot C h = (False, h')" for h h'
    using that by (auto simp: try_reserve_slot_def split: if_splits)
  show ?thesis
  proof (cases "fst (try_reserve_slot C g) \<or> full")
    case True
    with call have "try_reserve_slot C g = (False, g')"
      by (auto simp: reserve_or_purge_def split: prod.splits if_splits)
    with full show ?thesis by blast
  next
    case False
    then have g: "try_reserve_slot C g = (False, g)"
      by (auto simp: try_reserve_slot_def split: if_splits)
    obtain st ts1 g2 where p: "purge_tenant_for_enqueue clk FullPurge ts g = (st, ts1, g2)"
      by (metis prod_cases3)
    with False g call have "if 0 < released_slots st then try_reserve_slot C g2 = (False, g') else g' = g2"
      by (auto simp: reserve_or_purge_def split: prod.splits if_splits)
    then show ?thesis
      using full [of g2 g'] full [OF g] purge_slots [OF ok p] by (cases "0 < released_slots st") auto
  qed
qed

lemma tenant_load_put:
  assumes "placed s"
  shows "tenant_load (put_tenant (shard_index s t) t ts g s) t = total_len ts"
  by (simp add: tenant_load_def total_len_def put_tenant_queue [OF assms refl])

subsection \<open>The drop path\<close>

text \<open>
  What a drop policy may evict: a pending task of the tenant, no higher in priority than the
  new one, when the tenant or the scheduler is full (after the call the tenant is at its limit
  or every slot is taken, although one task has left). Nothing of a lower priority is left to
  evict instead, and the task is the oldest or, under \<open>Newest\<close>, the newest of its queue, up
  to entries that are cancelled or expired.
\<close>

definition evicts :: "config \<Rightarrow> clock \<Rightarrow> drop_strategy \<Rightarrow> 'a queue_entry \<Rightarrow> tenant_key \<Rightarrow> priority \<Rightarrow> 'a sched \<Rightarrow>
    'a sched \<Rightarrow> bool" where
  "evicts C clk strategy e t incoming s s' \<longleftrightarrow>
     entry_id e \<in> pending_ids (shared s) \<and> entry_id e \<notin> pending_ids (shared s') \<and>
     (unat (max_per_tenant C) \<le> tenant_load s' t \<or> unat (max_global C) \<le> slots (shared s')) \<and>
     (\<exists>p pre post. sched_queue s t p = pre @ e # post \<and> incoming \<le> p \<and>
        (\<forall>x \<in> set (case strategy of Oldest \<Rightarrow> pre | Newest \<Rightarrow> post). gone clk (shared s) (shared s') x) \<and>
        (\<forall>q. p < q \<longrightarrow> (\<forall>x \<in> set (sched_queue s t q). gone clk (shared s) (shared s') x)))"

definition drop_outcome :: "config \<Rightarrow> clock \<Rightarrow> drop_strategy \<Rightarrow> tenant_key \<Rightarrow> 'a task \<Rightarrow> enqueue_with_handle_result \<Rightarrow>
    nat set \<Rightarrow> 'a sched \<Rightarrow> 'a sched \<Rightarrow> bool" where
  "drop_outcome C clk strategy t task r V s s' \<longleftrightarrow>
     (case r of
        EnqueueClosed \<Rightarrow> V = {} \<and> \<not> is_accepting_enqueues (shared s) \<and> s' = s
      | Rejected TenantFull \<Rightarrow> V = {} \<and> unat (max_per_tenant C) \<le> tenant_load s' t \<and>
          (\<forall>p \<ge> prio task. sched_queue s' t p = [])
      | Rejected GlobalFull \<Rightarrow> V = {} \<and> unat (max_global C) \<le> slots (shared s')
      | Rejected TimedOut \<Rightarrow> False
      | Enqueued h \<Rightarrow> V = {} \<or> (\<exists>e. V = {entry_id e} \<and> evicts C clk strategy e t (prio task) s s'))"

lemma filter_split:
  "filter P q = pre' @ e # post' \<Longrightarrow> \<exists>pre post. q = pre @ e # post \<and> filter P pre = pre' \<and> filter P post = post'"
proof (induction q arbitrary: pre')
  case (Cons x q)
  show ?case
  proof (cases "P x \<and> pre' = []")
    case True
    with Cons.prems show ?thesis by (intro exI [of _ "[]"] exI [of _ q]) simp
  next
    case False
    with Cons.prems obtain pre'' where "filter P q = pre'' @ e # post'" "pre' = (if P x then x # pre'' else pre'')"
      by (cases pre') (auto split: if_splits)
    with Cons.IH obtain pre post where "q = pre @ e # post" "filter P pre = pre''" "filter P post = post'" by blast
    with \<open>pre' = _\<close> show ?thesis by (intro exI [of _ "x # pre"] exI [of _ post]) simp
  qed
qed simp

lemma drop_evicts:
  assumes ok: "sched_ok C s" and pr: "prepared C clk s t 0 {} ts g"
    and drop: "drop_from_tenant strategy incoming ts = Some (e, ts')"
    and live: "entry_id e \<in> pending_ids g" and gone': "entry_id e \<notin> pending_ids (shared s')"
    and full: "unat (max_per_tenant C) \<le> total_len ts \<or> unat (max_global C) \<le> slots g"
    and after: "tenant_load s' t = total_len ts" "slots (shared s') = slots g" "ticks (shared s') = ticks g"
  shows "evicts C clk strategy e t incoming s s'"
proof -
  from prepared_effect [OF ok pr] obtain R
    where ta: "tally 0 0 R (shared s) g"
      and q: "\<And>p. queues ts p = filter (\<lambda>e. entry_id e \<notin> R) (sched_queue s t p)"
      and dead: "\<And>p x. x \<in> set (sched_queue s t p) \<Longrightarrow> entry_id x \<in> R \<Longrightarrow> gone clk (shared s) g x"
    by (metis Diff_empty)
  from drop_from_tenant_Some [OF drop] obtain p pre' post'
    where p: "incoming \<le> p" and lower: "\<And>q. p < q \<Longrightarrow> queues ts q = []"
      and here: "queues ts p = pre' @ e # post'" and side: "(case strategy of Oldest \<Rightarrow> pre' | Newest \<Rightarrow> post') = []"
    by blast
  from filter_split [OF here [unfolded q]] obtain pre post
    where split: "sched_queue s t p = pre @ e # post" "filter (\<lambda>e. entry_id e \<notin> R) pre = pre'"
      "filter (\<lambda>e. entry_id e \<notin> R) post = post'" by blast
  have same: "gone clk (shared s) (shared s') x \<longleftrightarrow> gone clk (shared s) g x" for x :: "'a queue_entry"
    by (simp add: gone_def after(3))
  have "gone clk (shared s) (shared s') x" if "x \<in> set (case strategy of Oldest \<Rightarrow> pre | Newest \<Rightarrow> post)" for x
    using that side split dead [of x p] by (cases strategy) (auto simp: same filter_empty_conv)
  moreover have "gone clk (shared s) (shared s') x" if "p < q'" "x \<in> set (sched_queue s t q')" for q' x
    using that lower [of q'] dead [of x q'] by (auto simp: same q filter_empty_conv)
  moreover have "entry_id e \<in> pending_ids (shared s)" using live ta by (simp add: tally_def)
  ultimately show ?thesis
    unfolding evicts_def using p split(1) gone' full after
    by (intro conjI exI [of _ p] exI [of _ pre] exI [of _ post]) auto
qed

lemma enqueue_drop_sound:
  assumes ok: "sched_ok C s" and bk: "books C 0 a d c (shared s)" and a: "a < u64_max"
    and call: "enqueue_drop_with_handle C clk strategy t task s = (r, s')"
  shows "\<exists>V. drop_outcome C clk strategy t task r V s s' \<and> sound_as C clk V a d c t task (accepted_id r) s s'"
proof (cases "is_accepting_enqueues (shared s)")
  case False
  with call have "r = EnqueueClosed" "s' = s" by (simp_all add: enqueue_drop_with_handle_def)
  with False show ?thesis using sound_as_refl [OF ok bk] by (auto simp: drop_outcome_def)
next
  case True
  let ?i = "shard_index s t" and ?limit = "unat (max_per_tenant C)"
  let ?ts0 = "tenant_entry C t (shards s ! ?i) (shared s)" and ?e = "rings_empty (shards s ! shard_index s t)"
  obtain why ts1 g1 where m: "maybe_purge_tenant_before_enqueue C clk ?ts0 (shared s) = (why, ts1, g1)"
    by (metis prod_cases3)
  note p1 = prepared_maybe_purge [OF ok prepared_start [where V = "{}"] m]
  from ok have pl: "placed s" by (simp add: sched_ok_def)
  let ?tf = "?limit \<le> total_len ts1" and ?gf = "unat (max_global C) \<le> slots g1"
  let ?reserve = "\<lambda>ts g. let (reserved, ts', g') = reserve_or_purge C clk (why = Some FullPurge) ts g
      in if \<not> reserved then (Rejected GlobalFull, put_tenant ?i t ts' (record_reject GlobalFull g') s)
         else let (handle, s') = enqueue_accept ?i t task ?e ts' g' s in (Enqueued handle, s')"
  note un = enqueue_drop_with_handle_def Let_def
  have reserve: "drop_outcome C clk strategy t task r {} s s' \<and> sound_as C clk {} a d c t task (accepted_id r) s s'"
    if "?reserve ts g = (r, s')" "prepared C clk s t 0 {} ts g" "total_len ts < ?limit" for ts g
  proof -
    obtain res ts3 g3 where rs: "reserve_or_purge C clk (why = Some FullPurge) ts g = (res, ts3, g3)"
      by (metis prod_cases3)
    note fin = finish_reserve [OF ok that(2) bk a that(3) rs]
    show ?thesis
    proof (cases res)
      case False
      with that(1) rs finish_reject [OF ok prepared_reject [OF fin(1) [OF False]] bk, of task GlobalFull]
        reserve_or_purge_full [OF prepared_q_ok [OF ok that(2)], of C clk "why = Some FullPurge" ts3 g3]
      show ?thesis by (auto simp: drop_outcome_def count_up_def)
    next
      case True
      obtain h s2 where acc: "enqueue_accept ?i t task ?e ts3 g3 s = (h, s2)" by fastforce
      with that(1) rs True fin(2) [OF True acc] show ?thesis by (auto simp: drop_outcome_def)
    qed
  qed
  consider (room) "\<not> ?tf" "\<not> ?gf" | (stuck) "?tf \<or> ?gf" "drop_from_tenant strategy (prio task) ts1 = None"
    | (drop) e ts2 where "?tf \<or> ?gf" "drop_from_tenant strategy (prio task) ts1 = Some (e, ts2)"
    by (cases "drop_from_tenant strategy (prio task) ts1") auto
  then show ?thesis
  proof cases
    case room
    with call True m have "?reserve ts1 g1 = (r, s')" by (simp add: un)
    from reserve [OF this p1] room show ?thesis by auto
  next
    case stuck
    let ?r = "if ?tf then TenantFull else GlobalFull"
    from call True m stuck have r: "r = Rejected ?r" and s': "s' = put_tenant ?i t ts1 (record_reject ?r g1) s"
      by (auto simp: un simp del: record_reject.simps)
    have "sound_as C clk {} a d c t task (accepted_id r) s s'"
      using finish_reject [OF ok prepared_reject [OF p1] bk] by (simp add: r s' del: record_reject.simps)
    moreover have "\<forall>p \<ge> prio task. sched_queue s' t p = []"
      using stuck(2) by (simp add: s' put_tenant_queue [OF pl refl] drop_from_tenant_None)
    moreover have "slots (shared s') = slots g1" by (auto simp: s' count_up_def)
    moreover have "tenant_load s' t = total_len ts1" by (simp add: s' tenant_load_put [OF pl])
    ultimately show ?thesis
      using stuck(1) by (intro exI [of _ "{}"]) (auto simp: drop_outcome_def r)
  next
    case drop
    obtain was g3 where tp: "take_pending (entry_id e) (clear_cancelled_marker (entry_id e) g1) = (was, g3)"
      by fastforce
    note dr = prepared_drop [OF ok p1 drop(2) tp]
    show ?thesis
    proof (cases was)
      case True
      obtain h s2 where acc: "enqueue_accept ?i t task ?e ts2 (record_policy_drop g3) s = (h, s2)" by fastforce
      with call \<open>is_accepting_enqueues (shared s)\<close> m drop tp True have r: "r = Enqueued h" "s' = s2"
        by (auto simp: un)
      have room: "slots (record_policy_drop g3) \<le> unat (max_global C)"
        using dr(6) prepared_put(2) [OF ok p1 bk] by (simp add: books_def)
      have sound: "sound_as C clk {entry_id e} a d c t task (accepted_id r) s s'"
        using finish_accept [OF ok dr(2) [OF True] room dr(5) bk a acc] r by simp
      note acc' = prepared_accept(2) [OF ok dr(2) [OF True] room dr(5) bk a acc]
      have "entry_id e \<in> pending_ids g1" using dr(1) True by simp
      moreover from this have "entry_id e \<noteq> Suc a"
        using books_ids_le [OF prepared_put(2) [OF ok p1 bk], of "entry_id e"] by auto
      then have "entry_id e \<notin> pending_ids (shared s')" using acc' dr(6) r(2) by simp
      ultimately have "evicts C clk strategy e t (prio task) s s'"
        using acc' dr(4,6) r(2) by (intro drop_evicts [OF ok p1 drop(2) _ _ drop(1)]) simp_all
      with sound show ?thesis unfolding r by (auto simp: drop_outcome_def)
    next
      case False
      with call \<open>is_accepting_enqueues (shared s)\<close> m drop tp have "?reserve ts2 g3 = (r, s')"
        by (simp add: un)
      from reserve [OF this dr(3) [OF False] dr(5)] show ?thesis by blast
    qed
  qed
qed

subsection \<open>The reject path\<close>

lemma try_reject_full:
  assumes ok: "sched_ok C s" and call: "enqueue_try_reject C clk t task s = (AttemptFull task' reason, s')"
  shows "task' = task \<and>
    (case reason of
       TenantFull \<Rightarrow> unat (max_per_tenant C) \<le> tenant_load s' t
     | GlobalFull \<Rightarrow> unat (max_global C) \<le> slots (shared s')
     | TimedOut \<Rightarrow> False)"
proof -
  let ?i = "shard_index s t" and ?limit = "unat (max_per_tenant C)"
  let ?ts0 = "tenant_entry C t (shards s ! ?i) (shared s)"
  have acc: "is_accepting_enqueues (shared s)" using call by (auto simp: enqueue_try_reject_def split: if_splits)
  from ok have pl: "placed s" by (simp add: sched_ok_def)
  obtain why ts1 g1 where m: "maybe_purge_tenant_before_enqueue C clk ?ts0 (shared s) = (why, ts1, g1)"
    by (metis prod_cases3)
  note p1 = prepared_maybe_purge [OF ok prepared_start [where V = "{}"] m]
  obtain full ts2 g2 where f: "(if ?limit \<le> total_len ts1 \<and> why \<noteq> Some FullPurge
      then let (_, ts', g') = purge_tenant_for_enqueue clk FullPurge ts1 g1 in (True, ts', g')
      else (why = Some FullPurge, ts1, g1)) = (full, ts2, g2)"
    by (metis prod_cases3)
  with p1 prepared_purge [OF ok p1] have p2: "prepared C clk s t 0 {} ts2 g2"
    by (auto split: if_splits prod.splits)
  obtain res ts3 g3 where rs: "reserve_or_purge C clk full ts2 g2 = (res, ts3, g3)"
    by (metis prod_cases3)
  from call acc m f rs have
    "?limit \<le> total_len ts2 \<and> task' = task \<and> reason = TenantFull \<and> s' = put_tenant ?i t ts2 g2 s \<or>
     \<not> res \<and> task' = task \<and> reason = GlobalFull \<and> s' = put_tenant ?i t ts3 g3 s"
    by (auto simp: enqueue_try_reject_def Let_def split: if_splits prod.splits)
  then show ?thesis
    using tenant_load_put [OF pl] reserve_or_purge_full [OF prepared_q_ok [OF ok p2]] rs by (elim disjE) auto
qed

lemma tenant_load_le:
  assumes "sched_ok C s"
  shows "tenant_load s t \<le> unat (max_per_tenant C)"
proof -
  have "shard_inv C (shards s ! shard_index s t)"
    using assms shard_index_less by (auto simp: sched_ok_def)
  from tenant_entry_active(3) [OF this, of t "shared s"] show ?thesis
    by (simp add: tenant_load_def total_len_def tenant_entry_queue)
qed

end
