(* ===== verification/Dequeue.thy ===== *)
theory Dequeue
  imports Purge "HOL-Library.Sublist"
begin

text \<open>
  The dequeue side of \<open>scheduler.rs\<close>: \<open>try_dequeue\<close> takes the active shards in turn,
  \<open>try_dequeue_from_shard\<close> serves the priorities in order, and within a priority gives each
  tenant of the ring one visit of deficit round robin. A call is one step here; the loops
  recurse on the lengths that the code reads before them. The code adds the quantum to the
  deficit with the plain \<open>+=\<close> on \<open>i64\<close>, which wraps in a release build, and so it does here.
\<close>

subsection \<open>One visit\<close>

text \<open>The loop over the front of the queue; the last argument is \<open>expired_count\<close>.\<close>

fun expire_front :: "instant \<Rightarrow> 'a queue_entry list \<Rightarrow> shared \<Rightarrow> nat \<Rightarrow>
    'a queue_entry list \<times> shared \<times> nat" where
  "expire_front now [] g n = ([], g, n)"
| "expire_front now (e # q) g n =
    (let (marked, g1) = take_cancelled_marker (entry_id e) g in
     if marked then expire_front now q g1 n
     else if is_expired (deadline (entry_task e)) now then
       let (was_pending, g2) = take_pending (entry_id e) g1 in
       if was_pending then expire_front now q (release_reserved_slots 1 g2) (saturating_add n 1)
       else expire_front now q g2 n
     else (e # q, g1, n))"

definition task_cost :: "'a task \<Rightarrow> i64" where
  "task_cost task =
    (let front_cost = int (unat (cost task)) in if i64_max < front_cost then i64_max else front_cost)"

text \<open>The statistics of a delivered task.\<close>

definition record_dequeue :: "clock \<Rightarrow> tenant_key \<Rightarrow> 'a task \<Rightarrow> shared \<Rightarrow> shared" where
  "record_dequeue clk t task g =
    (let g1 = count_up dequeued_update 1 g;
         g2 = release_reserved_slots 1 g1;
         g3 = notify_all g2;
         (now, g4) = read_clock clk g3;
         queue_time_ns = min (now - enqueue_ts task) u64_max;
         g5 = count_up queue_time_sum_ns_update queue_time_ns g4;
         g6 = count_up queue_time_samples_update 1 g5;
         g7 = record_queue_time queue_time_ns g6
     in g7\<lparr>top_tenants := tt_record (top_tenants g7) t 1\<rparr>)"

datatype 'a visit =
    Continue
  | Break
  | Found tenant_key "'a task"

definition put_ring :: "priority \<Rightarrow> tenant_key active_ring \<Rightarrow> 'a shard \<Rightarrow> 'a shard" where
  "put_ring p r sh = sh\<lparr>active_rings := (active_rings sh)(p := r)\<rparr>"

definition put_state :: "tenant_key \<Rightarrow> 'a tenant_state \<Rightarrow> 'a shard \<Rightarrow> 'a shard" where
  "put_state t ts sh = sh\<lparr>tenants := (tenants sh)(t \<mapsto> ts)\<rparr>"

text \<open>One iteration of the loop over a ring, from the tenant's turn to its end.\<close>

definition visit :: "clock \<Rightarrow> priority \<Rightarrow> 'a shard \<Rightarrow> shared \<Rightarrow> 'a visit \<times> 'a shard \<times> shared" where
  "visit clk p sh g =
    (case ring_pop_front (active_rings sh p) of
       (None, r) \<Rightarrow> (Break, put_ring p r sh, g)
     | (Some t, r) \<Rightarrow>
         (case tenants sh t of
            None \<Rightarrow> (Continue, put_ring p r sh, g)
          | Some ts \<Rightarrow>
              let (now, g1) = read_clock clk g;
                  (q, g2, expired_count) = expire_front now (queues ts p) g1 0;
                  g3 = (if 0 < expired_count
                        then notify_all (count_up expired_update expired_count g2) else g2);
                  ts1 = ts\<lparr>queues := (queues ts)(p := q)\<rparr>
              in case q of
                   [] \<Rightarrow> (Continue, put_ring p r (put_state t (ts1\<lparr>active := (active ts1)(p := False)\<rparr>) sh), g3)
                 | entry # rest \<Rightarrow>
                     let task = entry_task entry;
                         deficit = deficits ts1 p
                     in if deficit < task_cost task then
                          (Continue,
                           put_ring p (ring_push_back r t)
                             (put_state t (ts1\<lparr>deficits := (deficits ts1)(p := wrap_i64 (deficit + quantum ts1))\<rparr>) sh),
                           g3)
                        else
                          let ts2 = ts1\<lparr>queues := (queues ts1)(p := rest)\<rparr>;
                              ts3 = (if rest = [] then ts2\<lparr>active := (active ts2)(p := False)\<rparr> else ts2);
                              r1 = (if rest = [] then r else ring_push_back r t);
                              (marked, g4) = take_cancelled_marker (entry_id entry) g3
                          in if marked then (Continue, put_ring p r1 (put_state t ts3 sh), g4)
                             else let (was_pending, g5) = take_pending (entry_id entry) g4 in
                               if \<not> was_pending then (Continue, put_ring p r1 (put_state t ts3 sh), g5)
                               else
                                 (Found t task,
                                  put_ring p r1 (put_state t
                                    (ts3\<lparr>deficits := (deficits ts3)(p := deficit - task_cost task)\<rparr>) sh),
                                  record_dequeue clk t task g5)))"

subsection \<open>Shards\<close>

fun visit_ring :: "nat \<Rightarrow> clock \<Rightarrow> priority \<Rightarrow> 'a shard \<Rightarrow> shared \<Rightarrow>
    (tenant_key \<times> 'a task) option \<times> 'a shard \<times> shared" where
  "visit_ring 0 clk p sh g = (None, sh, g)"
| "visit_ring (Suc n) clk p sh g =
    (case visit clk p sh g of
       (Continue, sh1, g1) \<Rightarrow> visit_ring n clk p sh1 g1
     | (Break, sh1, g1) \<Rightarrow> (None, sh1, g1)
     | (Found t task, sh1, g1) \<Rightarrow> (Some (t, task), sh1, g1))"

fun visit_priorities :: "priority list \<Rightarrow> clock \<Rightarrow> 'a shard \<Rightarrow> shared \<Rightarrow>
    (tenant_key \<times> 'a task) option \<times> 'a shard \<times> shared" where
  "visit_priorities [] clk sh g = (None, sh, g)"
| "visit_priorities (p # ps) clk sh g =
    (if ring_is_empty (active_rings sh p) then visit_priorities ps clk sh g
     else case visit_ring (ring_len (active_rings sh p)) clk p sh g of
            (Some found, sh1, g1) \<Rightarrow> (Some found, sh1, g1)
          | (None, sh1, g1) \<Rightarrow> visit_priorities ps clk sh1 g1)"

definition try_dequeue_from_shard :: "clock \<Rightarrow> 'a shard \<Rightarrow> shared \<Rightarrow>
    (tenant_key \<times> 'a task) option \<times> 'a shard \<times> shared" where
  "try_dequeue_from_shard clk sh g = visit_priorities ordered clk sh g"

definition shard_has_work :: "'a shard \<Rightarrow> bool" where
  "shard_has_work sh = list_ex (\<lambda>p. \<not> ring_is_empty (active_rings sh p)) ordered"

text \<open>One turn of a shard: out of the active shards, served, and back when it still has work.\<close>

definition serve_shard :: "clock \<Rightarrow> nat \<Rightarrow> 'a sched \<Rightarrow> (tenant_key \<times> 'a task) option \<times> 'a sched" where
  "serve_shard clk i s =
    (let (found, sh, g) = try_dequeue_from_shard clk (shards s ! i) (shared s);
         s1 = s\<lparr>shared := g, shards := (shards s)[i := sh]\<rparr>;
         s2 = (if shard_has_work sh then s1\<lparr>active_shards := ring_push_back (active_shards s1) i\<rparr>
               else s1\<lparr>shard_active := (shard_active s1)[i := False]\<rparr>)
     in (found, s2))"

fun serve_shards :: "nat \<Rightarrow> clock \<Rightarrow> 'a sched \<Rightarrow> (tenant_key \<times> 'a task) option \<times> 'a sched" where
  "serve_shards 0 clk s = (None, s)"
| "serve_shards (Suc remaining) clk s =
    (case ring_pop_front (active_shards s) of
       (None, r) \<Rightarrow> (None, s\<lparr>active_shards := r\<rparr>)
     | (Some i, r) \<Rightarrow>
         (case serve_shard clk i (s\<lparr>active_shards := r\<rparr>) of
            (Some found, s1) \<Rightarrow> (Some found, s1)
          | (None, s1) \<Rightarrow> serve_shards remaining clk s1))"

definition try_dequeue :: "clock \<Rightarrow> 'a sched \<Rightarrow> 'a dequeue_result \<times> 'a sched" where
  "try_dequeue clk s =
    (if shutdown_state (shared s) = SHUTDOWN_IMMEDIATE then (Closed, s)
     else case serve_shards (ring_len (active_shards s)) clk s of
            (Some (t, task), s1) \<Rightarrow> (DequeuedTask t task, s1)
          | (None, s1) \<Rightarrow> (if should_return_closed (shared s1) then Closed else Empty, s1))"

end
