(* ===== verification/Dequeue_Sound.thy ===== *)
theory Dequeue_Sound
  imports Dequeue Invariant
begin

text \<open>
  What the dequeue loops do to the queues and to the books. \<open>takes\<close> says it of any view of
  the queues (those of a shard, or of the whole scheduler): entries leave from the front,
  each one cancelled, or expired at a clock reading of the call, or the one task that is
  returned. It composes over the visits, the priorities and the shards.
\<close>

type_synonym 'a view = "tenant_key \<Rightarrow> priority \<Rightarrow> 'a queue_entry list"

subsection \<open>Views of the queues\<close>

definition queues_ok :: "shared \<Rightarrow> 'a view \<Rightarrow> bool" where
  "queues_ok g Q \<longleftrightarrow> (\<forall>t p. q_ok g (Q t p)) \<and>
     (\<exists>own. \<forall>t p. \<forall>e \<in> set (Q t p). own (entry_id e) = (t, p))"

definition view_ids :: "'a view \<Rightarrow> nat set" where
  "view_ids Q = (\<Union>t p. set (ids (Q t p)))"

definition all_gone :: "clock \<Rightarrow> shared \<Rightarrow> shared \<Rightarrow> nat set \<Rightarrow> 'a view \<Rightarrow> bool" where
  "all_gone clk g g' R Q \<longleftrightarrow> (\<forall>t p. \<forall>e \<in> set (Q t p). entry_id e \<in> R \<longrightarrow> gone clk g g' e)"

definition delivers :: "clock \<Rightarrow> nat set \<Rightarrow> tenant_key \<Rightarrow> 'a task \<Rightarrow> 'a view \<Rightarrow> shared \<Rightarrow> 'a view \<Rightarrow> shared \<Rightarrow> bool" where
  "delivers clk R t task Q g Q' g' \<longleftrightarrow>
     (\<exists>p pre e. Q t p = pre @ e # Q' t p \<and> entry_task e = task \<and> entry_id e \<in> pending_ids g \<and>
        entry_id e \<in> R \<and> all_gone clk g g' (R - {entry_id e}) Q \<and>
        (\<exists>k. ticks g \<le> k \<and> k < ticks g' \<and> \<not> is_expired (deadline task) (clk k)))"

definition takes :: "clock \<Rightarrow> nat set \<Rightarrow> (tenant_key \<times> 'a task) option \<Rightarrow>
    'a view \<Rightarrow> shared \<Rightarrow> 'a view \<Rightarrow> shared \<Rightarrow> bool" where
  "takes clk R res Q g Q' g' \<longleftrightarrow>
     (\<forall>t p. Q' t p = filter (\<lambda>e. entry_id e \<notin> R) (Q t p)) \<and>
     (\<forall>t p. suffix (Q' t p) (Q t p)) \<and> R \<subseteq> view_ids Q \<and>
     tally 0 (if res = None then 0 else 1) R g g' \<and> ticks g \<le> ticks g' \<and>
     (case res of
        None \<Rightarrow> all_gone clk g g' R Q
      | Some (t, task) \<Rightarrow> delivers clk R t task Q g Q' g')"

lemma takesD:
  assumes "takes clk R res Q g Q' g'"
  shows "Q' t p = filter (\<lambda>e. entry_id e \<notin> R) (Q t p)" and "suffix (Q' t p) (Q t p)"
    and "R \<subseteq> view_ids Q" and "tally 0 (if res = None then 0 else 1) R g g'" and "ticks g \<le> ticks g'"
    and "res = None \<Longrightarrow> all_gone clk g g' R Q"
    and "res = Some (u, task) \<Longrightarrow> delivers clk R u task Q g Q' g'"
  using assms unfolding takes_def by (blast | simp)+

lemma queues_ok_takes:
  assumes "queues_ok g Q" and "takes clk R res Q g Q' g'"
  shows "queues_ok g' Q'"
proof -
  note Q' = takesD(1) [OF assms(2)]
  have pc: "pending_ids g' = pending_ids g - R" "cancelled_ids g' = cancelled_ids g - R"
    using takesD(4) [OF assms(2)] by (simp_all add: tally_def)
  from assms(1) obtain own where own: "\<forall>t p. \<forall>e \<in> set (Q t p). own (entry_id e) = (t, p)"
    and q: "\<And>t p. q_ok g (Q t p)" unfolding queues_ok_def by blast
  have "q_ok g' (Q' t p)" for t p
    using q_ok_filter [OF q, of "\<lambda>e. entry_id e \<notin> R" t p] by (auto simp: Q' q_ok_def pc)
  moreover have "\<forall>t p. \<forall>e \<in> set (Q' t p). own (entry_id e) = (t, p)" using own by (simp add: Q')
  ultimately show ?thesis unfolding queues_ok_def by blast
qed

lemma takes_refl: "takes clk {} None Q g Q g"
  by (simp add: takes_def all_gone_def)

lemma all_gone_trans:
  assumes r: "all_gone clk g h R Q" and s: "all_gone clk h m S Q'"
    and Q': "\<And>t p. Q' t p = filter (\<lambda>e. entry_id e \<notin> R) (Q t p)"
    and c: "cancelled_ids h \<subseteq> cancelled_ids g" and ti: "ticks g \<le> ticks h" "ticks h \<le> ticks m"
  shows "all_gone clk g m (R \<union> S) Q"
  unfolding all_gone_def
proof (intro allI ballI impI)
  fix t p e assume e: "e \<in> set (Q t p)" and i: "entry_id e \<in> R \<union> S"
  show "gone clk g m e"
  proof (cases "entry_id e \<in> R")
    case True
    with r e ti show ?thesis unfolding all_gone_def by (blast intro: gone_later)
  next
    case False
    with e have "e \<in> set (Q' t p)" by (simp add: Q')
    with s i False have "gone clk h m e" unfolding all_gone_def by blast
    then show ?thesis using c ti by (blast intro: gone_earlier)
  qed
qed

lemma takes_trans:
  assumes a: "takes clk R None Q g Q' h" and b: "takes clk S res Q' h Q'' m"
  shows "takes clk (R \<union> S) res Q g Q'' m"
proof -
  note Q' = takesD(1) [OF a] and suf = takesD(2) [OF a] and ti = takesD(5) [OF a]
  note gone = takesD(6) [OF a refl] and ta = takesD(4) [OF a, simplified]
  note Q'' = takesD(1) [OF b] and suf' = takesD(2) [OF b] and tb = takesD(4) [OF b] and ti' = takesD(5) [OF b]
  from ta have c: "cancelled_ids h \<subseteq> cancelled_ids g" and pe: "pending_ids h \<subseteq> pending_ids g"
    by (auto simp: tally_def)
  have "Q'' t p = filter (\<lambda>e. entry_id e \<notin> R \<union> S) (Q t p)" for t p
    by (simp only: Q'' Q' filter_filter Un_iff de_Morgan_disj)
  moreover have "suffix (Q'' t p) (Q t p)" for t p
    using suf' suf by (rule suffix_order.trans)
  moreover have "view_ids Q' \<subseteq> view_ids Q" by (auto simp: view_ids_def Q')
  then have "R \<union> S \<subseteq> view_ids Q" using takesD(3) [OF a] takesD(3) [OF b] by blast
  moreover have "tally 0 (if res = None then 0 else 1) (R \<union> S) g m"
    using tally_trans [OF ta tb] by simp
  moreover have "case res of None \<Rightarrow> all_gone clk g m (R \<union> S) Q
      | Some (t, task) \<Rightarrow> delivers clk (R \<union> S) t task Q g Q'' m"
  proof (cases res)
    case None
    with takesD(6) [OF b] have "all_gone clk h m S Q'" by simp
    with all_gone_trans [OF gone _ Q' c ti ti'] None show ?thesis by simp
  next
    case (Some r)
    obtain t task where r: "r = (t, task)" by fastforce
    with takesD(7) [OF b] Some have "delivers clk S t task Q' h Q'' m" by simp
    then obtain p pre e k where e: "Q' t p = pre @ e # Q'' t p" "entry_task e = task"
      "entry_id e \<in> pending_ids h" "entry_id e \<in> S" "all_gone clk h m (S - {entry_id e}) Q'"
      and k: "ticks h \<le> k" "k < ticks m" "\<not> is_expired (deadline task) (clk k)"
      unfolding delivers_def by blast
    from suf [of t p] e(1) obtain pre0 where pre0: "Q t p = (pre0 @ pre) @ e # Q'' t p"
      unfolding suffix_def by auto
    have "e \<in> set (Q' t p)" using e(1) by simp
    then have "entry_id e \<notin> R" by (simp add: Q')
    then have "R \<union> S - {entry_id e} = R \<union> (S - {entry_id e})" by blast
    with all_gone_trans [OF gone e(5) Q' c ti ti'] have "all_gone clk g m (R \<union> S - {entry_id e}) Q" by simp
    moreover have "ticks g \<le> k" using k(1) ti by simp
    ultimately have "delivers clk (R \<union> S) t task Q g Q'' m"
      unfolding delivers_def using pre0 e(2-4) pe k(2,3) by blast
    then show ?thesis by (simp add: Some r)
  qed
  ultimately show ?thesis using order_trans [OF ti ti'] unfolding takes_def by blast
qed

subsection \<open>Cutting one queue\<close>

text \<open>A view that differs at one queue, which lost the entries of \<open>a\<close> from its front.\<close>

lemma cut_front:
  assumes ok: "queues_ok g Q" and q: "Q t p = a @ b"
    and Q': "\<And>u r. Q' u r = (if u = t \<and> r = p then b else Q u r)"
  shows "Q' u r = filter (\<lambda>e. entry_id e \<notin> set (ids a)) (Q u r)"
    and "suffix (Q' u r) (Q u r)" and "set (ids a) \<subseteq> view_ids Q"
    and "e \<in> set (Q u r) \<Longrightarrow> entry_id e \<in> set (ids a) \<Longrightarrow> e \<in> set a"
proof -
  from ok obtain own where own: "\<And>t p e. e \<in> set (Q t p) \<Longrightarrow> own (entry_id e) = (t, p)"
    unfolding queues_ok_def by blast
  from ok have d: "distinct (ids (a @ b))" unfolding queues_ok_def q_ok_def q [symmetric] by blast
  have a: "x \<in> set (Q t p)" if "x \<in> set a" for x using that by (simp add: q)
  have elsewhere: "entry_id e \<notin> set (ids a)" if "e \<in> set (Q u r)" "(u, r) \<noteq> (t, p)" for e
    using own [OF that(1)] own [OF a] that(2) by (metis (no_types, lifting) image_iff set_map)
  have here: "filter (\<lambda>e. entry_id e \<notin> set (ids a)) (a @ b) = b"
  proof -
    have "filter (\<lambda>e. entry_id e \<notin> set (ids a)) b = b"
      using d by (auto simp: filter_id_conv)
    moreover have "filter (\<lambda>e. entry_id e \<notin> set (ids a)) a = []"
      by (auto simp: filter_empty_conv)
    ultimately show ?thesis by (simp only: filter_append append_Nil)
  qed
  show "Q' u r = filter (\<lambda>e. entry_id e \<notin> set (ids a)) (Q u r)"
  proof (cases "u = t \<and> r = p")
    case True
    with here show ?thesis by (simp add: Q' q del: set_map)
  next
    case False
    then have "filter (\<lambda>e. entry_id e \<notin> set (ids a)) (Q u r) = Q u r"
      using elsewhere by (intro filter_True) blast
    with False show ?thesis unfolding Q' by (simp only: if_False)
  qed
  show "suffix (Q' u r) (Q u r)" by (simp add: Q' q suffix_def)
  show "set (ids a) \<subseteq> view_ids Q" using a by (auto simp: view_ids_def)
  assume e: "e \<in> set (Q u r)" "entry_id e \<in> set (ids a)"
  then have "u = t \<and> r = p" using elsewhere by blast
  with e d show "e \<in> set a" by (auto simp: q)
qed

subsection \<open>The front of a queue\<close>

lemma release_0 [simp]: "release_reserved_slots 0 g = g"
  by (simp add: release_reserved_slots_def)

lemma release_release [simp]:
  "release_reserved_slots m (release_reserved_slots n g) = release_reserved_slots (n + m) g"
  by (simp add: release_reserved_slots_def)

lemma forget_release: "forget R (release_reserved_slots n g) = release_reserved_slots n (forget R g)"
  by (simp add: forget_def release_reserved_slots_def)

lemma release_views [simp]:
  "dead now (release_reserved_slots n g) e = dead now g e"
  "live_count (release_reserved_slots n g) q = live_count g q"
  "q_ok (release_reserved_slots n g) q = q_ok g q"
  by (simp_all add: dead_def live_count_def q_ok_def frame_simps)

lemma dead_release: "dead now (release_reserved_slots n g) = dead now g"
  by (simp add: fun_eq_iff)

lemma saturating_add_assoc: "saturating_add (saturating_add n a) b = saturating_add n (a + b)"
  by (simp add: saturating_add_def)

lemma expire_front_eq:
  assumes "q_ok g q" and "n \<le> u64_max"
  shows "expire_front now q g n =
    (let a = takeWhile (dead now g) q in
     (dropWhile (dead now g) q, release_reserved_slots (live_count g a) (forget (set (ids a)) g),
      saturating_add n (live_count g a)))"
  using assms
proof (induction q arbitrary: g n)
  case Nil
  then show ?case by simp
next
  case (Cons e q)
  let ?a = "takeWhile (dead now g) q" and ?i = "entry_id e"
  from Cons.prems have q: "q_ok (forget {?i} g) q" and xor: "(?i \<in> pending_ids g) \<noteq> (?i \<in> cancelled_ids g)"
    and fresh: "{?i} \<inter> set (ids q) = {}"
    by (auto simp: q_ok_Cons intro: q_ok_forget)
  have tw: "{?i} \<inter> set (ids ?a) = {}" using fresh by (auto dest: set_takeWhileD)
  note df = dead_after_forget [OF fresh] and lf = live_count_forget [OF tw]
  have IH: "expire_front now q (release_reserved_slots d (forget {?i} g)) m =
      (dropWhile (dead now g) q,
       release_reserved_slots (d + live_count g ?a) (forget (insert ?i (set (ids ?a))) g),
       saturating_add m (live_count g ?a))" if "m \<le> u64_max" for d m
    using Cons.IH [of "release_reserved_slots d (forget {?i} g)" m] q that
    by (simp add: dead_release df lf forget_release Let_def)
  show ?case
  proof (cases "dead now g e")
    case False
    with xor have "cancelled_ids g - {?i} = cancelled_ids g" by (auto simp: dead_def)
    with False show ?thesis using Cons.prems(2) by (simp add: dead_def Let_def split_def)
  next
    case True
    have lc: "live_count g (e # r) = (if ?i \<in> pending_ids g then 1 else 0) + live_count g r" for r
      by (simp add: live_count_def)
    show ?thesis
    proof (cases "?i \<in> cancelled_ids g")
      case c: True
      then have fg: "g\<lparr>cancelled_ids := cancelled_ids g - {?i}\<rparr> = forget {?i} g"
        using xor by (simp add: forget_def)
      with c xor IH [of n 0] Cons.prems(2) True show ?thesis by (simp add: Let_def split_def lc fg)
    next
      case c: False
      then have fg: "g\<lparr>pending_ids := pending_ids g - {?i}\<rparr> = forget {?i} g"
        by (simp add: forget_def)
      with c xor IH [of "saturating_add n 1" 1] True show ?thesis
        by (simp add: Let_def split_def lc fg dead_def [of now g e] saturating_add_assoc)
    qed
  qed
qed

text \<open>The front expired, with the counters brought up to date.\<close>

definition expire_books :: "nat \<Rightarrow> shared \<Rightarrow> shared" where
  "expire_books n g = (if 0 < n then notify_all (count_up expired_update n g) else g)"

lemma expire_books_frame [frame_simps]:
  "pending_ids (expire_books n g) = pending_ids g" "cancelled_ids (expire_books n g) = cancelled_ids g"
  "ticks (expire_books n g) = ticks g"
  by (simp_all add: expire_books_def frame_simps)

lemma tally_expire:
  assumes "distinct (ids a)"
  shows "tally 0 0 (set (ids a)) g (expire_books (saturating_add 0 (live_count g a))
    (release_reserved_slots (live_count g a) (forget (set (ids a)) g)))"
proof -
  have n: "live_count g a = card (pending_ids g \<inter> set (ids a))" using assms by (rule live_count_card)
  have "live_count g a \<le> card (pending_ids g)" if "finite (pending_ids g)"
    unfolding n using that by (intro card_mono) auto
  moreover have "bumped 0 (set (ids a)) g (expire_books (saturating_add 0 (live_count g a))
    (release_reserved_slots (live_count g a) (forget (set (ids a)) g)))" (is "bumped 0 ?R g ?g'")
  proof (cases "finite (pending_ids g) \<and> 0 < live_count g a")
    case True
    with n have "pending_ids g \<inter> ?R \<noteq> {}" by auto
    with True show ?thesis
      by (intro bumped_once) (simp_all add: expire_books_def frame_simps saturating_add_def)
  next
    case False
    then show ?thesis
    proof (cases "finite (pending_ids g)")
      case True
      with False n have "pending_ids g \<inter> ?R = {}" by (simp add: card_eq_0_iff)
      with True False show ?thesis by (intro bumped_none) (simp_all add: expire_books_def frame_simps)
    qed (simp add: bumped_def)
  qed
  ultimately show ?thesis
    unfolding tally_def n [symmetric]
    by (auto simp: expire_books_def same_frame_def settled_def frame_simps count_up_def saturating_add_def meters_def)
qed

subsection \<open>One visit\<close>

lemma record_queue_time_frame [frame_simps]:
  "pending_ids (record_queue_time v g) = pending_ids g" "cancelled_ids (record_queue_time v g) = cancelled_ids g"
  "next_task_id (record_queue_time v g) = next_task_id g" "shutdown_state (record_queue_time v g) = shutdown_state g"
  "tenant_quantum (record_queue_time v g) = tenant_quantum g"
  "quantum_provider (record_queue_time v g) = quantum_provider g" "ticks (record_queue_time v g) = ticks g"
  "slots (record_queue_time v g) = slots g" "enqueued (stats (record_queue_time v g)) = enqueued (stats g)"
  "dequeued (stats (record_queue_time v g)) = dequeued (stats g)"
  "expired (stats (record_queue_time v g)) = expired (stats g)"
  "dropped_policy (stats (record_queue_time v g)) = dropped_policy (stats g)"
  by (simp_all add: record_queue_time_def frame_simps split: option.split) (simp_all add: count_up_def)

lemma record_dequeue_frame [frame_simps]:
  "pending_ids (record_dequeue clk t task g) = pending_ids g"
  "cancelled_ids (record_dequeue clk t task g) = cancelled_ids g"
  "ticks (record_dequeue clk t task g) = Suc (ticks g)"
  "slots (record_dequeue clk t task g) = slots g - 1"
  "dequeued (stats (record_dequeue clk t task g)) = saturating_add (dequeued (stats g)) 1"
  "expired (stats (record_dequeue clk t task g)) = expired (stats g)"
  "dropped_policy (stats (record_dequeue clk t task g)) = dropped_policy (stats g)"
  "same_frame g (record_dequeue clk t task g)"
  by (simp_all add: record_dequeue_def Let_def read_clock_def same_frame_def frame_simps)
    (simp_all add: count_up_def frame_simps)

lemma record_dequeue_metered: "metered (Suc 0) g (record_dequeue clk t task g)"
proof (rule metered_1)
  show "meters (record_dequeue clk t task g) = meter (min (clk (ticks g) - enqueue_ts task) u64_max) (meters g)"
    by (cases "bucket_index QUEUE_TIME_BUCKETS_NS (min (clk (ticks g) - enqueue_ts task) u64_max)")
      (simp_all add: record_dequeue_def Let_def read_clock_def meters_def meter_def record_queue_time_def
        count_up_def notify_all_def release_reserved_slots_def saturating_add_def)
qed simp

lemma metered_forget: "metered d (forget R g) g' \<longleftrightarrow> metered d g g'"
  by (simp add: metered_def)

lemma tally_deliver:
  assumes "i \<in> pending_ids g"
  shows "tally 0 1 {i} g (record_dequeue clk t task (forget {i} g))"
proof -
  have "pending_ids g \<inter> {i} = {i}" using assms by auto
  moreover have "0 < card (pending_ids g)" if "finite (pending_ids g)"
    using assms that card_gt_0_iff by blast
  moreover have "same_frame g (forget {i} g)" by (simp add: same_frame_def)
  then have "same_frame g (record_dequeue clk t task (forget {i} g))"
    using record_dequeue_frame(8) by (rule same_frame_trans)
  moreover have "bumped 0 {i} g (record_dequeue clk t task (forget {i} g))"
    using assms by (intro bumped_once) (simp_all add: record_dequeue_def Let_def read_clock_def notify_all_def
        frame_simps record_queue_time_def count_up_def release_reserved_slots_def split: option.split)
  ultimately show ?thesis
    using record_dequeue_metered [of "forget {i} g" clk t task]
    by (auto simp: tally_def frame_simps settled_def saturating_add_def metered_forget)
qed

text \<open>The shared state after the front of a queue has been expired.\<close>

definition after_expiry :: "clock \<Rightarrow> 'a queue_entry list \<Rightarrow> shared \<Rightarrow> shared" where
  "after_expiry clk a g =
    (let g1 = snd (read_clock clk g)
     in expire_books (saturating_add 0 (live_count g a))
          (release_reserved_slots (live_count g a) (forget (set (ids a)) g1)))"

lemma after_expiry_frame [frame_simps]:
  "pending_ids (after_expiry clk a g) = pending_ids g - set (ids a)"
  "cancelled_ids (after_expiry clk a g) = cancelled_ids g - set (ids a)"
  "ticks (after_expiry clk a g) = Suc (ticks g)"
  by (simp_all add: after_expiry_def Let_def frame_simps) (simp add: read_clock_def)

lemma tally_after_expiry:
  assumes "distinct (ids a)"
  shows "tally 0 0 (set (ids a)) g (after_expiry clk a g)"
proof -
  have "live_count (snd (read_clock clk g)) a = live_count g a"
    by (simp add: live_count_def frame_simps)
  then show ?thesis
    using tally_trans [OF tally_read_clock tally_expire [OF assms], of g clk]
    by (simp only: after_expiry_def Let_def add_0 Un_empty_left)
qed

lemma visit_eq:
  assumes pop: "ring_pop_front (active_rings sh p) = (Some t, r)" and ts: "tenants sh t = Some ts"
    and ok: "q_ok g (queues ts p)"
  shows "visit clk p sh g =
    (let a = takeWhile (dead (clk (ticks g)) g) (queues ts p); g3 = after_expiry clk a g in
     case dropWhile (dead (clk (ticks g)) g) (queues ts p) of
       [] \<Rightarrow> (Continue, put_ring p r (put_state t
           (ts\<lparr>queues := (queues ts)(p := []), active := (active ts)(p := False)\<rparr>) sh), g3)
     | e # rest \<Rightarrow>
         if deficits ts p < task_cost (entry_task e) then
           (Continue, put_ring p (ring_push_back r t) (put_state t
             (ts\<lparr>queues := (queues ts)(p := e # rest),
                 deficits := (deficits ts)(p := wrap_i64 (deficits ts p + quantum ts))\<rparr>) sh), g3)
         else
           (Found t (entry_task e),
            put_ring p (if rest = [] then r else ring_push_back r t) (put_state t
             (ts\<lparr>queues := (queues ts)(p := rest),
                 active := (if rest = [] then (active ts)(p := False) else active ts),
                 deficits := (deficits ts)(p := deficits ts p - task_cost (entry_task e))\<rparr>) sh),
            record_dequeue clk t (entry_task e) (forget {entry_id e} g3)))"
proof -
  define g1 where "g1 = snd (read_clock clk g)"
  let ?now = "clk (ticks g)" and ?q = "queues ts p"
  define a b where "a = takeWhile (dead ?now g) ?q" and "b = dropWhile (dead ?now g) ?q"
  have rc: "read_clock clk g = (?now, g1)" by (simp add: g1_def read_clock_def)
  have d: "dead ?now g1 = dead ?now g" and l: "live_count g1 a = live_count g a"
    and ok1: "q_ok g1 ?q" using ok by (simp_all add: g1_def fun_eq_iff dead_def live_count_def q_ok_def frame_simps)
  have ef: "expire_front ?now ?q g1 0 = (b, release_reserved_slots (live_count g a) (forget (set (ids a)) g1),
      saturating_add 0 (live_count g a))"
    using expire_front_eq [OF ok1, of 0 ?now] by (simp add: d l Let_def flip: a_def b_def)
  have ae: "after_expiry clk a g = expire_books (saturating_add 0 (live_count g a))
      (release_reserved_slots (live_count g a) (forget (set (ids a)) g1))"
    by (simp add: after_expiry_def g1_def)
  have g3: "(if 0 < n then notify_all (count_up expired_update n g2) else g2) = expire_books n g2" for n g2
    by (simp add: expire_books_def)
  show ?thesis
  proof (cases b)
    case Nil
    then show ?thesis
      by (simp add: visit_def pop ts rc ef g3 ae Let_def put_state_def flip: a_def b_def)
  next
    case (Cons e rest)
    have "?q = a @ e # rest" using Cons unfolding a_def b_def by (metis takeWhile_dropWhile_id)
    with ok have new: "entry_id e \<notin> set (ids a)" and xor: "(entry_id e \<in> pending_ids g) \<noteq> (entry_id e \<in> cancelled_ids g)"
      by (metis q_ok_Cons q_ok_append Int_iff empty_iff list.set_intros(1) list.simps(9))+
    have "\<not> dead ?now g e" using Cons unfolding b_def by (metis dropWhile_eq_Cons_conv)
    then have c: "entry_id e \<notin> cancelled_ids g" by (simp add: dead_def)
    have m: "take_cancelled_marker (entry_id e) (after_expiry clk a g) = (False, after_expiry clk a g)"
      using c by (simp add: take_cancelled_marker_def frame_simps)
    have w: "take_pending (entry_id e) (after_expiry clk a g) = (True, forget {entry_id e} (after_expiry clk a g))"
      using c xor new by (simp add: take_pending_def forget_def frame_simps)
    show ?thesis
      using m [unfolded ae] w [unfolded ae]
      by (simp add: visit_def pop ts rc ef g3 ae Let_def Cons put_state_def flip: a_def b_def)
  qed
qed

lemma put_simps [simp]:
  "tenants (put_ring p r sh) = tenants sh" "tenants (put_state t ts sh) = (tenants sh)(t \<mapsto> ts)"
  "active_rings (put_ring p r sh) = (active_rings sh)(p := r)"
  "active_rings (put_state t ts sh) = active_rings sh"
  by (simp_all add: put_ring_def put_state_def)

lemma squeue_put [simp]:
  "squeue (put_ring p r sh) u p' = squeue sh u p'"
  "squeue (put_state t ts sh) u p' = (if u = t then queues ts p' else squeue sh u p')"
  by (simp_all add: squeue_def)

lemma visit_shard_inv:
  assumes inv: "shard_inv C sh" and ts: "tenants sh t = Some ts" and r: "ring_inv r"
    and items: "set (ring_items (active_rings sh p)) = insert t (set (ring_items r0))"
      "set (ring_items r0) \<subseteq> set (ring_items r)" "set (ring_items r) \<subseteq> insert t (set (ring_items r0))"
    and other: "\<And>p'. p' \<noteq> p \<Longrightarrow> queues ts' p' = queues ts p' \<and> active ts' p' = active ts p'"
    and len: "length (queues ts' p) \<le> length (queues ts p)"
    and act: "queues ts' p \<noteq> [] \<Longrightarrow> active ts' p" "active ts' p \<Longrightarrow> t \<in> set (ring_items r)"
  shows "shard_inv C (put_ring p r (put_state t ts' sh))"
proof -
  let ?sh = "put_ring p r (put_state t ts' sh)"
  have "length (queues ts' p') \<le> length (queues ts p')" for p'
    using other [of p'] len by (cases "p' = p") simp_all
  then have tl: "total_len ts' \<le> total_len ts" by (rule total_len_mono)
  from inv have inv_r: "\<And>p. ring_inv (active_rings sh p)"
    and dom: "\<And>p. set (ring_items (active_rings sh p)) \<subseteq> dom (tenants sh)"
    and inv_a: "\<And>u us p. tenants sh u = Some us \<Longrightarrow> (queues us p \<noteq> [] \<longrightarrow> active us p) \<and>
        (active us p \<longrightarrow> u \<in> set (ring_items (active_rings sh p)))"
    and inv_l: "\<And>u us. tenants sh u = Some us \<Longrightarrow> total_len us \<le> unat (max_per_tenant C)"
    by (simp_all add: shard_inv_def)
  have "(queues us p' \<noteq> [] \<longrightarrow> active us p') \<and> (active us p' \<longrightarrow> u \<in> set (ring_items (active_rings ?sh p')))"
    if u: "tenants ?sh u = Some us" for u us p'
  proof (cases "u = t")
    case True
    with u have us: "us = ts'" by simp
    show ?thesis
      using act other [of p'] inv_a [OF ts, of p'] True by (cases "p' = p") (simp_all add: us)
  next
    case False
    with u have "tenants sh u = Some us" by simp
    from inv_a [OF this, of p'] False items(1,2) show ?thesis by (cases "p' = p") auto
  qed
  moreover have "total_len us \<le> unat (max_per_tenant C)" if "tenants ?sh u = Some us" for u us
    using that tl inv_l [OF ts] inv_l [of u us] by (cases "u = t") auto
  moreover have "ring_inv (active_rings ?sh p')" for p'
    using inv_r r by simp
  moreover have "set (ring_items (active_rings ?sh p')) \<subseteq> dom (tenants ?sh)" for p'
    using dom [of p'] dom [of p] items by (cases "p' = p") auto
  ultimately show ?thesis unfolding shard_inv_def by blast
qed

primrec found :: "'a visit \<Rightarrow> (tenant_key \<times> 'a task) option" where
  "found Continue = None"
| "found Break = None"
| "found (Found t task) = Some (t, task)"

lemma takes_expired:
  assumes ok: "queues_ok g Q" and q: "Q t p = a @ b" and a: "\<forall>e \<in> set a. dead (clk (ticks g)) g e"
    and Q': "\<And>u r. Q' u r = (if u = t \<and> r = p then b else Q u r)"
  shows "takes clk (set (ids a)) None Q g Q' (after_expiry clk a g)"
proof -
  note cut = cut_front [OF ok q Q']
  have d: "distinct (ids (a @ b))" using ok unfolding queues_ok_def q_ok_def q [symmetric] by blast
  then have "distinct (ids a)" by simp
  then have "tally 0 0 (set (ids a)) g (after_expiry clk a g)" by (rule tally_after_expiry)
  moreover have "all_gone clk g (after_expiry clk a g) (set (ids a)) Q"
    unfolding all_gone_def
  proof (intro allI ballI impI)
    fix u r e assume "e \<in> set (Q u r)" "entry_id e \<in> set (ids a)"
    then have "dead (clk (ticks g)) g e" using cut(4) a by blast
    then show "gone clk g (after_expiry clk a g) e"
      unfolding dead_def gone_def frame_simps by (metis lessI order_refl)
  qed
  ultimately show ?thesis
    unfolding takes_def using cut(1-3) by (simp add: frame_simps del: list.set_map)
qed

lemma takes_delivery:
  assumes ok: "queues_ok g Q" and q: "Q t p = a @ e # b" and a: "\<forall>x \<in> set a. dead (clk (ticks g)) g x"
    and e: "\<not> dead (clk (ticks g)) g e"
    and Q': "\<And>u r. Q' u r = (if u = t \<and> r = p then b else Q u r)"
  shows "takes clk (set (ids a) \<union> {entry_id e}) (Some (t, entry_task e)) Q g Q'
    (record_dequeue clk t (entry_task e) (forget {entry_id e} (after_expiry clk a g)))"
proof -
  let ?Q = "\<lambda>u r. if u = t \<and> r = p then e # b else Q u r" and ?h = "after_expiry clk a g"
  let ?g' = "record_dequeue clk t (entry_task e) (forget {entry_id e} ?h)"
  have t1: "takes clk (set (ids a)) None Q g ?Q ?h"
    using q a by (intro takes_expired [where t = t and p = p and b = "e # b", OF ok]) auto
  note ok1 = queues_ok_takes [OF ok t1]
  have q1: "?Q t p = [e] @ b" by simp
  have Q1: "Q' u r = (if u = t \<and> r = p then b else ?Q u r)" for u r by (simp add: Q')
  note cut = cut_front [OF ok1 q1 Q1]
  have ids: "set (ids [e]) = {entry_id e}" by simp
  have "q_ok ?h (e # b)" using ok1 unfolding queues_ok_def by (metis (mono_tags, lifting))
  moreover have "entry_id e \<notin> cancelled_ids ?h" using e by (simp add: dead_def frame_simps)
  ultimately have pend: "entry_id e \<in> pending_ids ?h" by (simp add: q_ok_Cons)
  have "\<not> is_expired (deadline (entry_task e)) (clk (ticks g))" using e by (simp add: dead_def)
  moreover have "entry_id e \<in> pending_ids g" using pend by (simp add: frame_simps)
  moreover have "all_gone clk g ?g' (set (ids a)) Q"
    unfolding all_gone_def
  proof (intro allI ballI impI)
    fix u r x assume "x \<in> set (Q u r)" "entry_id x \<in> set (ids a)"
    with takesD(6) [OF t1] have "gone clk g ?h x" unfolding all_gone_def by blast
    then show "gone clk g ?g' x" by (rule gone_later) (simp add: frame_simps)
  qed
  moreover have "entry_id e \<notin> set (ids a)"
    using ok unfolding queues_ok_def q_ok_def by (metis (no_types, lifting) q distinct_append
        disjoint_iff list.set_intros(1) list.simps(9) map_append)
  then have "set (ids a) \<union> {entry_id e} - {entry_id e} = set (ids a)" by blast
  moreover have "ticks g < ticks ?g'" by (simp add: frame_simps)
  ultimately have dl: "delivers clk (set (ids a) \<union> {entry_id e}) t (entry_task e) Q g Q' ?g'"
    unfolding delivers_def using q by (intro exI [of _ p] exI [of _ a] exI [of _ e]) (auto simp: Q')
  have "tally 0 1 (set (ids a) \<union> {entry_id e}) g ?g'"
    using tally_trans [OF takesD(4) [OF t1] tally_deliver [OF pend]] by simp
  moreover have "Q' u r = filter (\<lambda>x. entry_id x \<notin> set (ids a) \<union> {entry_id e}) (Q u r)" for u r
    by (simp only: cut(1) ids takesD(1) [OF t1] filter_filter Un_iff de_Morgan_disj)
  moreover have "suffix (Q' u r) (Q u r)" for u r
    using cut(2) takesD(2) [OF t1] by (rule suffix_order.trans)
  moreover have "set (ids a) \<union> {entry_id e} \<subseteq> view_ids Q"
    using takesD(3) [OF t1] q by (auto simp: view_ids_def) (metis in_set_conv_decomp rev_image_eqI)
  ultimately show ?thesis unfolding takes_def using dl by (simp add: frame_simps)
qed

text \<open>A step on a shard: it takes entries from the queues and keeps the invariant and the tenants.\<close>

definition shard_takes :: "config \<Rightarrow> clock \<Rightarrow> (tenant_key \<times> 'a task) option \<Rightarrow> 'a shard \<Rightarrow> shared \<Rightarrow>
    'a shard \<Rightarrow> shared \<Rightarrow> bool" where
  "shard_takes C clk res sh g sh' g' \<longleftrightarrow>
     shard_inv C sh' \<and> dom (tenants sh') = dom (tenants sh) \<and>
     (\<exists>R. takes clk R res (squeue sh) g (squeue sh') g')"

lemma shard_takes_refl: "shard_inv C sh \<Longrightarrow> shard_takes C clk None sh g sh g"
  unfolding shard_takes_def using takes_refl by blast

lemma shard_takes_trans:
  "shard_takes C clk None sh g sh1 g1 \<Longrightarrow> shard_takes C clk res sh1 g1 sh2 g2 \<Longrightarrow> shard_takes C clk res sh g sh2 g2"
  unfolding shard_takes_def using takes_trans by (metis (no_types, lifting))

lemma shard_takes_next:
  "shard_takes C clk res sh g sh' g' \<Longrightarrow> queues_ok g (squeue sh) \<Longrightarrow> shard_inv C sh' \<and> queues_ok g' (squeue sh')"
  unfolding shard_takes_def using queues_ok_takes by blast

lemma visit_sound:
  assumes inv: "shard_inv C sh" and ok: "queues_ok g (squeue sh)" and v: "visit clk p sh g = (v, sh', g')"
  shows "shard_takes C clk (found v) sh g sh' g'"
proof -
  from inv have "ring_inv (active_rings sh p)" by (simp add: shard_inv_def)
  then show ?thesis
  proof (cases rule: ring.pop_push_cases)
    case empty
    then have "v = Break" "g' = g" "sh' = sh"
      using v by (simp_all add: visit_def put_ring_def)
    then show ?thesis using shard_takes_refl [OF inv] by simp
  next
    case (item t r)
    have "set (ring_items (active_rings sh p)) \<subseteq> dom (tenants sh)" using inv by (simp add: shard_inv_def)
    then obtain ts where ts: "tenants sh t = Some ts" by (auto simp: item(3))
    let ?d = "dead (clk (ticks g)) g"
    define a b where "a = takeWhile ?d (queues ts p)" and "b = dropWhile ?d (queues ts p)"
    have q: "squeue sh t p = a @ b" by (simp add: squeue_Some [OF ts] a_def b_def)
    have a: "\<forall>e \<in> set a. ?d e" by (auto simp: a_def dest: set_takeWhileD)
    have qok: "q_ok g (queues ts p)" using ok squeue_Some [OF ts] unfolding queues_ok_def by metis
    note eq = visit_eq [OF item(1) ts qok, of clk, unfolded Let_def, folded a_def b_def]
    have act: "queues ts p \<noteq> [] \<Longrightarrow> active ts p" using inv ts by (simp add: shard_inv_def)
    have len: "length (queues ts p) = length a + length b" by (simp add: a_def b_def flip: length_append)
    have sub: "set (ring_items (active_rings sh p)) = insert t (set (ring_items r))" by (simp add: item(3))
    note step_inv = visit_shard_inv [OF inv ts _ sub]
    have dom: "dom (tenants (put_ring p r' (put_state t ts' sh))) = dom (tenants sh)" for r' ts'
      using ts by auto
    consider (drained) "b = []"
      | (short) e rest where "b = e # rest" "deficits ts p < task_cost (entry_task e)"
      | (serve) e rest where "b = e # rest" "\<not> deficits ts p < task_cost (entry_task e)"
      by (cases b) auto
    then show ?thesis
    proof cases
      case drained
      with v eq have v: "v = Continue" "g' = after_expiry clk a g" and sh': "sh' = put_ring p r (put_state t
          (ts\<lparr>queues := (queues ts)(p := []), active := (active ts)(p := False)\<rparr>) sh)" by simp_all
      have "shard_inv C sh'" unfolding sh' by (rule step_inv) (use item(2) in auto)
      moreover have "takes clk (set (ids a)) None (squeue sh) g (squeue sh') g'"
        unfolding v by (rule takes_expired [where t = t and p = p and b = b, OF ok]) (use q a in \<open>simp_all add: sh' drained squeue_Some [OF ts]\<close>)
      ultimately show ?thesis unfolding shard_takes_def v(1) found.simps sh' dom by blast
    next
      case short
      with v eq have v: "v = Continue" "g' = after_expiry clk a g"
        and sh': "sh' = put_ring p (ring_push_back r t) (put_state t
          (ts\<lparr>queues := (queues ts)(p := e # rest),
              deficits := (deficits ts)(p := wrap_i64 (deficits ts p + quantum ts))\<rparr>) sh)" by simp_all
      have "active ts p" using act short(1) len by fastforce
      then have "shard_inv C sh'" unfolding sh'
        by (intro step_inv) (use item(2) short(1) len in auto)
      moreover have "takes clk (set (ids a)) None (squeue sh) g (squeue sh') g'"
        unfolding v by (rule takes_expired [where t = t and p = p and b = b, OF ok]) (use q a in \<open>simp_all add: sh' short(1) squeue_Some [OF ts]\<close>)
      ultimately show ?thesis unfolding shard_takes_def v(1) found.simps sh' dom by blast
    next
      case serve
      with v eq have v: "v = Found t (entry_task e)"
          "g' = record_dequeue clk t (entry_task e) (forget {entry_id e} (after_expiry clk a g))"
        and sh': "sh' = put_ring p (if rest = [] then r else ring_push_back r t) (put_state t
             (ts\<lparr>queues := (queues ts)(p := rest),
                 active := (if rest = [] then (active ts)(p := False) else active ts),
                 deficits := (deficits ts)(p := deficits ts p - task_cost (entry_task e))\<rparr>) sh)"
        by simp_all
      have e: "\<not> ?d e" using serve(1) unfolding b_def by (metis dropWhile_eq_Cons_conv)
      have "active ts p" using act serve(1) len by fastforce
      then have "shard_inv C sh'" unfolding sh'
        by (intro step_inv) (use item(2) serve(1) len in auto)
      moreover have "takes clk (set (ids a) \<union> {entry_id e}) (Some (t, entry_task e)) (squeue sh) g (squeue sh') g'"
        unfolding v by (rule takes_delivery [where t = t and p = p and b = rest, OF ok])
          (use q a e serve(1) in \<open>simp_all add: sh' squeue_Some [OF ts]\<close>)
      ultimately show ?thesis unfolding shard_takes_def v(1) found.simps sh' dom by blast
    qed
  qed
qed

lemma visit_ring_sound:
  assumes "shard_inv C sh" and "queues_ok g (squeue sh)" and "visit_ring n clk p sh g = (res, sh', g')"
  shows "shard_takes C clk res sh g sh' g'"
  using assms
proof (induction n arbitrary: sh g)
  case 0
  then show ?case by (simp add: shard_takes_refl)
next
  case (Suc n)
  obtain v sh1 g1 where v: "visit clk p sh g = (v, sh1, g1)" by (metis prod_cases3)
  note st = visit_sound [OF Suc.prems(1,2) v]
  show ?case
  proof (cases v)
    case Continue
    with Suc.prems(3) v have "visit_ring n clk p sh1 g1 = (res, sh', g')" by simp
    with Suc.IH shard_takes_next [OF st Suc.prems(2)] have "shard_takes C clk res sh1 g1 sh' g'" by blast
    with st Continue show ?thesis using shard_takes_trans by fastforce
  qed (use st Suc.prems(3) v in simp_all)
qed

lemma visit_priorities_sound:
  assumes "shard_inv C sh" and "queues_ok g (squeue sh)" and "visit_priorities ps clk sh g = (res, sh', g')"
  shows "shard_takes C clk res sh g sh' g'"
  using assms
proof (induction ps arbitrary: sh g)
  case Nil
  then show ?case by (simp add: shard_takes_refl)
next
  case (Cons p ps)
  show ?case
  proof (cases "ring_is_empty (active_rings sh p)")
    case True
    with Cons show ?thesis by simp
  next
    case False
    obtain r sh1 g1 where v: "visit_ring (ring_len (active_rings sh p)) clk p sh g = (r, sh1, g1)"
      by (metis prod_cases3)
    note st = visit_ring_sound [OF Cons.prems(1,2) v]
    show ?thesis
    proof (cases r)
      case None
      with Cons.prems(3) v False have "visit_priorities ps clk sh1 g1 = (res, sh', g')" by simp
      with Cons.IH shard_takes_next [OF st Cons.prems(2)] have "shard_takes C clk res sh1 g1 sh' g'" by blast
      with st None show ?thesis using shard_takes_trans by fastforce
    qed (use st Cons.prems(3) v False in simp)
  qed
qed

subsection \<open>From a shard to the scheduler\<close>

lemma takes_extend:
  assumes ok: "queues_ok g Q" and t: "takes clk R res q g q' g'"
    and inside: "\<And>t p. I t \<Longrightarrow> Q t p = q t p \<and> Q' t p = q' t p"
    and outside: "\<And>t p. \<not> I t \<Longrightarrow> q t p = [] \<and> Q' t p = Q t p"
  shows "takes clk R res Q g Q' g'"
proof -
  from ok obtain own where own: "\<And>t p e. e \<in> set (Q t p) \<Longrightarrow> own (entry_id e) = (t, p)"
    unfolding queues_ok_def by blast
  have at: "I t \<and> e \<in> set (q t p)" if e: "e \<in> set (Q t p)" "entry_id e \<in> R" for t p e
  proof -
    from e(2) takesD(3) [OF t] obtain u r e' where e': "e' \<in> set (q u r)" "entry_id e' = entry_id e"
      by (auto simp: view_ids_def)
    then have "I u" using outside by (metis list.set(1) empty_iff)
    with e' inside have "own (entry_id e) = (u, r)" using own by metis
    with own [OF e(1)] \<open>I u\<close> have "I t" by simp
    with e(1) inside show ?thesis by simp
  qed
  have gone: "all_gone clk g g' S Q" if "all_gone clk g g' S q" "S \<subseteq> R" for S
    using that at unfolding all_gone_def by blast
  have "Q' t p = filter (\<lambda>e. entry_id e \<notin> R) (Q t p)" for t p
  proof (cases "I t")
    case True
    then show ?thesis using takesD(1) [OF \<open>takes clk R res q g q' g'\<close>] inside by simp
  next
    case False
    then have "filter (\<lambda>e. entry_id e \<notin> R) (Q t p) = Q t p" using at by (intro filter_True) blast
    with False outside show ?thesis by simp
  qed
  moreover have "suffix (Q' t p) (Q t p)" for t p
    using takesD(2) [OF \<open>takes clk R res q g q' g'\<close>] inside outside by (cases "I t") simp_all
  moreover have "R \<subseteq> view_ids Q"
  proof
    fix i assume "i \<in> R"
    with takesD(3) [OF t] obtain u r e where e: "e \<in> set (q u r)" "entry_id e = i" by (auto simp: view_ids_def)
    then have "I u" using outside by (metis list.set(1) empty_iff)
    with e inside have "i \<in> set (ids (Q u r))" by auto
    then show "i \<in> view_ids Q" unfolding view_ids_def by blast
  qed
  moreover have "case res of None \<Rightarrow> all_gone clk g g' R Q | Some (t, task) \<Rightarrow> delivers clk R t task Q g Q' g'"
  proof (cases res)
    case None
    with takesD(6) [OF t] gone show ?thesis by simp
  next
    case (Some x)
    obtain u task where x: "x = (u, task)" by fastforce
    with Some takesD(7) [OF t] have d: "delivers clk R u task q g q' g'" by simp
    then obtain p pre e where e: "q u p = pre @ e # q' u p" unfolding delivers_def by blast
    then have "I u" using outside by (metis append_is_Nil_conv list.distinct(1))
    with d gone inside have "delivers clk R u task Q g Q' g'"
      unfolding delivers_def by (metis (no_types, lifting) Diff_subset)
    then show ?thesis by (simp add: Some x)
  qed
  ultimately show ?thesis
    unfolding takes_def using takesD(4,5) [OF t] by blast
qed

lemma ledger_queues_ok: "ledger s \<Longrightarrow> queues_ok (shared s) (sched_queue s)"
  by (simp add: ledger_def queues_ok_def q_ok_def)

lemma ledger_takes:
  assumes "ledger s" and "takes clk R res (sched_queue s) (shared s) (sched_queue s') (shared s')"
  shows "ledger s'"
  using takesD(4) [OF assms(2)] by (intro ledger_take_out [OF assms(1) takesD(1) [OF assms(2)]]) (simp_all add: tally_def)

lemma squeue_shard:
  assumes "placed s" and "i < length (shards s)"
  shows "squeue (shards s ! i) t p = (if shard_index s t = i then sched_queue s t p else [])"
  using assms by (auto simp: sched_queue_def squeue_def placed_def split: option.split)

lemma shard_queues_ok:
  assumes "placed s" and "ledger s" and "i < length (shards s)"
  shows "queues_ok (shared s) (squeue (shards s ! i))"
proof -
  from ledger_queues_ok [OF assms(2)] obtain own
    where "\<And>t p. q_ok (shared s) (sched_queue s t p)"
      and own: "\<forall>t p. \<forall>e \<in> set (sched_queue s t p). own (entry_id e) = (t, p)"
    unfolding queues_ok_def by blast
  moreover from own have "\<forall>t p. \<forall>e \<in> set (squeue (shards s ! i) t p). own (entry_id e) = (t, p)"
    by (simp add: squeue_shard [OF assms(1,3)])
  moreover have "q_ok (shared s) (squeue (shards s ! i) t p)" for t p
    using calculation(1) by (simp add: squeue_shard [OF assms(1,3)])
  ultimately show ?thesis unfolding queues_ok_def by blast
qed

lemma shard_has_work_iff [simp]: "shard_has_work sh \<longleftrightarrow> \<not> rings_empty sh"
  by (auto simp: shard_has_work_def rings_empty_def list_ex_iff list_all_iff)

lemma serve_shard_sound:
  assumes ok: "sched_ok C s" and pop: "ring_pop_front (active_shards s) = (Some i, r)"
    and serve: "serve_shard clk i (s\<lparr>active_shards := r\<rparr>) = (res, s')"
  shows "sched_ok C s' \<and> (\<exists>R. takes clk R res (sched_queue s) (shared s) (sched_queue s') (shared s'))"
proof -
  from ok have pl: "placed s" and si: "\<And>j. j < length (shards s) \<Longrightarrow> shard_inv C (shards s ! j)"
    and ac: "active_inv s" and le: "ledger s" by (simp_all add: sched_ok_def)
  from ac have ri: "ring_inv (active_shards s)" and dis: "distinct (ring_items (active_shards s))"
    and its: "set (ring_items (active_shards s)) = {i. i < length (shards s) \<and> \<not> rings_empty (shards s ! i)}"
    and fl: "\<forall>i < length (shards s). shard_active s ! i = (\<not> rings_empty (shards s ! i))"
    by (simp_all add: active_inv_def)
  from ring.pop_SomeD [OF ri pop] have items: "ring_items (active_shards s) = i # ring_items r" and r: "ring_inv r"
    by simp_all
  with its have il: "i < length (shards s)" and ne: "\<not> rings_empty (shards s ! i)" by auto
  obtain sh g where d: "try_dequeue_from_shard clk (shards s ! i) (shared s) = (res, sh, g)"
    and s': "s' = (let s1 = s\<lparr>active_shards := r, shared := g, shards := (shards s)[i := sh]\<rparr>
      in if rings_empty sh then s1\<lparr>shard_active := (shard_active s1)[i := False]\<rparr>
         else s1\<lparr>active_shards := ring_push_back r i\<rparr>)"
    using serve by (auto simp: serve_shard_def Let_def split: prod.splits)
  have st: "shard_takes C clk res (shards s ! i) (shared s) sh g"
    using visit_priorities_sound [OF si [OF il] shard_queues_ok [OF pl le il]] d
    by (simp add: try_dequeue_from_shard_def)
  then obtain R where R: "takes clk R res (squeue (shards s ! i)) (shared s) (squeue sh) g"
    and inv: "shard_inv C sh" and dom: "dom (tenants sh) = dom (tenants (shards s ! i))"
    unfolding shard_takes_def by blast
  have sh_s': "shards s' = (shards s)[i := sh]" and g: "shared s' = g"
    and la: "length (shard_active s') = length (shard_active s)"
    by (simp_all add: s' Let_def)
  have ix: "shard_index s' t = shard_index s t" for t by (simp add: shard_index_def sh_s')
  have "placed s'"
    using dom il by (intro placed_cong [OF pl]) (auto simp: sh_s' la nth_list_update)
  moreover have "\<forall>j < length (shards s'). shard_inv C (shards s' ! j)"
    using si inv il by (simp add: sh_s' nth_list_update)
  moreover have "active_inv s'"
  proof (cases "rings_empty sh")
    case True
    then have ac': "active_shards s' = r" "shard_active s' = (shard_active s)[i := False]"
      by (simp_all add: s' Let_def)
    have "set (ring_items r) = {j. j < length (shards s) \<and> \<not> rings_empty (shards s ! j)} - {i}"
      using dis its by (auto simp: items)
    then show ?thesis
      using r dis fl il True pl unfolding active_inv_def ac' sh_s'
      by (auto simp: items nth_list_update placed_def)
  next
    case False
    then have ac': "active_shards s' = ring_push_back r i" "shard_active s' = shard_active s"
      by (simp_all add: s' Let_def)
    have "insert i (set (ring_items r)) = {j. j < length (shards s) \<and> \<not> rings_empty (shards s ! j)}"
      using its by (simp add: items)
    then show ?thesis
      using r dis fl il False ne unfolding active_inv_def ac' sh_s'
      by (auto simp: items nth_list_update)
  qed
  moreover have tk: "takes clk R res (sched_queue s) (shared s) (sched_queue s') (shared s')"
    unfolding g
  proof (rule takes_extend [where I = "\<lambda>t. shard_index s t = i", OF ledger_queues_ok [OF le] R])
    fix t p
    show "shard_index s t = i \<Longrightarrow> sched_queue s t p = squeue (shards s ! i) t p \<and> sched_queue s' t p = squeue sh t p"
      using il by (simp add: sched_queue_def ix sh_s')
    show "shard_index s t \<noteq> i \<Longrightarrow> squeue (shards s ! i) t p = [] \<and> sched_queue s' t p = sched_queue s t p"
      using squeue_shard [OF pl il] by (simp add: sched_queue_def ix sh_s')
  qed
  moreover have "ledger s'" by (rule ledger_takes [OF le tk])
  ultimately show ?thesis unfolding sched_ok_def by blast
qed

lemma serve_shards_sound:
  assumes "sched_ok C s" and "serve_shards n clk s = (res, s')"
  shows "sched_ok C s' \<and> (\<exists>R. takes clk R res (sched_queue s) (shared s) (sched_queue s') (shared s'))"
  using assms
proof (induction n arbitrary: s)
  case 0
  then show ?case using takes_refl by fastforce
next
  case (Suc n)
  from Suc.prems(1) have ri: "ring_inv (active_shards s)" by (simp add: sched_ok_def active_inv_def)
  then show ?case
  proof (cases rule: ring.pop_push_cases)
    case empty
    then have "res = None" "s' = s" using Suc.prems(2) by auto
    then show ?thesis using Suc.prems(1) takes_refl by fastforce
  next
    case (item i r)
    obtain res1 s1 where sv: "serve_shard clk i (s\<lparr>active_shards := r\<rparr>) = (res1, s1)" by fastforce
    from serve_shard_sound [OF Suc.prems(1) item(1) sv] obtain R where ok1: "sched_ok C s1"
      and R: "takes clk R res1 (sched_queue s) (shared s) (sched_queue s1) (shared s1)" by blast
    show ?thesis
    proof (cases res1)
      case None
      with Suc.prems(2) item(1) sv have "serve_shards n clk s1 = (res, s')" by simp
      with Suc.IH [OF ok1] obtain S where "sched_ok C s'"
        and S: "takes clk S res (sched_queue s1) (shared s1) (sched_queue s') (shared s')" by blast
      with takes_trans [OF R [unfolded None] S] show ?thesis by blast
    next
      case (Some x)
      with Suc.prems(2) item(1) sv have "res = res1" "s' = s1" by simp_all
      with ok1 R show ?thesis by blast
    qed
  qed
qed

subsection \<open>\<open>try_dequeue\<close>\<close>

definition dequeued_of :: "'a dequeue_result \<Rightarrow> (tenant_key \<times> 'a task) option" where
  "dequeued_of r = (case r of DequeuedTask t task \<Rightarrow> Some (t, task) | _ \<Rightarrow> None)"

lemma try_dequeue_sound:
  assumes "sched_ok C s" and "try_dequeue clk s = (r, s')"
  shows "sched_ok C s' \<and> (\<exists>R. takes clk R (dequeued_of r) (sched_queue s) (shared s) (sched_queue s') (shared s'))"
proof (cases "shutdown_state (shared s) = 2")
  case True
  with assms have "r = Closed" "s' = s" by (simp_all add: try_dequeue_def)
  then show ?thesis using assms(1) takes_refl by (fastforce simp: dequeued_of_def)
next
  case False
  obtain res s1 where sv: "serve_shards (ring_len (active_shards s)) clk s = (res, s1)" by fastforce
  with False assms(2) have "s' = s1" and "dequeued_of r = res"
    by (auto simp: try_dequeue_def dequeued_of_def split: option.splits if_splits prod.splits)
  with serve_shards_sound [OF assms(1) sv] show ?thesis by simp
qed

lemma try_dequeue_books:
  assumes ok: "sched_ok C s" and bk: "books C 0 a d c (shared s)" and call: "try_dequeue clk s = (r, s')"
  shows "books C 0 a (d + (if dequeued_of r = None then 0 else 1)) c (shared s')"
proof -
  from try_dequeue_sound [OF ok call] obtain R
    where "takes clk R (dequeued_of r) (sched_queue s) (shared s) (sched_queue s') (shared s')" by blast
  from books_tally_shrink [OF bk takesD(4) [OF this]] show ?thesis .
qed
end
