(* ===== verification/Scheduler.thy ===== *)
theory Scheduler
  imports Enqueue_Sound Dequeue_Sound
begin

text \<open>
  The public operations of \<open>Scheduler\<close> in \<open>scheduler.rs\<close>, one definition each, and the
  system they form: an operation is one step, a run is any interleaving of the operations
  of any number of callers. A call that waits is several steps, one for each attempt, with
  the steps of other callers between them (theory \<open>Blocking\<close>).
\<close>

subsection \<open>Construction\<close>

definition scheduler_new :: "config \<Rightarrow> 'a sched" where
  "scheduler_new C =
    (let shard_count = max 1 (unat (cfg_shards C)) in
     \<lparr>shared =
        \<lparr>stats = stats_counters_new, signal_seq = 0, shutdown_state = SHUTDOWN_OPEN,
         top_tenants = top_tenants_new (unat (top_tenants_capacity C)),
         tenant_quantum = quantum_by_tenant C, quantum_provider = cfg_quantum_provider C,
         next_task_id = 0, pending_ids = {}, cancelled_ids = {}, ticks = 0\<rparr>,
      shards = replicate shard_count shard_new,
      active_shards = ring_new,
      shard_active = replicate shard_count False\<rparr>)"

subsection \<open>Quantum overrides\<close>

definition refresh_tenant_quantum :: "config \<Rightarrow> tenant_key \<Rightarrow> 'a sched \<Rightarrow> 'a sched" where
  "refresh_tenant_quantum C t s =
    (let q = as_i64 (quantum_for C t (shared s));
         i = shard_index s t;
         sh = shards s ! i
     in case tenants sh t of
          None \<Rightarrow> s
        | Some ts \<Rightarrow> s\<lparr>shards := (shards s)[i := sh\<lparr>tenants := (tenants sh)(t \<mapsto> ts\<lparr>quantum := q\<rparr>)\<rparr>]\<rparr>)"

definition set_tenant_quantum :: "config \<Rightarrow> tenant_key \<Rightarrow> u64 \<Rightarrow> 'a sched \<Rightarrow> 'a sched" where
  "set_tenant_quantum C t q s =
    (let value = max q 1;
         g = shared s
     in refresh_tenant_quantum C t (s\<lparr>shared := g\<lparr>tenant_quantum := (tenant_quantum g)(t \<mapsto> value)\<rparr>\<rparr>))"

definition clear_tenant_quantum :: "config \<Rightarrow> tenant_key \<Rightarrow> 'a sched \<Rightarrow> 'a sched" where
  "clear_tenant_quantum C t s =
    (let g = shared s
     in refresh_tenant_quantum C t (s\<lparr>shared := g\<lparr>tenant_quantum := (tenant_quantum g)(t := None)\<rparr>\<rparr>))"

definition set_quantum_provider :: "config \<Rightarrow> quantum_provider option \<Rightarrow> 'a sched \<Rightarrow> 'a sched" where
  "set_quantum_provider C provider s =
    (let g = (shared s)\<lparr>quantum_provider := provider\<rparr>
     in s\<lparr>shared := g,
          shards := map (\<lambda>sh. sh\<lparr>tenants := (\<lambda>t. map_option (\<lambda>ts. ts\<lparr>quantum := as_i64 (quantum_for C t g)\<rparr>)
                                                          (tenants sh t))\<rparr>) (shards s)\<rparr>)"

subsection \<open>Enqueue, cancel, close\<close>

text \<open>
  \<open>enqueue_with_handle\<close> for the three policies that answer at once; a waiting policy is
  \<open>None\<close> here and dispatched in theory \<open>Blocking\<close>.
\<close>

definition enqueue_now :: "config \<Rightarrow> clock \<Rightarrow> tenant_key \<Rightarrow> 'a task \<Rightarrow> 'a sched \<Rightarrow>
    (enqueue_with_handle_result \<times> 'a sched) option" where
  "enqueue_now C clk t task s =
    (case backpressure_for C t of
       Reject \<Rightarrow> Some (enqueue_reject_with_handle C clk t task s)
     | DropOldestPerTenant \<Rightarrow> Some (enqueue_drop_with_handle C clk Oldest t task s)
     | DropNewestPerTenant \<Rightarrow> Some (enqueue_drop_with_handle C clk Newest t task s)
     | Timeout d \<Rightarrow> None)"

fun enqueue_answer :: "enqueue_with_handle_result \<Rightarrow> enqueue_result" where
  "enqueue_answer (Enqueued h) = EnqEnqueued"
| "enqueue_answer (Rejected r) = EnqRejected r"
| "enqueue_answer EnqueueClosed = EnqClosed"

definition cancel :: "task_handle \<Rightarrow> 'a sched \<Rightarrow> cancel_result \<times> 'a sched" where
  "cancel h s =
    (let id = handle_id h;
         (was_pending, g1) = take_pending id (shared s)
     in if was_pending
        then (Cancelled, s\<lparr>shared := notify_all (release_reserved_slots 1 (mark_cancelled id g1))\<rparr>)
        else (NotFound, s\<lparr>shared := g1\<rparr>))"

definition close_with_mode :: "close_mode \<Rightarrow> 'a sched \<Rightarrow> 'a sched" where
  "close_with_mode mode s = s\<lparr>shared := set_shutdown_mode mode (shared s)\<rparr>"

definition close_immediate :: "'a sched \<Rightarrow> 'a sched" where
  "close_immediate s = close_with_mode Immediate s"

definition close_drain :: "'a sched \<Rightarrow> 'a sched" where
  "close_drain s = close_with_mode Drain s"

definition close :: "'a sched \<Rightarrow> 'a sched" where
  "close s = close_immediate s"

subsection \<open>The system\<close>

text \<open>
  The steps. \<open>Attempt\<close> and \<open>GiveUp\<close> are the steps of an enqueue that waits: one call of
  \<open>enqueue_try_reject\<close>, and the timeout that ends it; \<open>LookAtClock\<close> is its clock reads.
\<close>

datatype 'a op =
    EnqueueNow tenant_key "'a task"
  | Attempt tenant_key "'a task"
  | GiveUp
  | LookAtClock
  | Dequeue
  | Cancel task_handle
  | Close close_mode
  | SetQuantum tenant_key u64
  | ClearQuantum tenant_key
  | SetProvider "quantum_provider option"

datatype 'a answer =
    Accepted task_handle
  | NotAccepted
  | Delivered tenant_key "'a task"
  | NoTask "'a dequeue_result"
  | CancelDone
  | Done

fun enqueue_output :: "enqueue_with_handle_result \<Rightarrow> 'a answer" where
  "enqueue_output (Enqueued h) = Accepted h"
| "enqueue_output r = NotAccepted"

fun attempt_output :: "'a enqueue_attempt \<Rightarrow> 'a answer" where
  "attempt_output (AttemptEnqueued h) = Accepted h"
| "attempt_output r = NotAccepted"

fun dequeue_output :: "'a dequeue_result \<Rightarrow> 'a answer" where
  "dequeue_output (DequeuedTask t task) = Delivered t task"
| "dequeue_output r = NoTask r"

fun cancel_output :: "cancel_result \<Rightarrow> 'a answer" where
  "cancel_output Cancelled = CancelDone"
| "cancel_output NotFound = Done"

fun exec :: "config \<Rightarrow> clock \<Rightarrow> 'a op \<Rightarrow> 'a sched \<Rightarrow> 'a answer \<times> 'a sched" where
  "exec C clk (EnqueueNow t task) s =
    (case enqueue_now C clk t task s of None \<Rightarrow> (NotAccepted, s) | Some (r, s') \<Rightarrow> (enqueue_output r, s'))"
| "exec C clk (Attempt t task) s = (let (r, s') = enqueue_try_reject C clk t task s in (attempt_output r, s'))"
| "exec C clk GiveUp s = (NotAccepted, s\<lparr>shared := record_reject TimedOut (shared s)\<rparr>)"
| "exec C clk LookAtClock s = (Done, s\<lparr>shared := snd (read_clock clk (shared s))\<rparr>)"
| "exec C clk Dequeue s = (let (r, s') = try_dequeue clk s in (dequeue_output r, s'))"
| "exec C clk (Cancel h) s = (let (r, s') = cancel h s in (cancel_output r, s'))"
| "exec C clk (Close mode) s = (Done, close_with_mode mode s)"
| "exec C clk (SetQuantum t q) s = (Done, set_tenant_quantum C t q s)"
| "exec C clk (ClearQuantum t) s = (Done, clear_tenant_quantum C t s)"
| "exec C clk (SetProvider f) s = (Done, set_quantum_provider C f s)"

text \<open>A run, with the outputs so far.\<close>

definition run_step :: "config \<Rightarrow> clock \<Rightarrow> 'a op \<Rightarrow> 'a answer list \<times> 'a sched \<Rightarrow> 'a answer list \<times> 'a sched" where
  "run_step C clk e = (\<lambda>(os, s). let (out, s') = exec C clk e s in (os @ [out], s'))"

definition run :: "config \<Rightarrow> clock \<Rightarrow> 'a op list \<Rightarrow> 'a answer list \<times> 'a sched" where
  "run C clk es = fold (run_step C clk) es ([], scheduler_new C)"

fun is_accepted :: "'a answer \<Rightarrow> bool" where
  "is_accepted (Accepted h) = True"
| "is_accepted out = False"

fun is_delivered :: "'a answer \<Rightarrow> bool" where
  "is_delivered (Delivered t task) = True"
| "is_delivered out = False"

fun is_cancelled :: "'a answer \<Rightarrow> bool" where
  "is_cancelled CancelDone = True"
| "is_cancelled out = False"

definition count_out :: "('a answer \<Rightarrow> bool) \<Rightarrow> 'a answer list \<Rightarrow> nat" where
  "count_out P os = length (filter P os)"

end
