(* ===== verification/Scheduler_Sound.thy ===== *)
theory Scheduler_Sound
  imports Scheduler
begin

text \<open>
  Every operation keeps the invariant and the books, and so every run does: the model is a
  \<open>counted_system\<close>, whose invariant after \<open>n\<close> steps is \<open>run_inv\<close>. The runs considered are
  shorter than \<open>u64_max\<close> steps, so no identifier wraps and no counter saturates.
\<close>

subsection \<open>Construction\<close>

lemma rings_empty_new [simp]: "rings_empty shard_new"
  by (simp add: rings_empty_def shard_new_def list_all_iff)

lemma scheduler_new_ok: "sched_ok C (scheduler_new C :: 'a sched)"
proof -
  let ?n = "max 1 (unat (cfg_shards C))"
  have sh: "shards (scheduler_new C :: 'a sched) = replicate ?n shard_new" by (simp add: scheduler_new_def Let_def)
  have q: "sched_queue (scheduler_new C :: 'a sched) t p = []" for t p
    by (simp add: sched_queue_def sh shard_index_def)
  have "shard_inv C (shard_new :: 'a shard)" by (simp add: shard_inv_def shard_new_def)
  moreover have "placed (scheduler_new C :: 'a sched)"
    by (simp add: placed_def scheduler_new_def Let_def shard_new_def)
  moreover have "active_inv (scheduler_new C :: 'a sched)"
    by (simp add: active_inv_def scheduler_new_def Let_def)
  moreover have "pending_ids (shared (scheduler_new C :: 'a sched)) = {}"
    "cancelled_ids (shared (scheduler_new C :: 'a sched)) = {}"
    by (simp_all add: scheduler_new_def Let_def)
  then have "ledger (scheduler_new C :: 'a sched)" by (simp add: ledger_def q)
  ultimately show ?thesis by (simp add: sched_ok_def sh)
qed

lemma scheduler_new_books: "books C 0 0 0 0 (shared (scheduler_new C))"
  by (simp add: books_def scheduler_new_def Let_def settled_def sampled_def meters_def stats_counters_new_def)

subsection \<open>Operations that leave the queues alone\<close>

text \<open>Two states with the same queues, rings and flags, whatever the quanta and deficits.\<close>

definition same_work :: "'a shard \<Rightarrow> 'a shard \<Rightarrow> bool" where
  "same_work sh sh' \<longleftrightarrow> active_rings sh' = active_rings sh \<and> dom (tenants sh') = dom (tenants sh) \<and>
     (\<forall>t ts ts'. tenants sh t = Some ts \<longrightarrow> tenants sh' t = Some ts' \<longrightarrow>
        queues ts' = queues ts \<and> active ts' = active ts)"

lemma same_work_refl [simp]: "same_work sh sh"
  by (simp add: same_work_def)

lemma same_work_squeue:
  assumes "same_work sh sh'"
  shows "squeue sh' t p = squeue sh t p"
proof (cases "tenants sh t")
  case None
  then have "t \<notin> dom (tenants sh')" using assms by (simp add: same_work_def domIff)
  with None show ?thesis by (simp add: squeue_def domIff)
next
  case (Some ts)
  then have "t \<in> dom (tenants sh')" using assms by (simp add: same_work_def domIff)
  then obtain ts' where "tenants sh' t = Some ts'" by blast
  moreover from this Some assms have "queues ts' = queues ts" unfolding same_work_def by blast
  ultimately show ?thesis using Some by (simp add: squeue_def)
qed

lemma same_work_inv:
  assumes "same_work sh sh'" and "shard_inv C sh"
  shows "shard_inv C sh'"
proof -
  have prev: "\<exists>ts. tenants sh t = Some ts \<and> queues ts' = queues ts \<and> active ts' = active ts"
    if "tenants sh' t = Some ts'" for t ts'
    using assms(1) that unfolding same_work_def by (metis domD domI)
  have r: "active_rings sh' = active_rings sh" and d: "dom (tenants sh') = dom (tenants sh)"
    using assms(1) by (simp_all add: same_work_def)
  have "(queues ts' p \<noteq> [] \<longrightarrow> active ts' p) \<and>
      (active ts' p \<longrightarrow> t \<in> set (ring_items (active_rings sh' p))) \<and> total_len ts' \<le> unat (max_per_tenant C)"
    if "tenants sh' t = Some ts'" for t ts' p
  proof -
    from prev [OF that] obtain ts where "tenants sh t = Some ts" "queues ts' = queues ts" "active ts' = active ts"
      by blast
    with assms(2) show ?thesis by (simp add: shard_inv_def r total_len_def)
  qed
  then have "\<forall>t ts' p. tenants sh' t = Some ts' \<longrightarrow> (queues ts' p \<noteq> [] \<longrightarrow> active ts' p) \<and>
        (active ts' p \<longrightarrow> t \<in> set (ring_items (active_rings sh' p)))"
    and "\<forall>t ts'. tenants sh' t = Some ts' \<longrightarrow> total_len ts' \<le> unat (max_per_tenant C)" by blast+
  moreover have "(\<forall>p. ring_inv (active_rings sh' p)) \<and> (\<forall>p. set (ring_items (active_rings sh' p)) \<subseteq> dom (tenants sh'))"
    using assms(2) unfolding shard_inv_def r d by (elim conjE) (intro conjI)
  ultimately show ?thesis unfolding shard_inv_def by (intro conjI) (simp_all only: simp_thms)
qed

lemma sched_ok_same:
  assumes ok: "sched_ok C s" and len: "length (shards s') = length (shards s)"
    and same: "\<And>i. i < length (shards s) \<Longrightarrow> same_work (shards s ! i) (shards s' ! i)"
    and a: "active_shards s' = active_shards s" "shard_active s' = shard_active s"
    and led: "ledger s \<Longrightarrow> (\<And>t p. sched_queue s' t p = sched_queue s t p) \<Longrightarrow> ledger s'"
  shows "sched_ok C s'"
proof -
  from ok have pl: "placed s" and ac: "active_inv s" and le: "ledger s"
    and si: "\<And>i. i < length (shards s) \<Longrightarrow> shard_inv C (shards s ! i)" by (simp_all add: sched_ok_def)
  have "sched_queue s' t p = sched_queue s t p" for t p
    using same_work_squeue [OF same [OF shard_index_less [OF pl]]] shard_index_cong [OF len]
    by (simp add: sched_queue_def)
  with led le have "ledger s'" by blast
  moreover have "placed s'"
    using same a by (intro placed_cong [OF pl len]) (simp_all add: same_work_def)
  moreover have "rings_empty (shards s' ! i) = rings_empty (shards s ! i)" if "i < length (shards s)" for i
    using same [OF that] by (simp add: rings_empty_def same_work_def)
  with ac have "active_inv s'" by (auto simp: active_inv_def a len)
  moreover have "shard_inv C (shards s' ! i)" if "i < length (shards s)" for i
    using same_work_inv [OF same [OF that] si [OF that]] .
  ultimately show ?thesis by (simp add: sched_ok_def len)
qed

lemma ledger_same:
  assumes "ledger s" and "\<And>t p. sched_queue s' t p = sched_queue s t p"
    and "pending_ids (shared s') = pending_ids (shared s)" "cancelled_ids (shared s') = cancelled_ids (shared s)"
  shows "ledger s'"
  using assms(1) unfolding ledger_def assms(2-4) .

lemma refresh_ok:
  assumes "sched_ok C s"
  shows "sched_ok C (refresh_tenant_quantum C t s) \<and> shared (refresh_tenant_quantum C t s) = shared s"
proof -
  have "shared (refresh_tenant_quantum C t s) = shared s"
    by (simp add: refresh_tenant_quantum_def Let_def split: option.split)
  moreover have "sched_ok C (refresh_tenant_quantum C t s)"
    using shard_index_less [of s t] assms
    by (intro sched_ok_same [OF assms])
      (auto simp: refresh_tenant_quantum_def Let_def same_work_def nth_list_update sched_ok_def
        intro: ledger_same split: option.split if_splits)
  ultimately show ?thesis by simp
qed

lemma books_frame:
  "books C k a d c g \<Longrightarrow> pending_ids g' = pending_ids g \<Longrightarrow> cancelled_ids g' = cancelled_ids g \<Longrightarrow>
    stats g' = stats g \<Longrightarrow> next_task_id g' = next_task_id g \<Longrightarrow> shutdown_state g' \<le> 2 \<Longrightarrow> books C k a d c g'"
  by (simp add: books_def settled_def sampled_def meters_def)

lemma set_tenant_quantum_ok:
  assumes "sched_ok C s" and "books C 0 a d c (shared s)"
  shows "sched_ok C (set_tenant_quantum C t q s) \<and> books C 0 a d c (shared (set_tenant_quantum C t q s))"
proof -
  let ?g = "(shared s)\<lparr>tenant_quantum := (tenant_quantum (shared s))(t \<mapsto> max q 1)\<rparr>"
  have "sched_ok C (s\<lparr>shared := ?g\<rparr>)" using assms(1) by (rule sched_ok_shared) simp_all
  moreover have "books C 0 a d c ?g"
    using assms(2) by (rule books_frame) (use assms(2) in \<open>simp_all add: books_def\<close>)
  ultimately show ?thesis using refresh_ok [of C "s\<lparr>shared := ?g\<rparr>" t] by (simp add: set_tenant_quantum_def Let_def)
qed

lemma clear_tenant_quantum_ok:
  assumes "sched_ok C s" and "books C 0 a d c (shared s)"
  shows "sched_ok C (clear_tenant_quantum C t s) \<and> books C 0 a d c (shared (clear_tenant_quantum C t s))"
proof -
  let ?g = "(shared s)\<lparr>tenant_quantum := (tenant_quantum (shared s))(t := None)\<rparr>"
  have "sched_ok C (s\<lparr>shared := ?g\<rparr>)" using assms(1) by (rule sched_ok_shared) simp_all
  moreover have "books C 0 a d c ?g"
    using assms(2) by (rule books_frame) (use assms(2) in \<open>simp_all add: books_def\<close>)
  ultimately show ?thesis using refresh_ok [of C "s\<lparr>shared := ?g\<rparr>" t] by (simp add: clear_tenant_quantum_def Let_def)
qed

lemma set_quantum_provider_ok:
  assumes "sched_ok C s" and "books C 0 a d c (shared s)"
  shows "sched_ok C (set_quantum_provider C f s) \<and> books C 0 a d c (shared (set_quantum_provider C f s))"
proof -
  have "sched_ok C (set_quantum_provider C f s)"
    by (rule sched_ok_same [OF assms(1)])
      (auto simp: set_quantum_provider_def Let_def same_work_def domIff intro: ledger_same)
  moreover have "books C 0 a d c (shared (set_quantum_provider C f s))"
    using assms(2) by (rule books_frame) (use assms(2) in \<open>simp_all add: books_def set_quantum_provider_def Let_def\<close>)
  ultimately show ?thesis ..
qed

subsection \<open>Cancel and close\<close>

lemma set_shutdown_frame [frame_simps]:
  "pending_ids (set_shutdown_mode m g) = pending_ids g" "cancelled_ids (set_shutdown_mode m g) = cancelled_ids g"
  "stats (set_shutdown_mode m g) = stats g" "next_task_id (set_shutdown_mode m g) = next_task_id g"
  "ticks (set_shutdown_mode m g) = ticks g"
  "shutdown_state (set_shutdown_mode m g) = shutdown_next (shutdown_state g) (shutdown_target m)"
  by (simp_all add: set_shutdown_mode_def Let_def frame_simps)

lemma close_ok:
  assumes "sched_ok C s" and "books C 0 a d c (shared s)"
  shows "sched_ok C (close_with_mode m s) \<and> books C 0 a d c (shared (close_with_mode m s))"
proof -
  have "shutdown_next (shutdown_state (shared s)) (shutdown_target m) \<le> 2"
    using assms(2) by (cases m) (simp_all add: shutdown_next_def books_def)
  then have "books C 0 a d c (set_shutdown_mode m (shared s))"
    using assms(2) by (intro books_frame [OF assms(2)]) (simp_all add: frame_simps)
  then show ?thesis
    using sched_ok_shared [OF assms(1), of "set_shutdown_mode m (shared s)"]
    by (simp add: close_with_mode_def frame_simps)
qed

lemma cancel_ok:
  assumes ok: "sched_ok C s" and bk: "books C 0 a d c (shared s)" and call: "cancel h s = (r, s')"
  shows "sched_ok C s' \<and> books C 0 a d (c + (if r = Cancelled then 1 else 0)) (shared s')"
proof (cases "handle_id h \<in> pending_ids (shared s)")
  case False
  then have "r = NotFound \<and> s' = s" using call by (auto simp: cancel_def take_pending_def Let_def)
  with ok bk show ?thesis by simp
next
  case True
  let ?i = "handle_id h" and ?P = "pending_ids (shared s)"
  from True call have r: "r = Cancelled" and s': "s' = s\<lparr>shared := shared s'\<rparr>"
    and pc: "pending_ids (shared s') = ?P - {?i}"
      "cancelled_ids (shared s') = insert ?i (cancelled_ids (shared s))"
    and fr: "slots (shared s') = slots (shared s) - 1" "settled (shared s') = settled (shared s)"
      "next_task_id (shared s') = next_task_id (shared s)"
      "shutdown_state (shared s') = shutdown_state (shared s)"
      "enqueued (stats (shared s')) = enqueued (stats (shared s))"
      "dequeued (stats (shared s')) = dequeued (stats (shared s))" "meters (shared s') = meters (shared s)"
    by (auto simp: cancel_def take_pending_def Let_def mark_cancelled_def frame_simps settled_def)
  have "sched_ok C (s\<lparr>shared := shared s'\<rparr>)"
  proof (rule sched_ok_same [OF ok])
    assume le: "ledger s" and q: "\<And>t p. sched_queue (s\<lparr>shared := shared s'\<rparr>) t p = sched_queue s t p"
    from le True have sub: "insert ?i (pending_ids (shared s) \<union> cancelled_ids (shared s)) \<subseteq>
        (\<Union>t p. set (ids (sched_queue s t p)))" unfolding ledger_def by blast
    have "?P - {?i} \<union> insert ?i (cancelled_ids (shared s)) \<subseteq> (\<Union>t p. set (ids (sched_queue s t p)))"
      using sub by blast
    moreover have "(entry_id e \<in> ?P - {?i}) \<noteq> (entry_id e \<in> insert ?i (cancelled_ids (shared s)))"
      if "e \<in> set (sched_queue s t p)" for e t p
    proof -
      have "(entry_id e \<in> ?P) \<noteq> (entry_id e \<in> cancelled_ids (shared s))"
        using le that unfolding ledger_def by blast
      with True show ?thesis by blast
    qed
    moreover have "(\<forall>t p. distinct (ids (sched_queue s t p))) \<and>
        (\<exists>own. \<forall>t p. \<forall>e \<in> set (sched_queue s t p). own (entry_id e) = (t, p))"
      using le unfolding ledger_def by (elim conjE) (intro conjI)
    ultimately show "ledger (s\<lparr>shared := shared s'\<rparr>)"
      unfolding ledger_def q by (simp add: pc)
  qed simp_all
  moreover have "card ?P = Suc (card (?P - {?i}))" if "finite ?P"
    using card.remove [OF that True] .
  then have "books C 0 a d (c + 1) (shared s')"
    using bk True unfolding books_def by (auto simp: fr pc elim: sampled_same)
  ultimately show ?thesis by (simp add: r flip: s')
qed

subsection \<open>Every step, every run\<close>

abbreviation tick :: "bool \<Rightarrow> nat" where
  "tick b \<equiv> (if b then 1 else 0)"

lemma enqueue_now_sound:
  assumes ok: "sched_ok C s" and bk: "books C 0 a d c (shared s)" and a: "a < u64_max"
    and call: "enqueue_now C clk t task s = Some (r, s')"
  shows "\<exists>V. sound_as C clk V a d c t task (accepted_id r) s s'"
proof (cases "backpressure_for C t")
  case Reject
  with call enqueue_reject_sound [OF ok bk a] show ?thesis
    by (intro exI [of _ "{}"]) (simp add: enqueue_now_def)
qed (use call enqueue_drop_sound [OF ok bk a] in \<open>force simp: enqueue_now_def\<close>)+

text \<open>
  What a step does, besides keeping the invariant: the books move by its answer, and the
  only id that can become pending is the fresh one of a task it accepts.
\<close>

definition step_sound :: "config \<Rightarrow> nat \<Rightarrow> nat \<Rightarrow> nat \<Rightarrow> 'a answer \<Rightarrow> 'a sched \<Rightarrow> 'a sched \<Rightarrow> bool" where
  "step_sound C a d c out s s' \<longleftrightarrow> sched_ok C s' \<and>
     books C 0 (a + tick (is_accepted out)) (d + tick (is_delivered out)) (c + tick (is_cancelled out)) (shared s') \<and>
     (\<forall>h. out = Accepted h \<longrightarrow> h = TaskHandle (Suc a)) \<and>
     pending_ids (shared s') \<subseteq> pending_ids (shared s) \<union> (if is_accepted out then {Suc a} else {})"

lemma step_sound_enqueue:
  assumes "sound_as C clk V a d c t task new s s'"
  shows "new = None \<Longrightarrow> step_sound C a d c NotAccepted s s'"
    and "new = Some (handle_id h) \<Longrightarrow> step_sound C a d c (Accepted h) s s'"
  using assms by (auto simp: sound_as_def step_sound_def enqueues_def) (metis task_handle.collapse)

lemma step_sound_quiet:
  assumes "sched_ok C s'" and "books C 0 a d c (shared s')" and "pending_ids (shared s') \<subseteq> pending_ids (shared s)"
    and "\<not> is_accepted out" "\<not> is_delivered out" "\<not> is_cancelled out"
  shows "step_sound C a d c out s s'"
  using assms by (auto simp: step_sound_def)

lemma dequeue_step_sound:
  assumes ok: "sched_ok C s" and bk: "books C 0 a d c (shared s)" and call: "try_dequeue clk s = (r, s')"
  shows "step_sound C a d c (dequeue_output r) s s'"
proof -
  from try_dequeue_sound [OF ok call] obtain R where "sched_ok C s'"
    and R: "takes clk R (dequeued_of r) (sched_queue s) (shared s) (sched_queue s') (shared s')" by blast
  moreover from takesD(4) [OF R] have "pending_ids (shared s') \<subseteq> pending_ids (shared s)"
    by (auto simp: tally_def)
  ultimately show ?thesis
    using try_dequeue_books [OF ok bk call] by (cases r) (simp_all add: step_sound_def dequeued_of_def)
qed

lemma cancel_step_sound:
  assumes ok: "sched_ok C s" and bk: "books C 0 a d c (shared s)" and call: "cancel h s = (r, s')"
  shows "step_sound C a d c (cancel_output r) s s'"
proof -
  have "pending_ids (shared s') \<subseteq> pending_ids (shared s)"
    using call by (auto simp: cancel_def take_pending_def Let_def mark_cancelled_def frame_simps split: if_splits)
  with cancel_ok [OF ok bk call] show ?thesis by (cases r) (simp_all add: step_sound_def)
qed

lemma exec_sound:
  assumes ok: "sched_ok C s" and bk: "books C 0 a d c (shared s)" and a: "a < u64_max"
    and call: "exec C clk e s = (out, s')"
  shows "step_sound C a d c out s s'"
proof (cases e)
  case (EnqueueNow t task)
  show ?thesis
  proof (cases "enqueue_now C clk t task s")
    case None
    with call EnqueueNow ok bk show ?thesis by (auto intro: step_sound_quiet)
  next
    case (Some x)
    obtain r s1 where x: "x = (r, s1)" by fastforce
    with call EnqueueNow Some enqueue_now_sound [OF ok bk a Some [unfolded x]] show ?thesis
      by (cases r) (auto dest: step_sound_enqueue)
  qed
next
  case (Attempt t task)
  obtain r s1 where x: "enqueue_try_reject C clk t task s = (r, s1)" by fastforce
  with call Attempt enqueue_try_reject_sound [OF ok bk a x] show ?thesis
    by (cases r) (auto dest: step_sound_enqueue)
next
  case GiveUp
  with call sched_ok_shared [OF ok, of "record_reject TimedOut (shared s)"] books_reject [OF bk, of TimedOut]
  show ?thesis by (intro step_sound_quiet) (auto simp: count_up_def)
next
  case LookAtClock
  with call sched_ok_shared [OF ok, of "snd (read_clock clk (shared s))"]
    books_tally_shrink [OF bk tally_read_clock [of _ clk]] show ?thesis
    by (intro step_sound_quiet) (auto simp: frame_simps)
next
  case Dequeue
  with call dequeue_step_sound [OF ok bk] show ?thesis by (auto split: prod.splits)
next
  case (Cancel h)
  with call cancel_step_sound [OF ok bk] show ?thesis by (auto split: prod.splits)
next
  case (Close m)
  with call close_ok [OF ok bk, of m] show ?thesis
    by (intro step_sound_quiet) (auto simp: close_with_mode_def frame_simps)
next
  case (SetQuantum t q)
  have "pending_ids (shared (set_tenant_quantum C t q s)) = pending_ids (shared s)"
    by (simp add: set_tenant_quantum_def refresh_tenant_quantum_def Let_def split: option.split)
  with SetQuantum call set_tenant_quantum_ok [OF ok bk, of t q] show ?thesis by (intro step_sound_quiet) auto
next
  case (ClearQuantum t)
  have "pending_ids (shared (clear_tenant_quantum C t s)) = pending_ids (shared s)"
    by (simp add: clear_tenant_quantum_def refresh_tenant_quantum_def Let_def split: option.split)
  with ClearQuantum call clear_tenant_quantum_ok [OF ok bk, of t] show ?thesis by (intro step_sound_quiet) auto
next
  case (SetProvider f)
  have "pending_ids (shared (set_quantum_provider C f s)) = pending_ids (shared s)"
    by (simp add: set_quantum_provider_def Let_def)
  with SetProvider call set_quantum_provider_ok [OF ok bk, of f] show ?thesis by (intro step_sound_quiet) auto
qed

fun handles :: "'a answer list \<Rightarrow> task_handle list" where
  "handles [] = []"
| "handles (Accepted h # os) = h # handles os"
| "handles (out # os) = handles os"

definition run_inv :: "config \<Rightarrow> nat \<Rightarrow> 'a answer list \<times> 'a sched \<Rightarrow> bool" where
  "run_inv C n = (\<lambda>(os, s). sched_ok C s \<and> count_out is_accepted os \<le> n \<and>
     books C 0 (count_out is_accepted os) (count_out is_delivered os) (count_out is_cancelled os) (shared s) \<and>
     handles os = map TaskHandle [1..<Suc (count_out is_accepted os)])"

lemma count_out_snoc: "count_out P (os @ [out]) = count_out P os + tick (P out)"
  by (simp add: count_out_def)

lemma handles_append: "handles (os @ os') = handles os @ handles os'"
  by (induction os rule: handles.induct) auto

lemma handles_snoc: "handles (os @ [out]) = handles os @ (case out of Accepted h \<Rightarrow> [h] | _ \<Rightarrow> [])"
  by (simp add: handles_append split: answer.split)

interpretation runs: counted_system "([], scheduler_new C) :: 'a answer list \<times> 'a sched" "run_step C clk"
  "run_inv C" u64_max for C clk
proof unfold_locales
  show "run_inv C 0 ([], scheduler_new C)"
    by (simp add: run_inv_def count_out_def scheduler_new_ok scheduler_new_books)
  fix n and x :: "'a answer list \<times> 'a sched" and e
  assume inv: "run_inv C n x" and n: "n < u64_max"
  obtain os s where x: "x = (os, s)" by fastforce
  obtain out s' where ex: "exec C clk e s = (out, s')" by fastforce
  from inv n have "count_out is_accepted os < u64_max" by (simp add: run_inv_def x)
  with exec_sound [OF _ _ this ex] inv show "run_inv C (Suc n) (run_step C clk e x)"
    by (cases out) (auto simp: run_inv_def x run_step_def ex count_out_snoc handles_snoc step_sound_def)
qed

lemma run_inv_run:
  assumes "length es \<le> u64_max" and "run C clk es = (os, s)"
  shows "sched_ok C s" and "count_out is_accepted os \<le> length es"
    and "books C 0 (count_out is_accepted os) (count_out is_delivered os) (count_out is_cancelled os) (shared s)"
    and "handles os = map TaskHandle [1..<Suc (count_out is_accepted os)]"
  using runs.inv_run [OF assms(1), of C clk] assms(2) by (simp_all add: run_def run_inv_def)

subsection \<open>What a task can no longer do\<close>

lemma cancel_gone:
  assumes "cancel h s = (Cancelled, s')"
  shows "handle_id h \<in> pending_ids (shared s)" and "handle_id h \<notin> pending_ids (shared s')"
    and "next_task_id (shared s') = next_task_id (shared s)"
  using assms by (auto simp: cancel_def take_pending_def Let_def mark_cancelled_def frame_simps split: if_splits)

text \<open>An id that was given out and is not pending never becomes pending again.\<close>

lemma never_pending_again:
  assumes "run_inv C n (os, s)" and "i \<notin> pending_ids (shared s)" and "i \<le> next_task_id (shared s)"
    and "n + length es \<le> u64_max" and "fold (run_step C clk) es (os, s) = (os', s')"
  shows "i \<notin> pending_ids (shared s') \<and> run_inv C (n + length es) (os', s')"
  using assms
proof (induction es arbitrary: n os s)
  case Nil
  then show ?case by simp
next
  case (Cons e es)
  obtain out s1 where ex: "exec C clk e s = (out, s1)" by fastforce
  let ?a = "count_out is_accepted os"
  from Cons.prems(1) have inv: "sched_ok C s" "?a \<le> n"
    and bk: "books C 0 ?a (count_out is_delivered os) (count_out is_cancelled os) (shared s)"
    by (simp_all add: run_inv_def)
  with Cons.prems(4) have a: "?a < u64_max" by simp
  from exec_sound [OF inv(1) bk a ex] have st: "step_sound C ?a (count_out is_delivered os) (count_out is_cancelled os) out s s1" .
  have nxt: "next_task_id (shared s) = ?a" using bk by (simp add: books_def)
  with st Cons.prems(2,3) have "i \<notin> pending_ids (shared s1)"
    by (auto simp: step_sound_def split: if_splits)
  moreover have "i \<le> next_task_id (shared s1)"
    using st Cons.prems(3) nxt by (simp add: step_sound_def books_def split: if_splits)
  moreover have rs: "run_step C clk e (os, s) = (os @ [out], s1)" by (simp add: run_step_def ex)
  then have "run_inv C (Suc n) (os @ [out], s1)"
    using runs.inv_step [OF Cons.prems(1), of clk e] Cons.prems(4) by simp
  moreover have "fold (run_step C clk) es (os @ [out], s1) = (os', s')"
    using Cons.prems(5) rs by simp
  ultimately show ?case using Cons.IH [of "Suc n" "os @ [out]" s1] Cons.prems(4) by simp
qed

text \<open>What a dequeue returns, and what it removes besides.\<close>

lemma delivered_entry:
  assumes ok: "sched_ok C s" and call: "try_dequeue clk s = (DequeuedTask t task, s')"
  shows "\<exists>p pre e. sched_queue s t p = pre @ e # sched_queue s' t p \<and> entry_task e = task \<and>
    entry_id e \<in> pending_ids (shared s) \<and> entry_id e \<notin> pending_ids (shared s') \<and>
    (\<forall>x \<in> set pre. gone clk (shared s) (shared s') x) \<and>
    (\<exists>k. ticks (shared s) \<le> k \<and> k < ticks (shared s') \<and> \<not> is_expired (deadline task) (clk k))"
proof -
  from ok have le: "ledger s" by (simp add: sched_ok_def)
  from try_dequeue_sound [OF ok call] obtain R where
    R: "takes clk R (Some (t, task)) (sched_queue s) (shared s) (sched_queue s') (shared s')"
    by (auto simp: dequeued_of_def)
  from takesD(7) [OF R refl] obtain p pre e where q: "sched_queue s t p = pre @ e # sched_queue s' t p"
    and e: "entry_task e = task" "entry_id e \<in> pending_ids (shared s)" "entry_id e \<in> R"
    and gone: "all_gone clk (shared s) (shared s') (R - {entry_id e}) (sched_queue s)"
    and k: "\<exists>k. ticks (shared s) \<le> k \<and> k < ticks (shared s') \<and> \<not> is_expired (deadline task) (clk k)"
    unfolding delivers_def by blast
  have d: "distinct (ids (pre @ e # sched_queue s' t p))"
    using ledger_q_ok [OF le, of t p] unfolding q_ok_def q by blast
  have "gone clk (shared s) (shared s') x" if x: "x \<in> set pre" for x
  proof -
    have "entry_id x \<in> R"
    proof (rule ccontr)
      assume "entry_id x \<notin> R"
      with x have "x \<in> set (filter (\<lambda>e. entry_id e \<notin> R) (sched_queue s t p))" by (simp add: q)
      then have "x \<in> set (sched_queue s' t p)" by (simp only: takesD(1) [OF R])
      with d x show False by auto
    qed
    moreover have "entry_id x \<in> set (ids pre)" "entry_id e \<notin> set (ids pre)" using d x by auto
    then have "entry_id x \<noteq> entry_id e" by metis
    ultimately show ?thesis using gone x q unfolding all_gone_def
      by (metis Diff_iff Un_iff empty_iff insert_iff set_append)
  qed
  moreover have "entry_id e \<notin> pending_ids (shared s')"
    using takesD(4) [OF R] e(3) by (simp add: tally_def)
  ultimately show ?thesis using q e(1,2) k by blast
qed

lemma removed_by_dequeue:
  assumes ok: "sched_ok C s" and call: "try_dequeue clk s = (r, s')"
    and e: "e \<in> set (sched_queue s t p)" "e \<notin> set (sched_queue s' t p)"
  shows "gone clk (shared s) (shared s') e \<or> r = DequeuedTask t (entry_task e)"
proof -
  from ok have le: "ledger s" by (simp add: sched_ok_def)
  from try_dequeue_sound [OF ok call] obtain R where
    R: "takes clk R (dequeued_of r) (sched_queue s) (shared s) (sched_queue s') (shared s')" by blast
  have i: "entry_id e \<in> R" using e by (simp add: takesD(1) [OF R])
  show ?thesis
  proof (cases "dequeued_of r")
    case None
    with takesD(6) [OF R] e i show ?thesis unfolding all_gone_def by blast
  next
    case (Some x)
    then obtain u task where r: "r = DequeuedTask u task" "x = (u, task)"
      by (auto simp: dequeued_of_def split: dequeue_result.splits)
    with takesD(7) [OF R] Some obtain p' pre x where x: "sched_queue s u p' = pre @ x # sched_queue s' u p'"
      "entry_task x = task" and gone: "all_gone clk (shared s) (shared s') (R - {entry_id x}) (sched_queue s)"
      unfolding delivers_def by metis
    show ?thesis
    proof (cases "entry_id e = entry_id x")
      case True
      with ledger_disjoint [OF le e(1), of x u p'] x r show ?thesis by simp
    next
      case False
      with gone e i show ?thesis unfolding all_gone_def by blast
    qed
  qed
qed

end
