(* ===== verification/Scenario.thy ===== *)
theory Scenario
  imports Scheduler_Sound
begin

text \<open>
  A small configuration, clock and set of tasks on which the properties are instantiated,
  and the rules that evaluate a run of them.
\<close>

definition demo_config :: config where
  "demo_config = default_config\<lparr>max_global := 3, max_per_tenant := 2\<rparr>"

definition demo_drop_config :: config where
  "demo_drop_config = default_config\<lparr>max_global := 1, backpressure := DropOldestPerTenant\<rparr>"

definition demo_clock :: clock where
  "demo_clock = (\<lambda>n. 100 + n)"

definition demo_task :: "nat \<Rightarrow> nat task" where
  "demo_task n = \<lparr>payload = n, enqueue_ts = 0, deadline = None, prio = Normal, cost = 1\<rparr>"

definition late_task :: "nat \<Rightarrow> nat task" where
  "late_task n = \<lparr>payload = n, enqueue_ts = 0, deadline = Some 50, prio = Normal, cost = 1\<rparr>"

abbreviation tenant7 :: tenant_key where
  "tenant7 \<equiv> TenantKey 7"

abbreviation demo_run :: "nat op list \<Rightarrow> nat answer list \<times> nat sched" where
  "demo_run es \<equiv> run demo_config demo_clock es"

lemmas eval_setup = run_def run_step_def scheduler_new_def demo_config_def demo_drop_config_def
  demo_task_def late_task_def demo_clock_def default_config_def Let_def shard_new_def tenant_state_new_def
  stats_counters_new_def top_tenants_new_def ring_new_def ordered_def QUEUE_TIME_BUCKETS_NS_def
  ENQUEUE_PURGE_INTERVAL_def ENQUEUE_PURGE_NEAR_LIMIT_PERCENT_def ENQUEUE_PURGE_SCAN_BUDGET_FULL_def
  ENQUEUE_PURGE_SCAN_BUDGET_NEAR_def saturating_add_def saturating_add32_def saturating_mul128_def
  wrapping_inc_def as_i64_def wrap_i64_def

lemmas eval_enqueue = enqueue_now_def backpressure_for_def enqueue_reject_with_handle_def
  enqueue_try_reject_def is_accepting_enqueues_def shard_index_def tenant_entry_def quantum_for_def
  maybe_purge_tenant_before_enqueue_def is_tenant_near_limit_def total_len_def reserve_or_purge_def
  try_reserve_slot_def enqueue_accept_def next_handle_def register_pending_def put_tenant_def
  activate_shard_def rings_empty_def ring_is_empty_def ring_len_def ring_push_back_def count_up_def
  notify_all_def purge_tenant_for_enqueue_def read_clock_def purge_tenant_with_budget_def
  purge_queue_with_budget_def record_enqueue_purge_stats_def purge_stats_default_def
  take_cancelled_marker_def purge_scan.simps release_reserved_slots_def removed_expired_def
  removed_cancelled_def take_pending_def is_expired_def remove_at_def enqueue_drop_with_handle_def
  drop_from_tenant_def clear_cancelled_marker_def record_policy_drop_def

lemmas eval_dequeue = try_dequeue_def serve_shard_def try_dequeue_from_shard_def visit_def put_ring_def
  put_state_def task_cost_def record_dequeue_def record_queue_time_def should_return_closed_def
  tt_record_def min_entry_def pick_min_def shard_has_work_def ring_pop_front_def

lemmas eval_control = cancel_def mark_cancelled_def close_with_mode_def set_shutdown_mode_def
  shutdown_next_def set_tenant_quantum_def clear_tenant_quantum_def refresh_tenant_quantum_def
  set_quantum_provider_def

lemmas eval = eval_setup eval_enqueue eval_dequeue eval_control

end
