(* ===== verification/Stats.thy ===== *)
theory Stats
  imports Scenario Complex_Main
begin

text \<open>
  The metrics snapshot: \<open>Scheduler::stats\<close> of \<open>scheduler.rs\<close> with \<open>SchedulerStats\<close> and
  \<open>QueueTimeBucket\<close> of \<open>api.rs\<close>. The two places where the code computes with \<open>f64\<close> (the
  percentile's target and the saturation ratio) are modelled bit for bit: a non-negative
  \<open>f64\<close> is a mantissa and a binary exponent, and every operation rounds to 53 bits, ties to
  even. The values that occur are far from the limits of the exponent.
\<close>

subsection \<open>Non-negative binary floating point\<close>

text \<open>\<open>F64 m e\<close> is the number \<open>m * 2 powi e\<close>.\<close>

datatype f64 = F64 (mant: nat) (expo: int)

fun bit_len :: "nat \<Rightarrow> nat" where
  "bit_len n = (if n = 0 then 0 else Suc (bit_len (n div 2)))"

declare bit_len.simps [simp del]

definition f64_round :: "nat \<Rightarrow> int \<Rightarrow> f64" where
  "f64_round m e =
    (let k = bit_len m - 53; q = m div 2 ^ k; r = m mod 2 ^ k
     in if k = 0 then F64 m e
        else if 2 ^ k < 2 * r \<or> (2 * r = 2 ^ k \<and> odd q) then F64 (q + 1) (e + int k)
        else F64 q (e + int k))"

text \<open>The cast of an unsigned integer, the product, the quotient.\<close>

definition as_f64 :: "nat \<Rightarrow> f64" where
  "as_f64 n = f64_round n 0"

definition f64_mult :: "f64 \<Rightarrow> f64 \<Rightarrow> f64" where
  "f64_mult a b = f64_round (mant a * mant b) (expo a + expo b)"

text \<open>The quotient is taken to more than 54 bits, with a last bit that says whether it is exact.\<close>

definition f64_div :: "f64 \<Rightarrow> f64 \<Rightarrow> f64" where
  "f64_div a b =
    (let s = 55 + bit_len (mant b);
         n = mant a * 2 ^ s;
         q = n div mant b;
         sticky = (if n mod mant b = 0 then 0 else 1)
     in f64_round (2 * q + sticky) (expo a - expo b - int s - 1))"

definition f64_ceil :: "f64 \<Rightarrow> nat" where
  "f64_ceil a =
    (if 0 \<le> expo a then mant a * 2 ^ nat (expo a)
     else (mant a + 2 ^ nat (- expo a) - 1) div 2 ^ nat (- expo a))"

text \<open>The cast \<open>as u64\<close> of a float saturates.\<close>

definition f64_as_u64 :: "nat \<Rightarrow> nat" where
  "f64_as_u64 n = min n u64_max"

text \<open>The literals \<open>0.95\<close> and \<open>0.99\<close>.\<close>

definition PCT_95 :: f64 where
  "PCT_95 = F64 8556839292003942 (- 53)"

definition PCT_99 :: f64 where
  "PCT_99 = F64 8917127262193582 (- 53)"

subsection \<open>The snapshot\<close>

record queue_time_bucket =
  le_ns :: nat
  bucket_count :: nat

record scheduler_stats =
  st_enqueued :: nat
  st_dequeued :: nat
  st_expired :: nat
  st_dropped :: nat
  st_rejected_global :: nat
  st_rejected_tenant :: nat
  st_timeout_rejected :: nat
  st_dropped_policy :: nat
  st_queue_len_estimate :: nat
  st_max_global :: nat
  st_queue_saturation_ratio :: f64
  st_queue_time_sum_ns :: nat
  st_queue_time_samples :: nat
  st_queue_time_p95_ns :: nat
  st_queue_time_p99_ns :: nat
  st_queue_time_histogram :: "queue_time_bucket list"
  st_top_tenants :: "tenant_count list"

definition histogram :: "stats_counters \<Rightarrow> queue_time_bucket list" where
  "histogram c =
    map (\<lambda>(idx, bound). \<lparr>le_ns = bound, bucket_count = queue_time_buckets c ! idx\<rparr>)
      (enumerate 0 QUEUE_TIME_BUCKETS_NS)"

text \<open>The loop over the buckets, with the running sum.\<close>

fun first_reaching :: "nat \<Rightarrow> nat \<Rightarrow> queue_time_bucket list \<Rightarrow> nat option" where
  "first_reaching target cumulative [] = None"
| "first_reaching target cumulative (b # bs) =
    (let cumulative' = saturating_add cumulative (bucket_count b)
     in if target \<le> cumulative' then Some (le_ns b) else first_reaching target cumulative' bs)"

definition percentile_target :: "nat \<Rightarrow> f64 \<Rightarrow> nat" where
  "percentile_target n pct = f64_as_u64 (f64_ceil (f64_mult (as_f64 n) pct))"

definition total_samples :: "queue_time_bucket list \<Rightarrow> nat" where
  "total_samples h = sum_list (map bucket_count h) mod 2 ^ 64"

definition percentile :: "queue_time_bucket list \<Rightarrow> f64 \<Rightarrow> nat" where
  "percentile h pct =
    (let n = total_samples h in
     if n = 0 then 0
     else case first_reaching (percentile_target n pct) 0 h of
            Some bound \<Rightarrow> bound
          | None \<Rightarrow> (if h = [] then 0 else le_ns (last h)))"

definition stats_snapshot :: "config \<Rightarrow> shared \<Rightarrow> scheduler_stats" where
  "stats_snapshot C g =
    (let c = stats g;
         h = histogram c;
         maxg = unat (max_global C)
     in \<lparr>st_enqueued = enqueued c, st_dequeued = dequeued c, st_expired = expired c,
         st_dropped = dropped c, st_rejected_global = rejected_global c,
         st_rejected_tenant = rejected_tenant c, st_timeout_rejected = timeout_rejected c,
         st_dropped_policy = dropped_policy c, st_queue_len_estimate = queue_len_estimate c,
         st_max_global = maxg,
         st_queue_saturation_ratio =
           (if maxg = 0 then F64 0 0 else f64_div (as_f64 (queue_len_estimate c)) (as_f64 maxg)),
         st_queue_time_sum_ns = queue_time_sum_ns c, st_queue_time_samples = queue_time_samples c,
         st_queue_time_p95_ns = percentile h PCT_95, st_queue_time_p99_ns = percentile h PCT_99,
         st_queue_time_histogram = h, st_top_tenants = snapshot (top_tenants g)\<rparr>)"

subsection \<open>The histogram\<close>

lemma bucket_index_max: "u64_max \<in> set bs \<Longrightarrow> v \<le> u64_max \<Longrightarrow> bucket_index bs v \<noteq> None"
  by (induction bs v rule: bucket_index.induct) auto

lemma bucket_index_Some:
  "bucket_index bs v = Some i \<Longrightarrow> i < length bs \<and> v \<le> bs ! i \<and> (\<forall>j < i. bs ! j < v)"
proof (induction bs v arbitrary: i rule: bucket_index.induct)
  case (2 b bs v)
  show ?case
  proof (cases "v \<le> b")
    case False
    with "2.prems" obtain j where j: "bucket_index bs v = Some j" "i = Suc j" by auto
    from "2.IH" [OF False j(1)] False show ?thesis
      by (auto simp: j(2) less_Suc_eq_0_disj)
  qed (use "2.prems" in simp)
qed simp

text \<open>
  A queue time lands in exactly one bucket, the first whose bound is not below it; the
  others are untouched, and no other counter moves.
\<close>

theorem queue_time_one_bucket:
  assumes "length (queue_time_buckets (stats g)) = length QUEUE_TIME_BUCKETS_NS" and "v \<le> u64_max"
  shows "\<exists>i < length QUEUE_TIME_BUCKETS_NS. v \<le> QUEUE_TIME_BUCKETS_NS ! i \<and>
    (\<forall>j < i. QUEUE_TIME_BUCKETS_NS ! j < v) \<and>
    record_queue_time v g = stats_update (queue_time_buckets_update
      (\<lambda>bs. bs[i := saturating_add (bs ! i) 1])) g"
proof -
  have "u64_max \<in> set QUEUE_TIME_BUCKETS_NS" by (simp add: QUEUE_TIME_BUCKETS_NS_def)
  then obtain i where i: "bucket_index QUEUE_TIME_BUCKETS_NS v = Some i"
    using bucket_index_max assms(2) by blast
  with bucket_index_Some [OF i] show ?thesis
    by (intro exI [of _ i]) (simp add: record_queue_time_def count_up_def)
qed

theorem queue_time_one_bucket_witness:
  "\<exists>i. record_queue_time 75000 (shared (scheduler_new demo_config :: nat sched)) =
    stats_update (queue_time_buckets_update (\<lambda>bs. bs[i := saturating_add (bs ! i) 1]))
      (shared (scheduler_new demo_config :: nat sched)) \<and> 75000 \<le> QUEUE_TIME_BUCKETS_NS ! i"
proof -
  let ?g = "shared (scheduler_new demo_config :: nat sched)"
  have "length (queue_time_buckets (stats ?g)) = length QUEUE_TIME_BUCKETS_NS"
    by (simp add: scheduler_new_def Let_def stats_counters_new_def)
  from queue_time_one_bucket [OF this, of 75000] show ?thesis by auto
qed

subsection \<open>Percentiles\<close>

lemma first_reaching_Some:
  assumes "first_reaching target c bs = Some v"
    and "c + sum_list (map bucket_count bs) \<le> u64_max"
  shows "\<exists>i < length bs. v = le_ns (bs ! i) \<and> target \<le> c + sum_list (map bucket_count (take (Suc i) bs)) \<and>
    (0 < i \<longrightarrow> c + sum_list (map bucket_count (take i bs)) < target)"
  using assms
proof (induction bs arbitrary: c)
  case (Cons b bs)
  have sa: "saturating_add c (bucket_count b) = c + bucket_count b"
    using Cons.prems(2) by (intro saturating_add_exact) simp
  show ?case
  proof (cases "target \<le> c + bucket_count b")
    case True
    with Cons.prems(1) sa show ?thesis by (intro exI [of _ 0]) simp
  next
    case False
    with Cons.prems sa have "first_reaching target (c + bucket_count b) bs = Some v" by simp
    from Cons.IH [OF this] Cons.prems(2) obtain i where i: "i < length bs" "v = le_ns (bs ! i)"
      "target \<le> c + bucket_count b + sum_list (map bucket_count (take (Suc i) bs))"
      "0 < i \<longrightarrow> c + bucket_count b + sum_list (map bucket_count (take i bs)) < target"
      by auto
    with False show ?thesis by (intro exI [of _ "Suc i"]) (cases i; simp add: add.assoc)
  qed
qed simp

lemma first_reaching_None:
  assumes "first_reaching target c bs = None" and "bs \<noteq> []"
    and "c + sum_list (map bucket_count bs) \<le> u64_max"
  shows "c + sum_list (map bucket_count bs) < target"
  using assms
proof (induction bs arbitrary: c)
  case (Cons b bs)
  have sa: "saturating_add c (bucket_count b) = c + bucket_count b"
    using Cons.prems(3) by (intro saturating_add_exact) simp
  with Cons.prems(1) have *: "\<not> target \<le> c + bucket_count b" "first_reaching target (c + bucket_count b) bs = None"
    by (auto simp: Let_def split: if_splits)
  show ?case
  proof (cases "bs = []")
    case False
    with Cons.IH [OF *(2)] Cons.prems(3) show ?thesis by (simp add: add.assoc)
  qed (use * in simp)
qed simp

lemma percentile_bucket:
  assumes "0 < sum_list (map bucket_count h)" and "sum_list (map bucket_count h) \<le> u64_max"
    and "percentile_target (sum_list (map bucket_count h)) pct \<le> sum_list (map bucket_count h)"
  shows "\<exists>i < length h. percentile h pct = le_ns (h ! i) \<and>
    percentile_target (sum_list (map bucket_count h)) pct \<le> sum_list (map bucket_count (take (Suc i) h)) \<and>
    (0 < i \<longrightarrow> sum_list (map bucket_count (take i h)) < percentile_target (sum_list (map bucket_count h)) pct)"
proof -
  let ?n = "sum_list (map bucket_count h)"
  have total: "total_samples h = ?n" using assms(2) by (simp add: total_samples_def)
  have "h \<noteq> []" using assms(1) by auto
  then obtain v where v: "first_reaching (percentile_target ?n pct) 0 h = Some v"
    using first_reaching_None [of "percentile_target ?n pct" 0 h] assms
    by (cases "first_reaching (percentile_target ?n pct) 0 h") auto
  have "percentile h pct = v" using v total assms(1) by (simp del: sum_list_eq_0_iff add: percentile_def)
  with first_reaching_Some [OF v] assms(2) show ?thesis by simp
qed

subsection \<open>The error of the rounding\<close>

definition f64_value :: "f64 \<Rightarrow> real" where
  "f64_value a = real (mant a) * 2 powi expo a"

lemma bit_len_bound: "0 < n \<Longrightarrow> 2 ^ (bit_len n - 1) \<le> n"
proof (induction n rule: bit_len.induct)
  case (1 n)
  show ?case
  proof (cases "n div 2 = 0")
    case True
    with "1.prems" have "n = 1" by auto
    then show ?thesis by (simp add: bit_len.simps)
  next
    case False
    with "1.prems" "1.IH" have "2 ^ (bit_len (n div 2) - 1) \<le> n div 2" by simp
    moreover have "bit_len n - 1 = Suc (bit_len (n div 2) - 1)"
      using "1.prems" False by (subst (1) bit_len.simps) (simp add: bit_len.simps [of "n div 2"])
    ultimately show ?thesis by simp
  qed
qed

lemma f64_round_error:
  "\<bar>f64_value (f64_round m e) - real m * 2 powi e\<bar> \<le> real m * 2 powi e / 2 ^ 53"
proof -
  define k where "k = bit_len m - 53"
  define q where "q = m div 2 ^ k"
  define r where "r = m mod 2 ^ k"
  have m: "m = q * 2 ^ k + r" unfolding q_def r_def by (rule div_mult_mod_eq [symmetric])
  have r: "r < 2 ^ k" by (simp add: r_def)
  show ?thesis
  proof (cases "k = 0")
    case True
    then show ?thesis by (simp add: f64_round_def k_def Let_def f64_value_def)
  next
    case False
    then have "0 < m" by (cases "m = 0") (simp_all add: k_def bit_len.simps [of 0])
    then have "2 ^ (bit_len m - 1) \<le> m" by (rule bit_len_bound)
    moreover have "bit_len m - 1 = k + 52" using False by (simp add: k_def)
    ultimately have big: "2 ^ k * 2 ^ 52 \<le> m" by (simp only: power_add [symmetric])
    define d where "d = (if 2 ^ k < 2 * r \<or> (2 * r = 2 ^ k \<and> odd q) then 1 else 0 :: nat)"
    have rnd: "f64_round m e = F64 (q + d) (e + int k)"
      using False by (simp add: f64_round_def Let_def k_def [symmetric] q_def [symmetric] r_def [symmetric] d_def)
    have pw: "(2::real) powi (e + int k) = 2 powi e * 2 ^ k" by (simp add: power_int_add)
    have "2 * (d * 2 ^ k) \<le> 2 * r + 2 ^ k" "2 * r \<le> 2 * (d * 2 ^ k) + 2 ^ k" using r by (auto simp: d_def)
    then have "real (2 * (d * 2 ^ k)) \<le> real (2 * r + 2 ^ k)" "real (2 * r) \<le> real (2 * (d * 2 ^ k) + 2 ^ k)"
      by (simp_all only: of_nat_le_iff)
    then have "2 * real (d * 2 ^ k) \<le> 2 * real r + real (2 ^ k)" "2 * real r \<le> 2 * real (d * 2 ^ k) + real (2 ^ k)"
      by (simp_all only: of_nat_add of_nat_mult of_nat_numeral)
    moreover have "real ((q + d) * 2 ^ k) - real m = real (d * 2 ^ k) - real r"
      by (simp add: m algebra_simps)
    ultimately have "\<bar>real ((q + d) * 2 ^ k) - real m\<bar> \<le> real (2 ^ k) / 2" by linarith
    moreover have "real (2 ^ k * 2 ^ 52) \<le> real m" using big by (rule of_nat_mono)
    then have "real (2 ^ k) / 2 \<le> real m / 2 ^ 53" by simp
    ultimately have err: "\<bar>real ((q + d) * 2 ^ k) - real m\<bar> \<le> real m / 2 ^ 53" by linarith
    have "f64_value (f64_round m e) - real m * 2 powi e = (real ((q + d) * 2 ^ k) - real m) * 2 powi e"
      by (simp add: rnd f64_value_def pw algebra_simps)
    with err show ?thesis
      by (simp add: abs_mult mult_right_mono)
  qed
qed

lemma f64_value_nonneg [simp]: "0 \<le> f64_value a"
  by (simp add: f64_value_def)

lemma f64_ceil_bounds: "f64_value a \<le> real (f64_ceil a)" "real (f64_ceil a) < f64_value a + 1"
proof -
  have "f64_value a \<le> real (f64_ceil a) \<and> real (f64_ceil a) < f64_value a + 1"
  proof (cases "0 \<le> expo a")
    case True
    then have "f64_value a = real (f64_ceil a)" by (simp only: f64_ceil_def f64_value_def power_int_def if_True) simp
    then show ?thesis by simp
  next
    case False
    define d :: nat where "d = 2 ^ nat (- expo a)"
    have d: "0 < d" by (simp add: d_def)
    have v: "f64_value a = real (mant a) / real d"
      using False
      by (simp only: f64_value_def power_int_def if_False d_def) (simp add: power_one_over)
    have c: "f64_ceil a = (mant a + d - 1) div d" using False by (simp only: f64_ceil_def d_def if_False)
    have "mant a \<le> (mant a + d - 1) div d * d"
      using d div_mult_mod_eq [of "mant a + d - 1" d] mod_less_divisor [of d "mant a + d - 1"] by linarith
    moreover have "(mant a + d - 1) div d * d < mant a + d"
      using d div_times_less_eq_dividend [of "mant a + d - 1" d] by linarith
    ultimately have "real (mant a) \<le> real (f64_ceil a) * real d" "real (f64_ceil a) * real d < real (mant a) + real d"
      unfolding c by (simp_all only: of_nat_mult [symmetric] of_nat_add [symmetric] of_nat_le_iff of_nat_less_iff)
    with d show ?thesis by (simp add: v field_simps)
  qed
  then show "f64_value a \<le> real (f64_ceil a)" "real (f64_ceil a) < f64_value a + 1" by simp_all
qed

lemma as_f64_error: "\<bar>f64_value (as_f64 n) - real n\<bar> \<le> real n / 2 ^ 53"
  using f64_round_error [of n 0] by (simp add: as_f64_def)

lemma f64_mult_error:
  "\<bar>f64_value (f64_mult a b) - f64_value a * f64_value b\<bar> \<le> f64_value a * f64_value b / 2 ^ 53"
proof -
  have "real (mant a * mant b) * 2 powi (expo a + expo b) = f64_value a * f64_value b"
    by (simp add: f64_value_def power_int_add)
  then show ?thesis using f64_round_error [of "mant a * mant b" "expo a + expo b"] by (simp add: f64_mult_def)
qed

text \<open>What the three roundings (literal, cast, product) amount to.\<close>

lemma near_product:
  fixes x y z p n u :: real
  assumes "0 \<le> p" "0 \<le> n" "u = 1 / 2 ^ 53" and "\<bar>x - n\<bar> \<le> n * u" "\<bar>y - p\<bar> \<le> p * u" "\<bar>z - x * y\<bar> \<le> x * y * u"
  shows "p * n * (1 - 1 / 2 ^ 51) \<le> z" "z \<le> p * n * (1 + 1 / 2 ^ 51)"
proof -
  have u: "0 \<le> 1 - u" "0 \<le> 1 + u" "0 \<le> u" using assms(3) by simp_all
  have x: "n * (1 - u) \<le> x" "x \<le> n * (1 + u)" and y: "p * (1 - u) \<le> y" "y \<le> p * (1 + u)"
    and z: "x * y * (1 - u) \<le> z" "z \<le> x * y * (1 + u)"
    using assms(4-6) by (simp_all add: algebra_simps abs_le_iff)
  have xy0: "0 \<le> n * (1 - u)" "0 \<le> p * (1 - u)" using assms(1,2) u by simp_all
  have lo: "n * (1 - u) * (p * (1 - u)) \<le> x * y" using x(1) y(1) xy0 by (intro mult_mono) linarith+
  have hi: "x * y \<le> n * (1 + u) * (p * (1 + u))" using x y xy0 by (intro mult_mono) linarith+
  have "p * n * (1 - 1 / 2 ^ 51) \<le> p * n * ((1 - u) ^ 3)"
    using assms(1,2) by (intro mult_left_mono) (simp_all add: assms(3) power3_eq_cube)
  also have "\<dots> = n * (1 - u) * (p * (1 - u)) * (1 - u)" by (simp add: power3_eq_cube algebra_simps)
  also have "\<dots> \<le> x * y * (1 - u)" using lo u(1) by (rule mult_right_mono)
  finally show "p * n * (1 - 1 / 2 ^ 51) \<le> z" using z(1) by linarith
  have "x * y * (1 + u) \<le> n * (1 + u) * (p * (1 + u)) * (1 + u)" using hi u(2) by (rule mult_right_mono)
  also have "\<dots> = p * n * ((1 + u) ^ 3)" by (simp add: power3_eq_cube algebra_simps)
  also have "\<dots> \<le> p * n * (1 + 1 / 2 ^ 51)"
    using assms(1,2) by (intro mult_left_mono) (simp_all add: assms(3) power3_eq_cube)
  finally show "z \<le> p * n * (1 + 1 / 2 ^ 51)" using z(2) by linarith
qed

lemma percentile_target_bounds:
  assumes p: "\<bar>f64_value pct - p\<bar> \<le> p / 2 ^ 53" "0 \<le> p" "p * (1 + 1 / 2 ^ 51) \<le> 1" and n: "n \<le> u64_max"
  shows "percentile_target n pct \<le> n \<and> p * real n * (1 - 1 / 2 ^ 51) \<le> real (percentile_target n pct) \<and>
    real (percentile_target n pct) < p * real n * (1 + 1 / 2 ^ 51) + 1"
proof -
  let ?v = "f64_mult (as_f64 n) pct"
  have e: "\<bar>f64_value (as_f64 n) - real n\<bar> \<le> real n * (1 / 2 ^ 53)" "\<bar>f64_value pct - p\<bar> \<le> p * (1 / 2 ^ 53)"
    "\<bar>f64_value ?v - f64_value (as_f64 n) * f64_value pct\<bar> \<le> f64_value (as_f64 n) * f64_value pct * (1 / 2 ^ 53)"
    using as_f64_error [of n] p(1) f64_mult_error [of "as_f64 n" pct] by simp_all
  have v: "p * real n * (1 - 1 / 2 ^ 51) \<le> f64_value ?v" "f64_value ?v \<le> p * real n * (1 + 1 / 2 ^ 51)"
    using near_product [OF p(2) _ refl e] by simp_all
  note v(2)
  also have "p * real n * (1 + 1 / 2 ^ 51) = p * (1 + 1 / 2 ^ 51) * real n" by simp
  also have "\<dots> \<le> 1 * real n" using p(3) by (intro mult_right_mono) simp_all
  finally have "real (f64_ceil ?v) < real n + 1" using f64_ceil_bounds(2) [of ?v] by linarith
  then have le: "f64_ceil ?v \<le> n" by linarith
  with n have "percentile_target n pct = f64_ceil ?v" by (simp add: percentile_target_def f64_as_u64_def)
  with le v f64_ceil_bounds [of ?v] show ?thesis by auto
qed

lemma literals:
  "\<bar>f64_value PCT_95 - 95 / 100\<bar> \<le> 95 / 100 / 2 ^ 53" "\<bar>f64_value PCT_99 - 99 / 100\<bar> \<le> 99 / 100 / 2 ^ 53"
  by (simp_all add: PCT_95_def PCT_99_def f64_value_def power_int_def power_divide abs_le_iff)

text \<open>What it means that \<open>v\<close> is read off \<open>h\<close> as the quantile \<open>p\<close>.\<close>

definition is_quantile :: "queue_time_bucket list \<Rightarrow> real \<Rightarrow> nat \<Rightarrow> bool" where
  "is_quantile h p v \<longleftrightarrow> (let n = real (sum_list (map bucket_count h)) in
     \<exists>i < length h. v = le_ns (h ! i) \<and>
       p * n * (1 - 1 / 2 ^ 51) \<le> real (sum_list (map bucket_count (take (Suc i) h))) \<and>
       (0 < i \<longrightarrow> real (sum_list (map bucket_count (take i h))) < p * n * (1 + 1 / 2 ^ 51)))"

lemma percentile_is_quantile:
  assumes "0 < sum_list (map bucket_count h)" "sum_list (map bucket_count h) \<le> u64_max"
    and p: "\<bar>f64_value pct - p\<bar> \<le> p / 2 ^ 53" "0 \<le> p" "p * (1 + 1 / 2 ^ 51) \<le> 1"
  shows "is_quantile h p (percentile h pct)"
proof -
  let ?n = "sum_list (map bucket_count h)"
  note t = percentile_target_bounds [OF p assms(2)]
  from percentile_bucket [OF assms(1,2)] t obtain i where i: "i < length h" "percentile h pct = le_ns (h ! i)"
    "percentile_target ?n pct \<le> sum_list (map bucket_count (take (Suc i) h))"
    "0 < i \<longrightarrow> sum_list (map bucket_count (take i h)) < percentile_target ?n pct" by blast
  have "p * real ?n * (1 - 1 / 2 ^ 51) \<le> real (sum_list (map bucket_count (take (Suc i) h)))"
    using t i(3) by (meson of_nat_mono order_trans)
  moreover have "0 < i \<longrightarrow> real (sum_list (map bucket_count (take i h))) < p * real ?n * (1 + 1 / 2 ^ 51)"
  proof
    assume "0 < i"
    with i(4) have "real (sum_list (map bucket_count (take i h))) + 1 \<le> real (percentile_target ?n pct)"
      by (metis Suc_eq_plus1 Suc_leI of_nat_Suc of_nat_mono add.commute)
    with t show "real (sum_list (map bucket_count (take i h))) < p * real ?n * (1 + 1 / 2 ^ 51)" by linarith
  qed
  ultimately show ?thesis using i(1,2) by (auto simp: is_quantile_def Let_def)
qed

subsection \<open>The meters of a run\<close>

lemma meter_step:
  assumes "meter v (a, n, bs) = (a', n', bs')" and "v \<le> u64_max" and "length bs = length QUEUE_TIME_BUCKETS_NS"
    and "sum_list bs = n" and "n < u64_max"
  shows "n' = Suc n \<and> sum_list bs' = Suc n \<and> length bs' = length QUEUE_TIME_BUCKETS_NS"
proof -
  have "u64_max \<in> set QUEUE_TIME_BUCKETS_NS" by (simp add: QUEUE_TIME_BUCKETS_NS_def)
  then obtain i where i: "bucket_index QUEUE_TIME_BUCKETS_NS v = Some i"
    using bucket_index_max assms(2) by blast
  with bucket_index_Some [OF i] assms(3) have "i < length bs" by simp
  moreover from this have "bs ! i \<le> n" using elem_le_sum_list assms(4) by blast
  ultimately show ?thesis
    using assms(1,3-5) i by (auto simp: meter_def saturating_add_exact sum_list_update)
qed

lemma fold_meter:
  assumes "fold meter vs (0, 0, replicate (length QUEUE_TIME_BUCKETS_NS) 0) = (a, n, bs)"
    and "\<forall>v \<in> set vs. v \<le> u64_max" and "length vs \<le> u64_max"
  shows "n = length vs \<and> sum_list bs = length vs \<and> length bs = length QUEUE_TIME_BUCKETS_NS"
  using assms
proof (induction vs arbitrary: a n bs rule: rev_induct)
  case Nil
  then show ?case by (auto simp: sum_list_replicate)
next
  case (snoc v vs)
  obtain a' n' bs' where f: "fold meter vs (0, 0, replicate (length QUEUE_TIME_BUCKETS_NS) 0) = (a', n', bs')"
    by (metis prod.exhaust)
  from snoc.prems have "\<forall>v \<in> set vs. v \<le> u64_max" "length vs \<le> u64_max" "v \<le> u64_max" by simp_all
  note ih = snoc.IH [OF f this(1,2)]
  from snoc.prems(1) f have "meter v (a', n', bs') = (a, n, bs)" by simp
  from meter_step [OF this \<open>v \<le> u64_max\<close>] ih snoc.prems(3) show ?case by simp
qed

lemma run_meters:
  assumes "length es \<le> u64_max" and "run C clk es = (os, s)"
  shows "queue_time_samples (stats (shared s)) = count_out is_delivered os \<and>
    sum_list (queue_time_buckets (stats (shared s))) = count_out is_delivered os \<and>
    length (queue_time_buckets (stats (shared s))) = length QUEUE_TIME_BUCKETS_NS \<and>
    count_out is_delivered os \<le> u64_max"
proof -
  from run_inv_run(3) [OF assms] have "sampled (count_out is_delivered os) (shared s)"
    and le: "count_out is_delivered os \<le> u64_max" by (auto simp: books_def settled_def)
  then obtain vs where vs: "length vs = count_out is_delivered os" "\<forall>v \<in> set vs. v \<le> u64_max"
    "fold meter vs (0, 0, replicate (length QUEUE_TIME_BUCKETS_NS) 0) = meters (shared s)"
    unfolding sampled_def by metis
  from fold_meter [OF vs(3) [unfolded meters_def] vs(2)] vs(1) le show ?thesis by simp
qed

lemma histogram_counts:
  assumes "length (queue_time_buckets c) = length QUEUE_TIME_BUCKETS_NS"
  shows "map bucket_count (histogram c) = queue_time_buckets c" "map le_ns (histogram c) = QUEUE_TIME_BUCKETS_NS"
  using assms by (auto intro: nth_equalityI simp: histogram_def nth_enumerate_eq)

text \<open>
  C14: In any run the histogram of the snapshot has one sample for every task delivered so far,
  and the two percentiles are right up to the rounding of \<open>f64\<close>: each is the bound of a bucket
  such that at least the asked share of the samples lies within it, and less than that share
  lies within the bucket before, where the share is off by a factor of at most one part in
  two to the 51. Before the first delivery both are zero.
\<close>

theorem percentiles_correct:
  assumes "length es \<le> u64_max" and "run C clk es = (os, s)"
  shows "let st = stats_snapshot C (shared s); h = st_queue_time_histogram st in
    map le_ns h = QUEUE_TIME_BUCKETS_NS \<and>
    sum_list (map bucket_count h) = count_out is_delivered os \<and>
    st_queue_time_samples st = count_out is_delivered os \<and>
    (if count_out is_delivered os = 0
     then st_queue_time_p95_ns st = 0 \<and> st_queue_time_p99_ns st = 0
     else is_quantile h (95 / 100) (st_queue_time_p95_ns st) \<and> is_quantile h (99 / 100) (st_queue_time_p99_ns st))"
proof -
  let ?h = "histogram (stats (shared s))" and ?d = "count_out is_delivered os"
  note m = run_meters [OF assms]
  have h: "map le_ns ?h = QUEUE_TIME_BUCKETS_NS" and n: "sum_list (map bucket_count ?h) = ?d"
    using m histogram_counts [of "stats (shared s)"] by simp_all
  have st: "st_queue_time_histogram (stats_snapshot C (shared s)) = ?h"
    "st_queue_time_samples (stats_snapshot C (shared s)) = ?d"
    "st_queue_time_p95_ns (stats_snapshot C (shared s)) = percentile ?h PCT_95"
    "st_queue_time_p99_ns (stats_snapshot C (shared s)) = percentile ?h PCT_99"
    using m by (simp_all add: stats_snapshot_def Let_def)
  show ?thesis
  proof (cases "?d = 0")
    case True
    with n have "total_samples ?h = 0" by (simp add: total_samples_def del: sum_list_eq_0_iff)
    with True h n show ?thesis by (simp add: Let_def st percentile_def del: sum_list_eq_0_iff)
  next
    case False
    then have pos: "0 < sum_list (map bucket_count ?h)" and le: "sum_list (map bucket_count ?h) \<le> u64_max"
      using m by (simp_all only: n neq0_conv)
    have "is_quantile ?h (95 / 100) (percentile ?h PCT_95)" "is_quantile ?h (99 / 100) (percentile ?h PCT_99)"
      by (rule percentile_is_quantile [OF pos le literals(1)] percentile_is_quantile [OF pos le literals(2)]; simp)+
    with False h n show ?thesis by (simp add: Let_def st del: sum_list_eq_0_iff)
  qed
qed

theorem percentiles_correct_witness:
  "\<exists>os s. demo_run [EnqueueNow tenant7 (demo_task 0), Dequeue, Dequeue] = (os, s) \<and>
    is_quantile (st_queue_time_histogram (stats_snapshot demo_config (shared s))) (95 / 100)
      (st_queue_time_p95_ns (stats_snapshot demo_config (shared s)))"
proof -
  obtain os s where r: "demo_run [EnqueueNow tenant7 (demo_task 0), Dequeue, Dequeue] = (os, s)" by fastforce
  then have "count_out is_delivered os \<noteq> 0" by (auto simp: eval count_out_def)
  with percentiles_correct [OF _ r] r show ?thesis by (simp add: Let_def)
qed

subsection \<open>Saturation\<close>

lemma bit_len_upper: "n < 2 ^ bit_len n"
proof (induction n rule: bit_len.induct)
  case (1 n)
  show ?case
  proof (cases "n = 0")
    case False
    with 1 have "n div 2 < 2 ^ bit_len (n div 2)" by simp
    moreover have "bit_len n = Suc (bit_len (n div 2))" using False by (subst bit_len.simps) simp
    ultimately show ?thesis by simp
  qed simp
qed

lemma unit_gap: "0 \<le> f \<Longrightarrow> f < 1 \<Longrightarrow> \<bar>1 - 2 * f\<bar> \<le> (1 :: real)"
  by (simp add: abs_le_iff)

lemma two_roundings:
  fixes v y z :: real
  assumes "\<bar>y - v\<bar> \<le> v / 2 ^ 56" and "\<bar>z - y\<bar> \<le> y / 2 ^ 53" and "0 \<le> v"
  shows "\<bar>z - v\<bar> \<le> v / 2 ^ 52"
  using assms unfolding abs_le_iff by (simp add: field_simps)

text \<open>Truncating the quotient and keeping the sticky bit costs less than the rounding.\<close>

lemma f64_div_error:
  assumes "0 < mant b"
  shows "\<bar>f64_value (f64_div a b) - f64_value a / f64_value b\<bar> \<le> f64_value a / f64_value b / 2 ^ 52"
proof -
  define t where "t = 55 + bit_len (mant b)"
  define n where "n = mant a * 2 ^ t"
  define w where "w = 2 * (n div mant b) + (if n mod mant b = 0 then 0 else 1)"
  define e where "e = expo a - expo b - int t - 1"
  let ?x = "real n / real (mant b)"
  have b: "0 < real (mant b)" using assms by simp
  have split: "n = n div mant b * mant b + n mod mant b" "n mod mant b < mant b"
    using assms by simp_all
  have split_real: "real n = real (n div mant b) * real (mant b) + real (n mod mant b)"
    by (metis split(1) of_nat_add of_nat_mult)
  have x: "?x = real (n div mant b) + real (n mod mant b) / real (mant b)"
    using b by (subst split_real) (simp add: field_simps)
  have frac: "0 \<le> real (n mod mant b) / real (mant b)" "real (n mod mant b) / real (mant b) < 1"
    using b split(2) by simp_all
  have trunc: "\<bar>real w - 2 * ?x\<bar> \<le> 2 * ?x / 2 ^ 56"
  proof (cases "n mod mant b = 0")
    case True
    with x have "?x = real (n div mant b)" by simp
    with True show ?thesis by (simp add: w_def)
  next
    case False
    then have "0 < mant a" by (cases "mant a = 0") (simp_all add: n_def)
    have "2 ^ 55 * mant b \<le> 2 ^ 55 * 2 ^ bit_len (mant b)" using bit_len_upper [of "mant b"] by simp
    also have "\<dots> = 2 ^ t" by (simp only: t_def power_add)
    also have "\<dots> \<le> n" using \<open>0 < mant a\<close> by (simp add: n_def)
    finally have "real (2 ^ 55 * mant b) \<le> real n" by (rule of_nat_mono)
    then have "2 ^ 55 \<le> ?x" using b by (simp add: pos_le_divide_eq)
    moreover have "real w - 2 * ?x = 1 - 2 * (real (n mod mant b) / real (mant b))"
      using False unfolding x w_def by simp
    with unit_gap [OF frac] have "\<bar>real w - 2 * ?x\<bar> \<le> 1" by simp
    ultimately show ?thesis by simp
  qed
  have pw: "(2::real) powi e * (2 * ?x) = f64_value a / f64_value b"
  proof -
    have "(2::real) powi (expo a) = 2 powi (e + (expo b + (int t + 1)))" by (simp add: e_def)
    also have "\<dots> = 2 powi e * (2 powi expo b * (2 ^ t * 2))" by (simp add: power_int_add)
    finally show ?thesis using b by (simp add: f64_value_def n_def)
  qed
  have div: "f64_div a b = f64_round w e"
    by (simp only: f64_div_def Let_def w_def n_def t_def e_def)
  let ?z = "f64_value (f64_round w e)" and ?p = "(2::real) powi e" and ?v = "f64_value a / f64_value b"
  have "real w * ?p - ?v = (real w - 2 * ?x) * ?p" by (simp only: pw [symmetric] left_diff_distrib mult.commute [of ?p])
  then have "\<bar>real w * ?p - ?v\<bar> = \<bar>real w - 2 * ?x\<bar> * ?p" by (simp add: abs_mult)
  also have "\<dots> \<le> 2 * ?x / 2 ^ 56 * ?p" using trunc by (intro mult_right_mono) simp_all
  also have "\<dots> = ?v / 2 ^ 56" by (simp add: pw [symmetric])
  finally have 1: "\<bar>real w * ?p - ?v\<bar> \<le> ?v / 2 ^ 56" .
  have 2: "\<bar>?z - real w * ?p\<bar> \<le> real w * ?p / 2 ^ 53" by (rule f64_round_error)
  have "0 \<le> ?v" by simp
  from two_roundings [OF 1 2 this] show ?thesis unfolding div .
qed

lemma near_quotient:
  fixes x y z n m u :: real
  assumes "0 \<le> n" "0 < m" "u = 1 / 2 ^ 53" and "\<bar>x - n\<bar> \<le> n * u" "\<bar>y - m\<bar> \<le> m * u"
    and "\<bar>z - x / y\<bar> \<le> x / y * (2 * u)"
  shows "\<bar>z - n / m\<bar> \<le> n / m / 2 ^ 50"
proof -
  have u: "0 < 1 - u" "0 < 1 + u" "0 < 1 - 2 * u" using assms(3) by simp_all
  have x: "n * (1 - u) \<le> x" "x \<le> n * (1 + u)" and y: "m * (1 - u) \<le> y" "y \<le> m * (1 + u)"
    and z: "x / y * (1 - 2 * u) \<le> z" "z \<le> x / y * (1 + 2 * u)"
    using assms(4-6) by (simp_all add: algebra_simps abs_le_iff)
  have y0: "0 < m * (1 - u)" using assms(2) u(1) by simp
  have x0: "0 \<le> n * (1 - u)" using assms(1) u(1) by simp
  have lo: "n * (1 - u) / (m * (1 + u)) \<le> x / y" using x(1) y x0 y0 by (intro frac_le) linarith+
  have hi: "x / y \<le> n * (1 + u) / (m * (1 - u))" using x y x0 y0 by (intro frac_le) linarith+
  have "n / m * (1 - 1 / 2 ^ 50) \<le> n / m * ((1 - u) / (1 + u) * (1 - 2 * u))"
    using assms(1,2) by (intro mult_left_mono) (simp_all add: assms(3))
  also have "\<dots> = n * (1 - u) / (m * (1 + u)) * (1 - 2 * u)" by simp
  also have "\<dots> \<le> x / y * (1 - 2 * u)" using lo u(3) by (intro mult_right_mono) simp_all
  finally have "n / m * (1 - 1 / 2 ^ 50) \<le> z" using z(1) by linarith
  have "x / y * (1 + 2 * u) \<le> n * (1 + u) / (m * (1 - u)) * (1 + 2 * u)"
    using hi by (intro mult_right_mono) (simp_all add: assms(3))
  also have "\<dots> = n / m * ((1 + u) / (1 - u) * (1 + 2 * u))" by simp
  also have "\<dots> \<le> n / m * (1 + 1 / 2 ^ 50)"
    using assms(1,2) by (intro mult_left_mono) (simp_all add: assms(3))
  finally have "z \<le> n / m * (1 + 1 / 2 ^ 50)" using z(2) by linarith
  with \<open>n / m * (1 - 1 / 2 ^ 50) \<le> z\<close> show ?thesis by (simp add: abs_le_iff algebra_simps)
qed

lemma as_f64_pos: "0 < n \<Longrightarrow> 0 < mant (as_f64 n)"
  using as_f64_error [of n] by (cases "mant (as_f64 n)") (simp_all add: f64_value_def abs_le_iff)

lemma saturation_ratio:
  assumes "0 < m"
  shows "\<bar>f64_value (f64_div (as_f64 n) (as_f64 m)) - real n / real m\<bar> \<le> real n / real m / 2 ^ 50"
proof (rule near_quotient [OF _ _ refl])
  show "\<bar>f64_value (as_f64 n) - real n\<bar> \<le> real n * (1 / 2 ^ 53)"
    "\<bar>f64_value (as_f64 m) - real m\<bar> \<le> real m * (1 / 2 ^ 53)"
    using as_f64_error [of n] as_f64_error [of m] by simp_all
  show "\<bar>f64_value (f64_div (as_f64 n) (as_f64 m)) - f64_value (as_f64 n) / f64_value (as_f64 m)\<bar>
      \<le> f64_value (as_f64 n) / f64_value (as_f64 m) * (2 * (1 / 2 ^ 53))"
    using f64_div_error [OF as_f64_pos [OF assms], of "as_f64 n"] by simp
qed (use assms in simp_all)

text \<open>
  In any run the snapshot's saturation ratio is the number of pending tasks over the
  global limit, up to one part in two to the 50; with a limit of zero it is zero.
\<close>

theorem snapshot_saturation:
  assumes "length es \<le> u64_max" and "run C clk es = (os, s)"
  shows "let load = real (card (pending_ids (shared s))) / real (unat (max_global C));
      ratio = f64_value (st_queue_saturation_ratio (stats_snapshot C (shared s)))
    in \<bar>ratio - load\<bar> \<le> load / 2 ^ 50 \<and> load \<le> 1"
proof -
  define m where "m = unat (max_global C)"
  define n where "n = card (pending_ids (shared s))"
  have "n \<le> m" and ratio: "st_queue_saturation_ratio (stats_snapshot C (shared s)) =
      (if m = 0 then F64 0 0 else f64_div (as_f64 n) (as_f64 m))"
    using run_inv_run(3) [OF assms] by (simp_all add: books_def stats_snapshot_def Let_def m_def n_def)
  then have "real n / real m \<le> 1" by (cases "m = 0") simp_all
  moreover have "\<bar>f64_value (st_queue_saturation_ratio (stats_snapshot C (shared s))) - real n / real m\<bar>
      \<le> real n / real m / 2 ^ 50"
    using saturation_ratio [of m n] by (cases "m = 0") (simp_all add: ratio f64_value_def)
  ultimately show ?thesis by (simp only: Let_def m_def n_def)
qed

theorem snapshot_saturation_witness:
  "\<exists>os s. demo_run [EnqueueNow tenant7 (demo_task 0)] = (os, s) \<and>
    \<bar>f64_value (st_queue_saturation_ratio (stats_snapshot demo_config (shared s))) - 1 / 3\<bar> \<le> 1 / 3 / 2 ^ 50"
proof -
  obtain os s where r: "demo_run [EnqueueNow tenant7 (demo_task 0)] = (os, s)" by fastforce
  then have "card (pending_ids (shared s)) = 1" by (auto simp: eval)
  moreover have "unat (max_global demo_config) = 3" by (simp add: demo_config_def)
  ultimately show ?thesis using snapshot_saturation [OF _ r] r by (simp add: Let_def)
qed

end
