(* ===== verification/Prometheus.thy ===== *)
theory Prometheus
  imports Stats
begin

text \<open>
  The text exposition of the metrics: \<open>render_stats\<close> of \<open>crates/firq-core/src/prometheus.rs\<close>,
  character by character. The specification is a reader: what a scraper that follows the
  format reads back from the text. The lemmas show that it reads back the snapshot.
\<close>

subsection \<open>Numbers\<close>

text \<open>\<open>{}\<close> of an unsigned integer.\<close>

definition digit :: "nat \<Rightarrow> char" where
  "digit d = char_of (48 + d)"

fun dec :: "nat \<Rightarrow> string" where
  "dec n = (if n < 10 then [digit n] else dec (n div 10) @ [digit (n mod 10)])"

declare dec.simps [simp del]

text \<open>
  \<open>{:.6}\<close> of a float: the exact value to six decimals, ties to even, as the formatter of the
  standard library does.
\<close>

definition millionths :: "f64 \<Rightarrow> nat" where
  "millionths a =
    (if 0 \<le> expo a then mant a * 2 ^ nat (expo a) * 1000000
     else let d = 2 ^ nat (- expo a); q = mant a * 1000000 div d; r = mant a * 1000000 mod d
          in if d < 2 * r \<or> (2 * r = d \<and> odd q) then q + 1 else q)"

definition pad6 :: "nat \<Rightarrow> string" where
  "pad6 n = (let s = dec n in replicate (6 - length s) (digit 0) @ s)"

definition fixed6 :: "f64 \<Rightarrow> string" where
  "fixed6 a = (let m = millionths a in dec (m div 1000000) @ ''.'' @ pad6 (m mod 1000000))"

subsection \<open>The text\<close>

abbreviation newline :: string where
  "newline \<equiv> [CHR 0x0A]"

abbreviation quote :: string where
  "quote \<equiv> [CHR 0x22]"

text \<open>The two comment lines and the sample line of one metric.\<close>

definition comment_text :: "string \<Rightarrow> string \<Rightarrow> string \<Rightarrow> string \<Rightarrow> string" where
  "comment_text ns name help kind =
    ''# HELP '' @ ns @ name @ '' '' @ help @ newline @ ''# TYPE '' @ ns @ name @ '' '' @ kind @ newline"

definition metric_text :: "string \<Rightarrow> string \<times> string \<times> string \<times> string \<Rightarrow> string" where
  "metric_text ns = (\<lambda>(name, help, kind, val).
     comment_text ns name help kind @ ns @ name @ '' '' @ val @ newline)"

definition scalar_metrics :: "scheduler_stats \<Rightarrow> (string \<times> string \<times> string \<times> string) list" where
  "scalar_metrics st =
    [(''_enqueued_total'', ''Total tasks enqueued'', ''counter'', dec (st_enqueued st)),
     (''_dequeued_total'', ''Total tasks dequeued'', ''counter'', dec (st_dequeued st)),
     (''_dropped_total'', ''Total tasks dropped by backpressure'', ''counter'', dec (st_dropped st)),
     (''_rejected_global_total'', ''Total enqueues rejected by global capacity'', ''counter'',
        dec (st_rejected_global st)),
     (''_rejected_tenant_total'', ''Total enqueues rejected by tenant capacity'', ''counter'',
        dec (st_rejected_tenant st)),
     (''_timeout_rejected_total'', ''Total enqueues rejected due to timeout'', ''counter'',
        dec (st_timeout_rejected st)),
     (''_dropped_policy_total'', ''Total tasks dropped by replacement policies'', ''counter'',
        dec (st_dropped_policy st)),
     (''_expired_total'', ''Total tasks expired before dequeue'', ''counter'', dec (st_expired st)),
     (''_queue_len_estimate'', ''Estimated queue length'', ''gauge'', dec (st_queue_len_estimate st)),
     (''_max_global_config'', ''Configured global queue capacity'', ''gauge'', dec (st_max_global st)),
     (''_queue_saturation_ratio'', ''Queue saturation ratio (queue_len_estimate / max_global)'', ''gauge'',
        fixed6 (st_queue_saturation_ratio st)),
     (''_queue_time_sum_ns'', ''Sum of queue time in ns'', ''counter'', dec (st_queue_time_sum_ns st)),
     (''_queue_time_samples'', ''Total queue time samples'', ''counter'', dec (st_queue_time_samples st)),
     (''_queue_time_p95_ns'', ''Approx p95 queue time in ns'', ''gauge'', dec (st_queue_time_p95_ns st)),
     (''_queue_time_p99_ns'', ''Approx p99 queue time in ns'', ''gauge'', dec (st_queue_time_p99_ns st))]"

definition le_text :: "nat \<Rightarrow> string" where
  "le_text bound = (if bound = u64_max then ''+Inf'' else dec bound)"

fun bucket_lines :: "string \<Rightarrow> nat \<Rightarrow> queue_time_bucket list \<Rightarrow> string" where
  "bucket_lines ns cumulative [] = []"
| "bucket_lines ns cumulative (b # bs) =
    (let cumulative' = saturating_add cumulative (bucket_count b)
     in ns @ ''_queue_time_ns_bucket{le='' @ quote @ le_text (le_ns b) @ quote @ ''} '' @ dec cumulative' @
        newline @ bucket_lines ns cumulative' bs)"

definition histogram_text :: "string \<Rightarrow> scheduler_stats \<Rightarrow> string" where
  "histogram_text ns st =
    (if st_queue_time_histogram st = [] then []
     else comment_text ns ''_queue_time_ns'' ''Queue time histogram'' ''histogram'' @
       bucket_lines ns 0 (st_queue_time_histogram st) @
       ns @ ''_queue_time_ns_count '' @ dec (st_queue_time_samples st) @ newline @
       ns @ ''_queue_time_ns_sum '' @ dec (st_queue_time_sum_ns st) @ newline)"

definition tenant_line :: "string \<Rightarrow> tenant_count \<Rightarrow> string" where
  "tenant_line ns e =
    ns @ ''_tenant_dequeued_total{tenant='' @ quote @ dec (unat (as_u64 (tc_tenant e))) @ quote @ ''} '' @
    dec (tc_count e) @ newline"

definition tenants_text :: "string \<Rightarrow> scheduler_stats \<Rightarrow> string" where
  "tenants_text ns st =
    (if st_top_tenants st = [] then []
     else comment_text ns ''_tenant_dequeued_total''
         ''Approx dequeued count per tenant (top talkers)'' ''gauge'' @
       concat (map (tenant_line ns) (st_top_tenants st)))"

definition namespace_of :: "string \<Rightarrow> string" where
  "namespace_of namespace = (if namespace = [] then ''firq'' else namespace)"

definition render_stats :: "scheduler_stats \<Rightarrow> string \<Rightarrow> string" where
  "render_stats st namespace =
    (let ns = namespace_of namespace
     in concat (map (metric_text ns) (scalar_metrics st)) @ histogram_text ns st @ tenants_text ns st)"

subsection \<open>Reading a number back\<close>

definition digit_value :: "char \<Rightarrow> nat" where
  "digit_value c = of_char c - 48"

definition read_dec :: "string \<Rightarrow> nat" where
  "read_dec s = foldl (\<lambda>n c. n * 10 + digit_value c) 0 s"

definition is_digit :: "char \<Rightarrow> bool" where
  "is_digit c \<longleftrightarrow> c \<in> set (map digit [0..<10])"

lemma digit_value_digit: "d < 10 \<Longrightarrow> digit_value (digit d) = d"
  by (simp add: digit_value_def digit_def)

lemma dec_digits: "c \<in> set (dec n) \<Longrightarrow> is_digit c"
proof (induction n rule: dec.induct)
  case (1 n)
  then show ?case by (subst (asm) dec.simps) (auto simp: is_digit_def split: if_splits)
qed

lemma read_dec_dec: "read_dec (dec n) = n"
proof (induction n rule: dec.induct)
  case (1 n)
  then show ?case
    by (subst dec.simps) (simp add: read_dec_def digit_value_digit)
qed

lemma dec_inject: "dec m = dec n \<longleftrightarrow> m = n"
  by (metis read_dec_dec)

lemma digit_code: "is_digit c \<Longrightarrow> 48 \<le> (of_char c :: nat)"
  by (auto simp: is_digit_def digit_def)

lemma digits_plain:
  assumes "is_digit c"
  shows "c \<noteq> CHR 0x0A" "c \<noteq> CHR '' ''" "c \<noteq> CHR ''#''"
  using digit_code [OF assms] by auto

text \<open>
  A number printed in the text reads back as itself: no two counters print alike, and what
  is printed is made of digits only.
\<close>

theorem decimal_roundtrip: "read_dec (dec n) = n \<and> list_all is_digit (dec n)"
  using read_dec_dec dec_digits by (auto simp: list_all_iff)

subsection \<open>The ratio to six decimals\<close>

lemma round_div_error:
  fixes n d :: nat
  assumes "0 < d"
  shows "\<bar>real (if d < 2 * (n mod d) \<or> (2 * (n mod d) = d \<and> odd (n div d)) then n div d + 1 else n div d)
    - real n / real d\<bar> \<le> 1 / 2"
proof -
  define x where "x = real (n mod d) / real d"
  have x: "0 \<le> x" "x < 1" using assms by (simp_all add: x_def)
  have "real n = real (n div d) * real d + real (n mod d)"
    by (metis div_mult_mod_eq of_nat_add of_nat_mult)
  then have q: "real n / real d = real (n div d) + x" using assms by (simp add: x_def field_simps)
  have lt: "d < 2 * (n mod d) \<longleftrightarrow> 1 / 2 < x" and eq: "2 * (n mod d) = d \<longleftrightarrow> x = 1 / 2"
  proof -
    have "d < 2 * (n mod d) \<longleftrightarrow> real d < real (2 * (n mod d))" by (simp only: of_nat_less_iff)
    then show "d < 2 * (n mod d) \<longleftrightarrow> 1 / 2 < x" using assms by (simp add: x_def field_simps)
    have "2 * (n mod d) = d \<longleftrightarrow> real (2 * (n mod d)) = real d" by (simp only: of_nat_eq_iff)
    then show "2 * (n mod d) = d \<longleftrightarrow> x = 1 / 2" using assms by (auto simp: x_def field_simps)
  qed
  show ?thesis unfolding q lt eq using x by (auto simp: abs_le_iff)
qed

lemma millionths_error: "\<bar>real (millionths a) - f64_value a * 1000000\<bar> \<le> 1 / 2"
proof (cases "0 \<le> expo a")
  case True
  then have "f64_value a = real (mant a) * real (2 ^ nat (expo a))"
    by (simp only: f64_value_def power_int_def if_True) simp
  with True show ?thesis by (simp add: millionths_def)
next
  case False
  define d :: nat where "d = 2 ^ nat (- expo a)"
  have d: "0 < d" by (simp add: d_def)
  have "f64_value a = real (mant a) / real d" using False
    by (simp only: f64_value_def power_int_def if_False d_def) (simp add: power_one_over)
  then have v: "f64_value a * 1000000 = real (mant a * 1000000) / real d" by simp
  have m: "millionths a = (if d < 2 * (mant a * 1000000 mod d) \<or>
      (2 * (mant a * 1000000 mod d) = d \<and> odd (mant a * 1000000 div d))
    then mant a * 1000000 div d + 1 else mant a * 1000000 div d)"
    using False by (simp only: millionths_def Let_def d_def if_False)
  show ?thesis unfolding v m using round_div_error [OF d] .
qed

lemma read_dec_snoc: "read_dec (s @ [c]) = read_dec s * 10 + digit_value c"
  by (simp add: read_dec_def)

lemma read_dec_foldl: "foldl (\<lambda>n c. n * 10 + digit_value c) k s = k * 10 ^ length s + read_dec s"
proof (induction s arbitrary: k rule: rev_induct)
  case (snoc c s)
  then show ?case by (simp add: read_dec_snoc algebra_simps)
qed (simp add: read_dec_def)

lemma read_dec_append: "read_dec (s @ t) = read_dec s * 10 ^ length t + read_dec t"
  unfolding read_dec_foldl [of "read_dec s" t, symmetric] by (simp only: read_dec_def foldl_append)

lemma read_dec_zeros: "read_dec (replicate k (digit 0)) = 0"
  by (induction k) (simp_all add: read_dec_def digit_value_digit)

lemma length_dec: "n < 10 ^ k \<Longrightarrow> 0 < k \<Longrightarrow> length (dec n) \<le> k"
proof (induction n arbitrary: k rule: dec.induct)
  case (1 n)
  show ?case
  proof (cases "n < 10")
    case True
    with "1.prems" show ?thesis by (subst dec.simps) simp
  next
    case False
    with "1.prems" obtain j where k: "k = Suc j" by (cases k) auto
    have "0 < j" using "1.prems"(1) False by (cases j) (simp_all add: k)
    note k = k this
    with "1.prems"(1) have "n div 10 < 10 ^ j" by auto
    with "1.IH" [OF False this k(2)] False show ?thesis by (subst dec.simps) (simp add: k)
  qed
qed

lemma pad6: "n < 1000000 \<Longrightarrow> length (pad6 n) = 6 \<and> read_dec (pad6 n) = n \<and> list_all is_digit (pad6 n)"
  using length_dec [of n 6] dec_digits
  by (auto simp: pad6_def Let_def read_dec_append read_dec_zeros read_dec_dec list_all_iff)
    (simp add: is_digit_def upt_rec)

lemma fixed6_parts:
  "\<exists>whole frac. fixed6 a = whole @ ''.'' @ frac \<and> length frac = 6 \<and> list_all is_digit (whole @ frac) \<and>
    \<bar>real (read_dec whole) + real (read_dec frac) / 1000000 - f64_value a\<bar> \<le> 1 / 2000000"
proof -
  let ?m = "millionths a"
  let ?w = "dec (?m div 1000000)" and ?f = "pad6 (?m mod 1000000)"
  have f: "length ?f = 6 \<and> read_dec ?f = ?m mod 1000000 \<and> list_all is_digit ?f" by (rule pad6) simp
  have "real ?m = real (?m div 1000000) * 1000000 + real (?m mod 1000000)"
    by (metis div_mult_mod_eq of_nat_add of_nat_mult of_nat_numeral)
  with millionths_error [of a]
  have "\<bar>real (?m div 1000000) + real (?m mod 1000000) / 1000000 - f64_value a\<bar> \<le> 1 / 2000000"
    unfolding abs_le_iff by (simp add: field_simps)
  moreover have "list_all is_digit ?w" using dec_digits by (auto simp: list_all_iff)
  ultimately show ?thesis using f
    by (intro exI [of _ ?w] exI [of _ ?f]) (simp add: fixed6_def Let_def read_dec_dec)
qed

text \<open>
  The printed saturation ratio has six decimals and is the value it prints, to the nearest
  millionth.
\<close>

theorem ratio_text_exact:
  "\<exists>whole frac. fixed6 a = whole @ ''.'' @ frac \<and> length frac = 6 \<and> list_all is_digit (whole @ frac) \<and>
    \<bar>real (read_dec whole) + real (read_dec frac) / 1000000 - f64_value a\<bar> \<le> 1 / 2000000"
  by (rule fixed6_parts)

subsection \<open>Reading the text back\<close>

text \<open>
  A scraper: the text split into lines, comment lines skipped, a sample line being a series
  and, after the first blank, a value.
\<close>

fun lines_of :: "string \<Rightarrow> string \<Rightarrow> string list" where
  "lines_of acc [] = (if acc = [] then [] else [acc])"
| "lines_of acc (c # cs) = (if c = CHR 0x0A then acc # lines_of [] cs else lines_of (acc @ [c]) cs)"

definition read_sample :: "string \<Rightarrow> (string \<times> string) list" where
  "read_sample line =
    (if line = [] \<or> hd line = CHR ''#'' then []
     else [(takeWhile (\<lambda>c. c \<noteq> CHR '' '') line, tl (dropWhile (\<lambda>c. c \<noteq> CHR '' '') line))])"

definition scrape :: "string \<Rightarrow> (string \<times> string) list" where
  "scrape text = concat (map read_sample (lines_of [] text))"

text \<open>What it should read: the series of a snapshot, in order.\<close>

fun bucket_samples :: "string \<Rightarrow> nat \<Rightarrow> queue_time_bucket list \<Rightarrow> (string \<times> string) list" where
  "bucket_samples ns cumulative [] = []"
| "bucket_samples ns cumulative (b # bs) =
    (let cumulative' = saturating_add cumulative (bucket_count b)
     in (ns @ ''_queue_time_ns_bucket{le='' @ quote @ le_text (le_ns b) @ quote @ ''}'', dec cumulative') #
        bucket_samples ns cumulative' bs)"

definition samples :: "string \<Rightarrow> scheduler_stats \<Rightarrow> (string \<times> string) list" where
  "samples ns st =
    map (\<lambda>(name, help, kind, val). (ns @ name, val)) (scalar_metrics st) @
    (if st_queue_time_histogram st = [] then []
     else bucket_samples ns 0 (st_queue_time_histogram st) @
       [(ns @ ''_queue_time_ns_count'', dec (st_queue_time_samples st)),
        (ns @ ''_queue_time_ns_sum'', dec (st_queue_time_sum_ns st))]) @
    map (\<lambda>e. (ns @ ''_tenant_dequeued_total{tenant='' @ quote @ dec (unat (as_u64 (tc_tenant e))) @ quote @ ''}'',
        dec (tc_count e))) (st_top_tenants st)"

text \<open>A namespace that does not break the format: not empty, no comment sign, no blank or line end.\<close>

definition one_line :: "string \<Rightarrow> bool" where
  "one_line s \<longleftrightarrow> CHR 0x0A \<notin> set s"

definition word_of :: "string \<Rightarrow> bool" where
  "word_of s \<longleftrightarrow> CHR 0x0A \<notin> set s \<and> CHR '' '' \<notin> set s"

definition clean :: "string \<Rightarrow> bool" where
  "clean ns \<longleftrightarrow> ns \<noteq> [] \<and> hd ns \<noteq> CHR ''#'' \<and> word_of ns"

lemma word_of_simps [simp]:
  "word_of []" "word_of (c # s) \<longleftrightarrow> c \<noteq> CHR 0x0A \<and> c \<noteq> CHR '' '' \<and> word_of s"
  "word_of (s @ t) \<longleftrightarrow> word_of s \<and> word_of t"
  by (auto simp: word_of_def)

lemma one_line_simps [simp]:
  "one_line []" "one_line (c # s) \<longleftrightarrow> c \<noteq> CHR 0x0A \<and> one_line s"
  "one_line (s @ t) \<longleftrightarrow> one_line s \<and> one_line t"
  by (auto simp: one_line_def)

lemma word_one_line: "word_of s \<Longrightarrow> one_line s"
  by (simp add: word_of_def one_line_def)

lemma word_dec [simp]: "word_of (dec n)"
  using dec_digits digits_plain unfolding word_of_def by blast

lemma word_le_text [simp]: "word_of (le_text n)"
  by (simp add: le_text_def)

lemma one_line_fixed6 [simp]: "one_line (fixed6 a)"
proof -
  obtain w f where "fixed6 a = w @ ''.'' @ f" "list_all is_digit (w @ f)"
    using fixed6_parts [of a] by blast
  then show ?thesis using digits_plain(1) by (auto simp: one_line_def list_all_iff)
qed

lemma lines_of_line: "one_line l \<Longrightarrow> lines_of acc (l @ CHR 0x0A # rest) = (acc @ l) # lines_of [] rest"
  by (induction l arbitrary: acc) auto

lemma scrape_line: "one_line l \<Longrightarrow> scrape (l @ CHR 0x0A # rest) = read_sample l @ scrape rest"
  by (simp add: scrape_def lines_of_line)

lemma scrape_Nil [simp]: "scrape [] = []"
  by (simp add: scrape_def)

lemma scrape_comment:
  assumes "clean ns" and "one_line name" and "one_line help" and "one_line kind"
  shows "scrape (comment_text ns name help kind @ rest) = scrape rest"
proof -
  have ns: "one_line ns" using assms(1) by (simp add: clean_def word_one_line)
  have "comment_text ns name help kind @ rest =
      (''# HELP '' @ ns @ name @ '' '' @ help) @ CHR 0x0A # (''# TYPE '' @ ns @ name @ '' '' @ kind) @ CHR 0x0A # rest"
    by (simp add: comment_text_def)
  moreover have "one_line (''# HELP '' @ ns @ name @ '' '' @ help)" "one_line (''# TYPE '' @ ns @ name @ '' '' @ kind)"
    using ns assms(2-4) by simp_all
  ultimately show ?thesis
    by (simp only: scrape_line) (simp add: read_sample_def)
qed

lemma scrape_sample:
  assumes "clean ns" and "word_of name" and "one_line val"
  shows "scrape ((ns @ name) @ '' '' @ val @ CHR 0x0A # rest) = (ns @ name, val) # scrape rest"
proof -
  have w: "word_of (ns @ name)" and h: "ns @ name \<noteq> []" "hd (ns @ name) \<noteq> CHR ''#''"
    using assms(1,2) by (simp_all add: clean_def)
  have nb: "\<forall>c \<in> set (ns @ name). c \<noteq> CHR '' ''" using w by (auto simp: word_of_def)
  have "one_line ((ns @ name) @ '' '' @ val)" using word_one_line [OF w] assms(3) by simp
  from scrape_line [OF this, of rest]
  have "scrape ((ns @ name) @ '' '' @ val @ CHR 0x0A # rest) = read_sample ((ns @ name) @ '' '' @ val) @ scrape rest"
    by simp
  also have "read_sample ((ns @ name) @ '' '' @ val) = [(ns @ name, val)]"
    using h nb by (simp add: read_sample_def takeWhile_append2 dropWhile_append2 hd_append split: if_splits)
  finally show ?thesis by simp
qed

lemma scrape_metric:
  assumes "clean ns" and "word_of name" and "one_line help" and "one_line kind" and "one_line val"
  shows "scrape (metric_text ns (name, help, kind, val) @ rest) = (ns @ name, val) # scrape rest"
  using scrape_comment [OF assms(1) word_one_line [OF assms(2)] assms(3,4)] scrape_sample [OF assms(1,2,5), of rest]
  by (simp add: metric_text_def)

lemma scrape_metrics:
  assumes "clean ns" and "\<forall>(name, help, kind, val) \<in> set ms. word_of name \<and> one_line help \<and> one_line kind \<and> one_line val"
  shows "scrape (concat (map (metric_text ns) ms) @ rest) =
    map (\<lambda>(name, help, kind, val). (ns @ name, val)) ms @ scrape rest"
  using assms(2)
proof (induction ms)
  case (Cons m ms)
  obtain n h k v where m: "m = (n, h, k, v)" by (cases m)
  with Cons scrape_metric [OF assms(1), of n h k v "concat (map (metric_text ns) ms) @ rest"]
  show ?case by simp
qed simp

lemma scalar_metrics_plain:
  "\<forall>(name, help, kind, val) \<in> set (scalar_metrics st). word_of name \<and> one_line help \<and> one_line kind \<and> one_line val"
  by (simp add: scalar_metrics_def word_one_line)

lemma scrape_buckets:
  assumes "clean ns"
  shows "scrape (bucket_lines ns k bs @ rest) = bucket_samples ns k bs @ scrape rest"
proof (induction bs arbitrary: k)
  case (Cons b bs)
  let ?name = "''_queue_time_ns_bucket{le='' @ quote @ le_text (le_ns b) @ quote @ ''}''"
  have "word_of ?name" by simp
  from scrape_sample [OF assms this, of "dec (saturating_add k (bucket_count b))"] Cons word_one_line [OF word_dec]
  show ?case by (simp add: Let_def)
qed simp

lemma scrape_tenants:
  assumes "clean ns"
  shows "scrape (concat (map (tenant_line ns) es) @ rest) =
    map (\<lambda>e. (ns @ ''_tenant_dequeued_total{tenant='' @ quote @ dec (unat (as_u64 (tc_tenant e))) @ quote @ ''}'',
      dec (tc_count e))) es @ scrape rest"
proof (induction es)
  case (Cons e es)
  let ?name = "''_tenant_dequeued_total{tenant='' @ quote @ dec (unat (as_u64 (tc_tenant e))) @ quote @ ''}''"
  have "word_of ?name" by simp
  from scrape_sample [OF assms this, of "dec (tc_count e)"] Cons word_one_line [OF word_dec]
  show ?case by (simp add: tenant_line_def)
qed simp

text \<open>The scraper reads one sample for every sample line, in order.\<close>

lemma scrape_samples:
  assumes "clean (namespace_of namespace)"
  shows "scrape (render_stats st namespace) = samples (namespace_of namespace) st"
proof -
  let ?ns = "namespace_of namespace"
  note line = word_one_line [OF word_dec]
  have hist: "scrape (histogram_text ?ns st @ rest) =
      (if st_queue_time_histogram st = [] then []
       else bucket_samples ?ns 0 (st_queue_time_histogram st) @
         [(?ns @ ''_queue_time_ns_count'', dec (st_queue_time_samples st)),
          (?ns @ ''_queue_time_ns_sum'', dec (st_queue_time_sum_ns st))]) @ scrape rest" for rest
    using scrape_comment [OF assms, of "''_queue_time_ns''" "''Queue time histogram''" "''histogram''"]
      scrape_buckets [OF assms, of 0 "st_queue_time_histogram st"]
      scrape_sample [OF assms _ line, of "''_queue_time_ns_count''" "st_queue_time_samples st"]
      scrape_sample [OF assms _ line, of "''_queue_time_ns_sum''" "st_queue_time_sum_ns st"]
    by (simp add: histogram_text_def)
  have ten: "scrape (tenants_text ?ns st @ rest) =
      map (\<lambda>e. (?ns @ ''_tenant_dequeued_total{tenant='' @ quote @ dec (unat (as_u64 (tc_tenant e))) @ quote @ ''}'',
        dec (tc_count e))) (st_top_tenants st) @ scrape rest" for rest
    using scrape_comment [OF assms, of "''_tenant_dequeued_total''"
        "''Approx dequeued count per tenant (top talkers)''" "''gauge''"]
      scrape_tenants [OF assms, of "st_top_tenants st"]
    by (simp add: tenants_text_def)
  show ?thesis
    using scrape_metrics [OF assms scalar_metrics_plain, of st "histogram_text ?ns st @ tenants_text ?ns st"]
      hist [of "tenants_text ?ns st"] ten [of "[]"]
    by (simp add: render_stats_def samples_def Let_def)
qed

subsection \<open>What the page says\<close>

text \<open>
  The specification names every series and the field it is to show. It is stated on what a
  scraper reads, a list of series and values: the number behind a series; and for the two
  families with a label, the labels in order, each with its number.
\<close>

definition shown :: "(string \<times> string) list \<Rightarrow> string \<Rightarrow> nat option" where
  "shown page series = map_option read_dec (map_of page series)"

definition labelled :: "string \<Rightarrow> (string \<times> string) list \<Rightarrow> (string \<times> nat) list" where
  "labelled family page = concat (map (\<lambda>(series, val).
     if take (length family) series = family
     then [(takeWhile (\<lambda>c. c \<noteq> CHR 0x22) (drop (length family) series), read_dec val)] else []) page)"

definition bound_of :: "string \<Rightarrow> nat" where
  "bound_of label = (if label = ''+Inf'' then u64_max else read_dec label)"

definition shows_counters :: "string \<Rightarrow> scheduler_stats \<Rightarrow> (string \<times> string) list \<Rightarrow> bool" where
  "shows_counters ns st page \<longleftrightarrow>
     shown page (ns @ ''_enqueued_total'') = Some (st_enqueued st) \<and>
     shown page (ns @ ''_dequeued_total'') = Some (st_dequeued st) \<and>
     shown page (ns @ ''_dropped_total'') = Some (st_dropped st) \<and>
     shown page (ns @ ''_rejected_global_total'') = Some (st_rejected_global st) \<and>
     shown page (ns @ ''_rejected_tenant_total'') = Some (st_rejected_tenant st) \<and>
     shown page (ns @ ''_timeout_rejected_total'') = Some (st_timeout_rejected st) \<and>
     shown page (ns @ ''_dropped_policy_total'') = Some (st_dropped_policy st) \<and>
     shown page (ns @ ''_expired_total'') = Some (st_expired st)"

definition shows_gauges :: "string \<Rightarrow> scheduler_stats \<Rightarrow> (string \<times> string) list \<Rightarrow> bool" where
  "shows_gauges ns st page \<longleftrightarrow>
     shown page (ns @ ''_queue_len_estimate'') = Some (st_queue_len_estimate st) \<and>
     shown page (ns @ ''_max_global_config'') = Some (st_max_global st) \<and>
     shown page (ns @ ''_queue_time_sum_ns'') = Some (st_queue_time_sum_ns st) \<and>
     shown page (ns @ ''_queue_time_samples'') = Some (st_queue_time_samples st) \<and>
     shown page (ns @ ''_queue_time_p95_ns'') = Some (st_queue_time_p95_ns st) \<and>
     shown page (ns @ ''_queue_time_p99_ns'') = Some (st_queue_time_p99_ns st) \<and>
     (\<exists>whole frac. map_of page (ns @ ''_queue_saturation_ratio'') = Some (whole @ ''.'' @ frac) \<and> length frac = 6 \<and>
        \<bar>real (read_dec whole) + real (read_dec frac) / 1000000 - f64_value (st_queue_saturation_ratio st)\<bar> \<le> 1 / 2000000)"

text \<open>
  The buckets are cumulative: the number behind a bound is the sum of the counts up to it, as
  a \<open>u64\<close> that saturates. Without a histogram none of its series is on the page.
\<close>

definition shows_histogram :: "string \<Rightarrow> scheduler_stats \<Rightarrow> (string \<times> string) list \<Rightarrow> bool" where
  "shows_histogram ns st page \<longleftrightarrow>
     (let h = st_queue_time_histogram st in
      map (\<lambda>(l, n). (bound_of l, n)) (labelled (ns @ ''_queue_time_ns_bucket{le='' @ quote) page) =
        map (\<lambda>i. (le_ns (h ! i), min (\<Sum>b \<leftarrow> take (Suc i) h. bucket_count b) u64_max)) [0..<length h] \<and>
      shown page (ns @ ''_queue_time_ns_count'') = (if h = [] then None else Some (st_queue_time_samples st)) \<and>
      shown page (ns @ ''_queue_time_ns_sum'') = (if h = [] then None else Some (st_queue_time_sum_ns st)))"

definition shows_tenants :: "string \<Rightarrow> scheduler_stats \<Rightarrow> (string \<times> string) list \<Rightarrow> bool" where
  "shows_tenants ns st page \<longleftrightarrow>
     map (\<lambda>(l, n). (read_dec l, n)) (labelled (ns @ ''_tenant_dequeued_total{tenant='' @ quote) page) =
       map (\<lambda>e. (unat (as_u64 (tc_tenant e)), tc_count e)) (st_top_tenants st)"

lemma labelled_simps [simp]:
  "labelled family [] = []"
  "labelled family (p @ q) = labelled family p @ labelled family q"
  "labelled (ns @ k) ((ns @ name, val) # p) =
     (if take (length k) name = k then [(takeWhile (\<lambda>c. c \<noteq> CHR 0x22) (drop (length k) name), read_dec val)] else []) @
     labelled (ns @ k) p"
  by (simp_all add: labelled_def)

lemma until_quote: "(\<And>c. c \<in> set s \<Longrightarrow> c \<noteq> CHR 0x22) \<Longrightarrow> takeWhile (\<lambda>c. c \<noteq> CHR 0x22) (s @ CHR 0x22 # t) = s"
  by (simp add: takeWhile_append)

lemma digits_no_quote: "is_digit c \<Longrightarrow> c \<noteq> CHR 0x22"
  using digit_code [of c] by auto

lemma label_dec: "takeWhile (\<lambda>c. c \<noteq> CHR 0x22) (dec n @ CHR 0x22 # t) = dec n"
  using dec_digits digits_no_quote by (intro until_quote) blast

lemma label_le: "takeWhile (\<lambda>c. c \<noteq> CHR 0x22) (le_text n @ CHR 0x22 # t) = le_text n"
  using label_dec by (simp add: le_text_def)

lemma bound_of_le: "bound_of (le_text n) = n"
proof -
  have "dec n \<noteq> ''+Inf''" using dec_digits [of "CHR ''+''" n] digit_code [of "CHR ''+''"] by auto
  then show ?thesis by (simp add: bound_of_def le_text_def read_dec_dec)
qed

lemma labelled_buckets:
  "map (\<lambda>(l, n). (bound_of l, n)) (labelled (ns @ ''_queue_time_ns_bucket{le='' @ quote) (bucket_samples ns (min k u64_max) bs)) =
    map (\<lambda>i. (le_ns (bs ! i), min (k + (\<Sum>b \<leftarrow> take (Suc i) bs. bucket_count b)) u64_max)) [0..<length bs]"
proof (induction bs arbitrary: k)
  case (Cons b bs)
  have sat: "saturating_add (min k u64_max) n = min (k + n) u64_max" for n by (auto simp: saturating_add_def)
  have "[0..<length (b # bs)] = 0 # map Suc [0..<length bs]" by (simp add: upt_conv_Cons map_Suc_upt del: upt_Suc)
  with Cons.IH [of "k + bucket_count b"] show ?case
    by (simp add: sat Let_def label_le bound_of_le read_dec_dec add.assoc comp_def del: upt_Suc)
qed simp

lemma labelled_tenants:
  "map (\<lambda>(l, n). (read_dec l, n)) (labelled (ns @ ''_tenant_dequeued_total{tenant='' @ quote)
      (map (\<lambda>e. (ns @ ''_tenant_dequeued_total{tenant='' @ quote @ dec (unat (as_u64 (tc_tenant e))) @ quote @ ''}'',
        dec (tc_count e))) es)) =
    map (\<lambda>e. (unat (as_u64 (tc_tenant e)), tc_count e)) es"
  by (induction es) (simp_all add: label_dec read_dec_dec)

lemma other_family:
  "labelled (ns @ ''_tenant_dequeued_total{tenant='' @ quote) (bucket_samples ns k bs) = []"
  "labelled (ns @ ''_queue_time_ns_bucket{le='' @ quote)
      (map (\<lambda>e. (ns @ ''_tenant_dequeued_total{tenant='' @ quote @ f e, g e)) es) = []"
  by (induction bs arbitrary: k) (simp_all add: Let_def, induction es, simp_all)

lemma lookup_scalar:
  "map_of (map (\<lambda>(name, help, kind, val). (ns @ name, val)) ms) (ns @ k) =
    map_of (map (\<lambda>(name, help, kind, val). (name, val)) ms) k"
  by (induction ms) auto

lemma lookup_bucket: "take 16 k \<noteq> ''_queue_time_ns_b'' \<Longrightarrow> map_of (bucket_samples ns n bs) (ns @ k) = None"
  by (induction bs arbitrary: n) (auto simp: Let_def)

lemma lookup_tenant:
  "take 8 k \<noteq> ''_tenant_'' \<Longrightarrow> map_of (map (\<lambda>e. (ns @ ''_tenant_dequeued_total{tenant='' @ f e, g e)) es) (ns @ k) = None"
  by (induction es) auto

lemma length_bucket_samples [simp]: "length (bucket_samples ns n bs) = length bs"
  by (induction bs arbitrary: n) (simp_all add: Let_def)

lemma page_shows:
  "shows_counters ns st (samples ns st)" "shows_gauges ns st (samples ns st)"
  "shows_histogram ns st (samples ns st)" "shows_tenants ns st (samples ns st)"
  "length (samples ns st) = 15 + (if st_queue_time_histogram st = [] then 0 else length (st_queue_time_histogram st) + 2) +
      length (st_top_tenants st)"
proof -
  note look = shown_def samples_def map_add_def lookup_scalar lookup_bucket lookup_tenant [simplified] read_dec_dec
  show "shows_counters ns st (samples ns st)"
    by (simp add: shows_counters_def look scalar_metrics_def)
  obtain whole frac where ratio: "fixed6 (st_queue_saturation_ratio st) = whole @ ''.'' @ frac" "length frac = 6"
    "\<bar>real (read_dec whole) + real (read_dec frac) / 1000000 - f64_value (st_queue_saturation_ratio st)\<bar> \<le> 1 / 2000000"
    using fixed6_parts by blast
  then show "shows_gauges ns st (samples ns st)"
    unfolding shows_gauges_def by (intro conjI exI [of _ whole] exI [of _ frac]) (simp_all add: look scalar_metrics_def)
  show "shows_histogram ns st (samples ns st)"
    using labelled_buckets [of ns 0 "st_queue_time_histogram st"]
    by (simp add: shows_histogram_def Let_def look scalar_metrics_def other_family [simplified])
  show "shows_tenants ns st (samples ns st)"
    using labelled_tenants [of ns "st_top_tenants st"]
    by (simp add: shows_tenants_def look scalar_metrics_def other_family [simplified])
  show "length (samples ns st) = 15 + (if st_queue_time_histogram st = [] then 0 else length (st_queue_time_histogram st) + 2) +
      length (st_top_tenants st)"
    by (simp add: samples_def scalar_metrics_def)
qed

text \<open>
  C15: What a scraper reads from the exposition text is the snapshot. Each of the fifteen plain
  series, found by its name, shows the field it is named after: the fourteen counts exactly,
  the saturation ratio to the nearest millionth. The bucket series carry the bounds of the
  histogram in order, each with the saturating sum of the counts up to it, followed by the
  count and the sum of the queue times; a snapshot without histogram has none of these. The tenant
  series are the top tenants with their counts, in order. This holds for every namespace that is
  a single word, the default \<open>firq\<close> for the empty one, and the page holds no other sample.
\<close>

theorem scrape_reads_snapshot:
  assumes "clean (namespace_of namespace)"
  shows "\<exists>page. scrape (render_stats st namespace) = page \<and>
    shows_counters (namespace_of namespace) st page \<and> shows_gauges (namespace_of namespace) st page \<and>
    shows_histogram (namespace_of namespace) st page \<and> shows_tenants (namespace_of namespace) st page \<and>
    length page = 15 + (if st_queue_time_histogram st = [] then 0 else length (st_queue_time_histogram st) + 2) +
      length (st_top_tenants st)"
  using page_shows scrape_samples [OF assms, of st] by simp

theorem scrape_reads_snapshot_witness:
  "\<exists>page. scrape (render_stats (stats_snapshot demo_config (shared (scheduler_new demo_config :: nat sched))) []) = page \<and>
    shows_counters ''firq'' (stats_snapshot demo_config (shared (scheduler_new demo_config :: nat sched))) page"
proof -
  have "clean (namespace_of [])" by (simp add: clean_def namespace_of_def)
  from scrape_reads_snapshot [OF this] show ?thesis by (simp add: namespace_of_def)
qed

subsection \<open>The histogram of a run\<close>

text \<open>The running sums that the bucket lines print.\<close>

fun running :: "nat \<Rightarrow> queue_time_bucket list \<Rightarrow> nat list" where
  "running k [] = []"
| "running k (b # bs) = (k + bucket_count b) # running (k + bucket_count b) bs"

lemma bucket_samples_running:
  "k + sum_list (map bucket_count bs) \<le> u64_max \<Longrightarrow>
    bucket_samples ns k bs = map (\<lambda>(b, n). (ns @ ''_queue_time_ns_bucket{le='' @ quote @ le_text (le_ns b) @ quote @ ''}'', dec n))
      (zip bs (running k bs))"
  by (induction bs arbitrary: k) (simp_all add: saturating_add_exact Let_def add.assoc)

lemma length_running [simp]: "length (running k bs) = length bs"
  by (induction bs arbitrary: k) simp_all

lemma running_props: "(\<forall>n \<in> set (running k bs). k \<le> n) \<and> sorted (running k bs) \<and>
    (bs \<noteq> [] \<longrightarrow> last (running k bs) = k + sum_list (map bucket_count bs))"
proof (induction bs arbitrary: k)
  case (Cons b bs)
  have "running (k + bucket_count b) bs \<noteq> [] \<longleftrightarrow> bs \<noteq> []" using length_running by (metis length_0_conv)
  with Cons [of "k + bucket_count b"] show ?case by (auto intro: order_trans [OF le_add1])
qed simp

text \<open>
  In any run the exposed histogram is a Prometheus histogram: the bucket series carry
  non-decreasing cumulative counts, the last one is the \<open>+Inf\<close> bucket, and its count is the
  \<open>_count\<close> series, which is the number of tasks delivered.
\<close>

theorem exposed_histogram:
  assumes "length es \<le> u64_max" and "run C clk es = (os, s)" and "clean (namespace_of namespace)"
  shows "\<exists>bounds counts. sorted counts \<and> last counts = count_out is_delivered os \<and> last bounds = ''+Inf'' \<and>
    length bounds = length counts \<and> counts \<noteq> [] \<and>
    (let ns = namespace_of namespace; got = scrape (render_stats (stats_snapshot C (shared s)) namespace) in
      sublist (map (\<lambda>(le, n). (ns @ ''_queue_time_ns_bucket{le='' @ quote @ le @ quote @ ''}'', dec n)) (zip bounds counts) @
          [(ns @ ''_queue_time_ns_count'', dec (count_out is_delivered os))]) got)"
proof -
  let ?ns = "namespace_of namespace" and ?st = "stats_snapshot C (shared s)" and ?d = "count_out is_delivered os"
  let ?h = "st_queue_time_histogram ?st"
  note m = run_meters [OF assms(1,2)]
  have h: "?h = histogram (stats (shared s))" "st_queue_time_samples ?st = ?d"
    using m by (simp_all add: stats_snapshot_def Let_def)
  have counts: "map bucket_count ?h = queue_time_buckets (stats (shared s))" and les: "map le_ns ?h = QUEUE_TIME_BUCKETS_NS"
    using m histogram_counts [of "stats (shared s)"] by (simp_all add: h)
  have sum: "sum_list (map bucket_count ?h) = ?d" "?d \<le> u64_max" using m by (simp_all only: counts)
  have ne: "?h \<noteq> []" using les by (auto simp: QUEUE_TIME_BUCKETS_NS_def)
  let ?bounds = "map (le_text \<circ> le_ns) ?h" and ?counts = "running 0 ?h"
  have "last ?bounds = le_text (last (map le_ns ?h))" using ne by (simp add: last_map)
  then have inf: "last ?bounds = ''+Inf''" by (simp only: les) (simp add: QUEUE_TIME_BUCKETS_NS_def le_text_def)
  have "?counts \<noteq> []" using ne length_running by (metis length_0_conv)
  define xs where "xs = map (\<lambda>(le, n). (?ns @ ''_queue_time_ns_bucket{le='' @ quote @ le @ quote @ ''}'', dec n))
      (zip ?bounds ?counts)"
  have bs: "bucket_samples ?ns 0 ?h = xs"
    using bucket_samples_running [of 0 ?h ?ns] sum by (simp add: xs_def zip_map1 case_prod_unfold)
  have "sublist (xs @ [(?ns @ ''_queue_time_ns_count'', dec ?d)])
      (hd @ (xs @ [(?ns @ ''_queue_time_ns_count'', dec ?d)]) @ tl)" for hd tl
    unfolding sublist_def by blast
  from this [of "map (\<lambda>(name, help, kind, val). (?ns @ name, val)) (scalar_metrics ?st)"]
  have "sublist (xs @ [(?ns @ ''_queue_time_ns_count'', dec ?d)]) (samples ?ns ?st)"
    using ne by (simp add: samples_def bs h(2))
  note sub = this [unfolded xs_def, folded scrape_samples [OF assms(3)]]
  have facts: "sorted ?counts" "last ?counts = ?d" "length ?bounds = length ?counts"
    using running_props [of 0 ?h] ne sum(1) by simp_all
  show ?thesis unfolding Let_def
    by (intro exI [of _ ?bounds] exI [of _ ?counts] conjI facts inf \<open>?counts \<noteq> []\<close> sub)
qed

theorem exposed_histogram_witness:
  "\<exists>os s (counts :: nat list). demo_run [EnqueueNow tenant7 (demo_task 0), Dequeue, Dequeue] = (os, s) \<and> last counts = 1 \<and>
    sorted counts \<and> (''firq_queue_time_ns_count'', dec 1) \<in> set (scrape (render_stats (stats_snapshot demo_config (shared s)) []))"
proof -
  obtain os s where r: "demo_run [EnqueueNow tenant7 (demo_task 0), Dequeue, Dequeue] = (os, s)" by fastforce
  then have d: "count_out is_delivered os = 1" by (auto simp: eval count_out_def)
  have "clean (namespace_of [])" by (simp add: clean_def namespace_of_def)
  from exposed_histogram [OF _ r this] obtain bounds counts where "sorted counts" "last counts = 1"
    "sublist (map (\<lambda>(le, n). (namespace_of [] @ ''_queue_time_ns_bucket{le='' @ quote @ le @ quote @ ''}'', dec n)) (zip bounds counts) @
      [(namespace_of [] @ ''_queue_time_ns_count'', dec 1)]) (scrape (render_stats (stats_snapshot demo_config (shared s)) []))"
    by (auto simp: Let_def d)
  from set_mono_sublist [OF this(3)] have "(namespace_of [] @ ''_queue_time_ns_count'', dec 1) \<in>
      set (scrape (render_stats (stats_snapshot demo_config (shared s)) []))" by auto
  then have "(''firq_queue_time_ns_count'', dec 1) \<in>
      set (scrape (render_stats (stats_snapshot demo_config (shared s)) []))" by (simp add: namespace_of_def)
  with r \<open>sorted counts\<close> \<open>last counts = 1\<close> show ?thesis by blast
qed

end
