(* ===== verification/Coverage.thy ===== *)
theory Coverage
  imports Dequeue_Sound
begin

text \<open>
  What a dequeue that finds no task has done: it has come to every queue. Afterwards every
  queue is empty or has a live task at its front whose tenant was given its quantum, and
  lacks credit for it. This is what the blocking consumers and the progress of deficit
  round robin rest on.
\<close>

subsection \<open>Served queues and growing credit\<close>

definition served :: "shared \<Rightarrow> 'a view \<Rightarrow> tenant_key \<Rightarrow> priority \<Rightarrow> bool" where
  "served g Q t p \<longleftrightarrow> Q t p = [] \<or> entry_id (hd (Q t p)) \<in> pending_ids g"

lemma served_takes:
  assumes "takes clk R res Q g Q' g'" and "Q' t p = Q t p" and "served g Q t p"
  shows "served g' Q' t p"
proof (cases "Q t p")
  case (Cons e q)
  have "e \<in> set (Q' t p)" using Cons assms(2) by simp
  then have "entry_id e \<notin> R" using takesD(1) [OF assms(1), of t p] by auto
  moreover have "pending_ids g' = pending_ids g - R" using takesD(4) [OF assms(1)] by (simp add: tally_def)
  ultimately show ?thesis using assms(2,3) Cons by (simp add: served_def)
qed (use assms(2) in \<open>simp add: served_def\<close>)

text \<open>
  The quantum is positive, credit is not negative, and adding the quantum to a credit that
  does not cover a task stays within \<open>i64\<close>.
\<close>

definition paced_state :: "'a tenant_state \<Rightarrow> bool" where
  "paced_state ts \<longleftrightarrow> 0 < quantum ts \<and> (\<forall>p. 0 \<le> deficits ts p) \<and>
     (\<forall>p. \<forall>e \<in> set (queues ts p). task_cost (entry_task e) + quantum ts \<le> i64_max)"

definition paced_shard :: "'a shard \<Rightarrow> bool" where
  "paced_shard sh \<longleftrightarrow> (\<forall>t ts. tenants sh t = Some ts \<longrightarrow> paced_state ts)"

text \<open>\<open>grown k sh sh' t p\<close>: the credit of the tenant has grown by at least \<open>k\<close> quanta.\<close>

definition grown :: "int \<Rightarrow> 'a shard \<Rightarrow> 'a shard \<Rightarrow> tenant_key \<Rightarrow> priority \<Rightarrow> bool" where
  "grown k sh sh' t p \<longleftrightarrow> (\<forall>ts. tenants sh t = Some ts \<longrightarrow>
     (\<exists>ts'. tenants sh' t = Some ts' \<and> quantum ts' = quantum ts \<and> deficits ts p + k * quantum ts \<le> deficits ts' p))"

lemma grown_refl [simp]: "grown 0 sh sh t p"
  by (simp add: grown_def)

lemma grown_trans:
  assumes "grown k sh sh1 t p" and "grown l sh1 sh2 t p"
  shows "grown (k + l) sh sh2 t p"
  unfolding grown_def
proof (intro allI impI)
  fix ts assume "tenants sh t = Some ts"
  with assms(1) obtain ts1 where 1: "tenants sh1 t = Some ts1" "quantum ts1 = quantum ts"
    "deficits ts p + k * quantum ts \<le> deficits ts1 p" unfolding grown_def by blast
  with assms(2) obtain ts2 where "tenants sh2 t = Some ts2" "quantum ts2 = quantum ts1"
    "deficits ts1 p + l * quantum ts1 \<le> deficits ts2 p" unfolding grown_def by blast
  with 1 show "\<exists>ts'. tenants sh2 t = Some ts' \<and> quantum ts' = quantum ts \<and>
      deficits ts p + (k + l) * quantum ts \<le> deficits ts' p"
    by (intro exI [of _ ts2]) (simp add: distrib_right)
qed

text \<open>The credit of a waiting tenant stays below the cost of its first task plus one quantum.\<close>

definition tight :: "'a shard \<Rightarrow> tenant_key \<Rightarrow> priority \<Rightarrow> bool" where
  "tight sh t p \<longleftrightarrow> (\<forall>ts e q. tenants sh t = Some ts \<longrightarrow> queues ts p = e # q \<longrightarrow>
     deficits ts p < task_cost (entry_task e) + quantum ts)"

subsection \<open>One visit\<close>

text \<open>A visit that delivers nothing, from the tenant's turn to its end.\<close>

definition covers :: "shared \<Rightarrow> 'a shard \<Rightarrow> shared \<Rightarrow> 'a shard \<Rightarrow> tenant_key \<Rightarrow> priority \<Rightarrow> bool" where
  "covers g sh g' sh' t p \<longleftrightarrow> served g' (squeue sh') t p \<and>
     (paced_shard sh \<longrightarrow> (squeue sh' t p \<noteq> [] \<longrightarrow> grown 1 sh sh' t p) \<and> tight sh' t p)"

text \<open>What any part of a fruitless dequeue keeps.\<close>

definition keeps :: "shared \<Rightarrow> 'a shard \<Rightarrow> shared \<Rightarrow> 'a shard \<Rightarrow> bool" where
  "keeps g sh g' sh' \<longleftrightarrow>
     (\<forall>t p. served g (squeue sh) t p \<longrightarrow> served g' (squeue sh') t p) \<and>
     (\<forall>t p. squeue sh t p = [] \<longrightarrow> squeue sh' t p = []) \<and>
     (paced_shard sh \<longrightarrow> paced_shard sh' \<and> (\<forall>t p. grown 0 sh sh' t p \<and> (tight sh t p \<longrightarrow> tight sh' t p)))"

lemma keeps_refl [simp]: "keeps g sh g sh"
  by (simp add: keeps_def)

lemma keeps_trans:
  assumes "keeps g sh g1 sh1" and "keeps g1 sh1 g2 sh2"
  shows "keeps g sh g2 sh2"
  using assms grown_trans [of 0 sh sh1 _ _ 0 sh2] unfolding keeps_def by auto

lemma covers_keeps:
  assumes "covers g sh g1 sh1 t p" and "keeps g1 sh1 g2 sh2" and "paced_shard sh \<longrightarrow> paced_shard sh1"
  shows "covers g sh g2 sh2 t p"
  using assms grown_trans [of 1 sh sh1 t p 0 sh2] unfolding covers_def keeps_def by auto

lemma keeps_covers:
  assumes "keeps g sh g1 sh1" and "covers g1 sh1 g2 sh2 t p"
  shows "covers g sh g2 sh2 t p"
  using assms grown_trans [of 0 sh sh1 t p 1 sh2] unfolding covers_def keeps_def by auto

lemma visit_covers:
  assumes inv: "shard_inv C sh" and ok: "queues_ok g (squeue sh)" and v: "visit clk p sh g = (Continue, sh', g')"
    and items: "ring_items (active_rings sh p) = t # us"
  shows "covers g sh g' sh' t p" and "keeps g sh g' sh'"
    and "active_rings sh' = (active_rings sh)(p := active_rings sh' p)"
    and "ring_items (active_rings sh' p) = us \<or> ring_items (active_rings sh' p) = us @ [t]"
proof -
  from inv have "ring_inv (active_rings sh p)" by (simp add: shard_inv_def)
  from ring.pop_Cons [OF this items] obtain r where pop: "ring_pop_front (active_rings sh p) = (Some t, r)"
    and r: "ring_inv r" "ring_items r = us" by blast
  have "set (ring_items (active_rings sh p)) \<subseteq> dom (tenants sh)" using inv by (simp add: shard_inv_def)
  then obtain ts where ts: "tenants sh t = Some ts" by (auto simp: items)
  let ?d = "dead (clk (ticks g)) g"
  have qok: "q_ok g (queues ts p)" using ok squeue_Some [OF ts] unfolding queues_ok_def by metis
  note eq = visit_eq [OF pop ts qok, of clk, unfolded Let_def]
  from visit_sound [OF inv ok v] obtain R where tk: "takes clk R None (squeue sh) g (squeue sh') g'"
    unfolding shard_takes_def by auto
  have keep: "keeps g sh g' sh'"
    if "\<forall>u q. (u, q) \<noteq> (t, p) \<longrightarrow> squeue sh' u q = squeue sh u q" "served g' (squeue sh') t p"
      "paced_shard sh \<longrightarrow> paced_shard sh' \<and> (\<forall>u q. grown 0 sh sh' u q \<and> (tight sh u q \<longrightarrow> tight sh' u q))"
  proof -
    have "served g (squeue sh) u q \<longrightarrow> served g' (squeue sh') u q" for u q
      using that(1,2) served_takes [OF tk] by (cases "(u, q) = (t, p)") auto
    moreover have "squeue sh u q = [] \<longrightarrow> squeue sh' u q = []" for u q
      using takesD(1) [OF tk, of u q] by simp
    ultimately show ?thesis using that(3) by (simp add: keeps_def)
  qed
  have all: "covers g sh g' sh' t p \<and> keeps g sh g' sh' \<and>
    active_rings sh' = (active_rings sh)(p := active_rings sh' p) \<and>
    (ring_items (active_rings sh' p) = us \<or> ring_items (active_rings sh' p) = us @ [t])"
  proof (cases "dropWhile ?d (queues ts p)")
    case Nil
    with v eq have sh': "sh' = put_ring p r (put_state t
        (ts\<lparr>queues := (queues ts)(p := []), active := (active ts)(p := False)\<rparr>) sh)" by simp
    have sv: "squeue sh' t p = []" by (simp add: sh')
    have pc: "paced_shard sh \<longrightarrow> paced_shard sh' \<and> (\<forall>u q. grown 0 sh sh' u q \<and> (tight sh u q \<longrightarrow> tight sh' u q))"
      using ts by (auto simp: paced_shard_def paced_state_def grown_def tight_def sh')
    have "keeps g sh g' sh'"
      by (rule keep [OF _ _ pc]) (auto simp: served_def sh' squeue_Some [OF ts])
    with sv r show ?thesis
      by (simp add: covers_def served_def) (simp add: sh' tight_def)
  next
    case (Cons e rest)
    with v eq have short: "deficits ts p < task_cost (entry_task e)" and g': "g' = after_expiry clk (takeWhile ?d (queues ts p)) g"
      and sh': "sh' = put_ring p (ring_push_back r t) (put_state t
             (ts\<lparr>queues := (queues ts)(p := e # rest),
                 deficits := (deficits ts)(p := wrap_i64 (deficits ts p + quantum ts))\<rparr>) sh)"
      by (auto split: if_splits)
    have e_in: "e \<in> set (queues ts p)" using Cons by (metis list.set_intros(1) set_dropWhileD)
    have sub: "set (e # rest) \<subseteq> set (queues ts p)" using Cons by (metis set_dropWhileD subsetI)
    have "\<not> ?d e" using Cons by (metis dropWhile_eq_Cons_conv)
    with qok e_in have "entry_id e \<in> pending_ids g" by (auto simp: q_ok_def dead_def)
    moreover have q': "squeue sh' t p = e # rest" by (simp add: sh')
    then have "entry_id e \<notin> R" using takesD(1) [OF tk, of t p] by (metis (mono_tags, lifting) list.set_intros(1) mem_Collect_eq set_filter)
    moreover have "pending_ids g' = pending_ids g - R" using takesD(4) [OF tk] by (simp add: tally_def)
    ultimately have sv: "served g' (squeue sh') t p" by (simp add: served_def q')
    have wrap: "wrap_i64 (deficits ts p + quantum ts) = deficits ts p + quantum ts" if "paced_shard sh"
    proof (rule wrap_i64_id)
      from that ts have "paced_state ts" by (simp add: paced_shard_def)
      with e_in have p: "0 < quantum ts" "0 \<le> deficits ts p" "task_cost (entry_task e) + quantum ts \<le> i64_max"
        by (auto simp: paced_state_def)
      with short show "deficits ts p + quantum ts < 2 ^ 63" by simp
      from p show "- (2 ^ 63) \<le> deficits ts p + quantum ts" by simp
    qed
    have pc: "paced_shard sh \<longrightarrow> paced_shard sh' \<and> (\<forall>u q. grown 0 sh sh' u q \<and> (tight sh u q \<longrightarrow> tight sh' u q))"
    proof (intro impI allI conjI)
      assume pa: "paced_shard sh"
      with ts have "paced_state ts" by (simp add: paced_shard_def)
      then show "paced_shard sh'" using pa sub wrap [OF pa]
        by (auto simp: paced_shard_def paced_state_def sh')
      show "grown 0 sh sh' u q" for u q
        using \<open>paced_state ts\<close> ts wrap [OF pa] by (auto simp: grown_def paced_state_def sh')
      show "tight sh u q \<Longrightarrow> tight sh' u q" for u q
        using ts wrap [OF pa] short by (auto simp: tight_def sh')
    qed
    have "grown 1 sh sh' t p \<and> tight sh' t p" if "paced_shard sh"
      using wrap [OF that] ts short by (simp add: grown_def tight_def sh')
    with sv have "covers g sh g' sh' t p" by (simp add: covers_def)
    moreover have "keeps g sh g' sh'" by (rule keep [OF _ sv pc]) (auto simp: sh' squeue_Some [OF ts])
    ultimately show ?thesis using r by (simp add: sh')
  qed
  then show "covers g sh g' sh' t p" and "keeps g sh g' sh'"
    and "active_rings sh' = (active_rings sh)(p := active_rings sh' p)"
    and "ring_items (active_rings sh' p) = us \<or> ring_items (active_rings sh' p) = us @ [t]"
    by blast+
qed

subsection \<open>A ring, a shard\<close>

lemma visit_ring_covers:
  assumes "shard_inv C sh" and "queues_ok g (squeue sh)" and "visit_ring n clk p sh g = (None, sh', g')"
    and "n \<le> length (ring_items (active_rings sh p))"
  shows "keeps g sh g' sh' \<and> active_rings sh' = (active_rings sh)(p := active_rings sh' p) \<and>
    (\<forall>t \<in> set (take n (ring_items (active_rings sh p))). covers g sh g' sh' t p)"
  using assms
proof (induction n arbitrary: sh g)
  case (Suc n)
  from Suc.prems(4) obtain t us where items: "ring_items (active_rings sh p) = t # us"
    by (cases "ring_items (active_rings sh p)") auto
  from Suc.prems(1) have "ring_inv (active_rings sh p)" by (simp add: shard_inv_def)
  from ring.pop_Cons [OF this items] obtain r where pop: "ring_pop_front (active_rings sh p) = (Some t, r)" by blast
  obtain v sh1 g1 where v: "visit clk p sh g = (v, sh1, g1)" by (metis prod_cases3)
  have "v \<noteq> Break" using v pop by (auto simp: visit_def Let_def split: option.splits prod.splits list.splits if_splits)
  with v Suc.prems(3) have v1: "visit clk p sh g = (Continue, sh1, g1)"
    and rest: "visit_ring n clk p sh1 g1 = (None, sh', g')" by (cases v; simp)+
  note vc = visit_covers [OF Suc.prems(1,2) v1 items]
  note st = visit_sound [OF Suc.prems(1,2) v1]
  have n: "n \<le> length (ring_items (active_rings sh1 p))" "take n (ring_items (active_rings sh1 p)) = take n us"
    using vc(4) Suc.prems(4) items by auto
  from Suc.IH [OF _ _ rest n(1)] shard_takes_next [OF st Suc.prems(2)]
  have ih: "keeps g1 sh1 g' sh'" "active_rings sh' = (active_rings sh1)(p := active_rings sh' p)"
    "\<forall>t \<in> set (take n us). covers g1 sh1 g' sh' t p" unfolding n(2) by blast+
  have "covers g sh g' sh' t p" using covers_keeps [OF vc(1) ih(1)] vc(2) by (simp add: keeps_def)
  moreover have "active_rings sh' = (active_rings sh)(p := active_rings sh' p)"
    using ih(2) vc(3) by (metis fun_upd_upd)
  ultimately show ?case
    using keeps_trans [OF vc(2) ih(1)] ih(3) keeps_covers [OF vc(2)] by (auto simp: items)
qed simp

lemma visit_priorities_covers:
  assumes "shard_inv C sh" and "queues_ok g (squeue sh)" and "visit_priorities ps clk sh g = (None, sh', g')" and "distinct ps"
  shows "keeps g sh g' sh' \<and>
    (\<forall>p \<in> set ps. \<forall>t \<in> set (ring_items (active_rings sh p)). covers g sh g' sh' t p)"
  using assms
proof (induction ps arbitrary: sh g)
  case (Cons p ps)
  from Cons.prems(1) have ri: "ring_inv (active_rings sh p)" by (simp add: shard_inv_def)
  show ?case
  proof (cases "ring_is_empty (active_rings sh p)")
    case True
    with Cons ri show ?thesis by simp
  next
    case False
    obtain r sh1 g1 where v: "visit_ring (ring_len (active_rings sh p)) clk p sh g = (r, sh1, g1)" by (metis prod_cases3)
    with Cons.prems(3) False have v: "visit_ring (ring_len (active_rings sh p)) clk p sh g = (None, sh1, g1)"
      and rest: "visit_priorities ps clk sh1 g1 = (None, sh', g')" by (auto split: option.splits)
    note st = visit_ring_sound [OF Cons.prems(1,2) v]
    from visit_ring_covers [OF Cons.prems(1,2) v] ri
    have ring: "keeps g sh g1 sh1" "active_rings sh1 = (active_rings sh)(p := active_rings sh1 p)"
      "\<forall>t \<in> set (ring_items (active_rings sh p)). covers g sh g1 sh1 t p" by simp_all
    from Cons.IH [OF _ _ rest] shard_takes_next [OF st Cons.prems(2)] Cons.prems(4)
    have ih: "keeps g1 sh1 g' sh'" "\<forall>q \<in> set ps. \<forall>t \<in> set (ring_items (active_rings sh1 q)). covers g1 sh1 g' sh' t q"
      by simp_all
    have "active_rings sh1 q = active_rings sh q" if "q \<in> set ps" for q
      using that Cons.prems(4) ring(2) by (metis distinct.simps(2) fun_upd_other)
    then have "\<forall>q \<in> set ps. \<forall>t \<in> set (ring_items (active_rings sh q)). covers g sh g' sh' t q"
      using ih(2) keeps_covers [OF ring(1)] by metis
    moreover have "\<forall>t \<in> set (ring_items (active_rings sh p)). covers g sh g' sh' t p"
      using ring(1,3) covers_keeps [OF _ ih(1)] by (simp add: keeps_def)
    ultimately show ?thesis using keeps_trans [OF ring(1) ih(1)] by simp
  qed
qed simp

text \<open>Every queue of the shard: those of tenants outside the rings are empty.\<close>

lemma shard_covers:
  assumes inv: "shard_inv C sh" and ok: "queues_ok g (squeue sh)"
    and d: "try_dequeue_from_shard clk sh g = (None, sh', g')"
  shows "keeps g sh g' sh' \<and> (\<forall>t p. covers g sh g' sh' t p)"
proof -
  from visit_priorities_covers [OF inv ok d [unfolded try_dequeue_from_shard_def] distinct_ordered]
  have k: "keeps g sh g' sh'" and c: "\<And>p t. t \<in> set (ring_items (active_rings sh p)) \<Longrightarrow> covers g sh g' sh' t p"
    by simp_all
  have "covers g sh g' sh' t p" for t p
  proof (cases "squeue sh t p = []")
    case True
    with k have "squeue sh' t p = []" by (simp add: keeps_def)
    then show ?thesis by (auto simp: covers_def served_def tight_def squeue_def split: option.splits)
  next
    case False
    then obtain ts where "tenants sh t = Some ts" "queues ts p \<noteq> []" by (auto simp: squeue_def split: option.splits)
    with inv have "t \<in> set (ring_items (active_rings sh p))" by (simp add: shard_inv_def)
    then show ?thesis by (rule c)
  qed
  with k show ?thesis by blast
qed


subsection \<open>All shards\<close>

text \<open>The scheduler-wide versions, for the tenant's shard.\<close>

definition home :: "'a sched \<Rightarrow> tenant_key \<Rightarrow> 'a shard" where
  "home s t = shards s ! shard_index s t"

definition paced :: "'a sched \<Rightarrow> bool" where
  "paced s \<longleftrightarrow> (\<forall>i < length (shards s). paced_shard (shards s ! i))"

definition sched_keeps :: "'a sched \<Rightarrow> 'a sched \<Rightarrow> bool" where
  "sched_keeps s s' \<longleftrightarrow> (\<forall>t. shard_index s' t = shard_index s t) \<and>
     (\<forall>t p. served (shared s) (sched_queue s) t p \<longrightarrow> served (shared s') (sched_queue s') t p) \<and>
     (\<forall>t p. sched_queue s t p = [] \<longrightarrow> sched_queue s' t p = []) \<and>
     (paced s \<longrightarrow> paced s' \<and> (\<forall>t p. grown 0 (home s t) (home s' t) t p \<and> (tight (home s t) t p \<longrightarrow> tight (home s' t) t p)))"

definition sched_covers :: "'a sched \<Rightarrow> 'a sched \<Rightarrow> tenant_key \<Rightarrow> priority \<Rightarrow> bool" where
  "sched_covers s s' t p \<longleftrightarrow> served (shared s') (sched_queue s') t p \<and>
     (paced s \<longrightarrow> (sched_queue s' t p \<noteq> [] \<longrightarrow> grown 1 (home s t) (home s' t) t p) \<and> tight (home s' t) t p)"

lemma sched_keeps_refl [simp]: "sched_keeps s s"
  by (simp add: sched_keeps_def)

lemma sched_keeps_trans:
  assumes "sched_keeps s s1" and "sched_keeps s1 s2"
  shows "sched_keeps s s2"
proof -
  have "grown 0 (home s t) (home s2 t) t p" if "paced s" for t p
    using assms that grown_trans [of 0 "home s t" "home s1 t" t p 0 "home s2 t"] unfolding sched_keeps_def by simp
  with assms show ?thesis unfolding sched_keeps_def by auto
qed

lemma sched_covers_keeps:
  assumes "sched_covers s s1 t p" and "sched_keeps s1 s2" and "paced s \<longrightarrow> paced s1"
  shows "sched_covers s s2 t p"
  using assms grown_trans [of 1 "home s t" "home s1 t" t p 0 "home s2 t"] unfolding sched_covers_def sched_keeps_def by auto

lemma sched_keeps_covers:
  assumes "sched_keeps s s1" and "sched_covers s1 s2 t p"
  shows "sched_covers s s2 t p"
  using assms grown_trans [of 0 "home s t" "home s1 t" t p 1 "home s2 t"] unfolding sched_covers_def sched_keeps_def by auto

lemma serve_shard_covers:
  assumes ok: "sched_ok C s" and pop: "ring_pop_front (active_shards s) = (Some i, r)" and il: "i < length (shards s)"
    and serve: "serve_shard clk i (s\<lparr>active_shards := r\<rparr>) = (None, s')"
  shows "sched_keeps s s'" and "shard_index s t = i \<Longrightarrow> sched_covers s s' t p"
    and "length (shards s') = length (shards s)"
    and "active_shards s' = r \<or> active_shards s' = ring_push_back r i"
proof -
  from ok have pl: "placed s" and le: "ledger s" and inv: "shard_inv C (shards s ! i)" using il by (simp_all add: sched_ok_def)
  obtain sh g where d: "try_dequeue_from_shard clk (shards s ! i) (shared s) = (None, sh, g)"
    and s': "s' = (let s1 = s\<lparr>active_shards := r, shared := g, shards := (shards s)[i := sh]\<rparr>
      in if rings_empty sh then s1\<lparr>shard_active := (shard_active s1)[i := False]\<rparr>
         else s1\<lparr>active_shards := ring_push_back r i\<rparr>)"
    using serve by (auto simp: serve_shard_def Let_def split: prod.splits)
  from serve_shard_sound [OF ok pop serve] obtain R
    where tk: "takes clk R None (sched_queue s) (shared s) (sched_queue s') (shared s')" by blast
  have sh': "shards s' = (shards s)[i := sh]" and g: "shared s' = g" by (simp_all add: s' Let_def)
  show "length (shards s') = length (shards s)" by (simp add: sh')
  show "active_shards s' = r \<or> active_shards s' = ring_push_back r i" by (simp add: s' Let_def)
  have ix: "shard_index s' t = shard_index s t" for t by (simp add: shard_index_def sh')
  from shard_covers [OF inv shard_queues_ok [OF pl le il] d]
  have k: "keeps (shared s) (shards s ! i) g sh" and c: "\<And>t p. covers (shared s) (shards s ! i) g sh t p" by simp_all
  have inside: "sched_queue s t p = squeue (shards s ! i) t p" "sched_queue s' t p = squeue sh t p"
    "home s t = shards s ! i" "home s' t = sh" if "shard_index s t = i" for t p
    using that il by (simp_all add: sched_queue_def home_def ix sh')
  have outside: "sched_queue s' t p = sched_queue s t p" "home s' t = home s t" if "shard_index s t \<noteq> i" for t p
    using that by (simp_all add: sched_queue_def home_def ix sh')
  have sv: "served (shared s') (sched_queue s') t p" if "served (shared s) (sched_queue s) t p" for t p
  proof (cases "shard_index s t = i")
    case True
    with k c show ?thesis using inside(1,2) [OF True, of p] by (simp add: covers_def served_def g)
  next
    case False
    with that show ?thesis using served_takes [OF tk outside(1)] by blast
  qed
  have "paced s \<longrightarrow> paced s' \<and> (\<forall>t p. grown 0 (home s t) (home s' t) t p \<and>
      (tight (home s t) t p \<longrightarrow> tight (home s' t) t p))"
  proof (intro impI allI conjI)
    assume pa: "paced s"
    with il have "paced_shard (shards s ! i)" by (simp add: paced_def)
    with k have sh: "paced_shard sh" "\<And>t p. grown 0 (shards s ! i) sh t p"
      "\<And>t p. tight (shards s ! i) t p \<Longrightarrow> tight sh t p" by (simp_all add: keeps_def)
    with pa il show "paced s'" by (simp add: paced_def sh' nth_list_update)
    show "grown 0 (home s t) (home s' t) t p" for t p
      using sh(2) inside [of t] outside [of t] by (cases "shard_index s t = i") simp_all
    show "tight (home s t) t p \<Longrightarrow> tight (home s' t) t p" for t p
      using sh(3) inside [of t] outside [of t] by (cases "shard_index s t = i") simp_all
  qed
  moreover have "sched_queue s' t p = []" if "sched_queue s t p = []" for t p
    using that takesD(1) [OF tk, of t p] by simp
  ultimately show "sched_keeps s s'" using sv ix by (simp add: sched_keeps_def)
  show "sched_covers s s' t p" if "shard_index s t = i"
    using c [of t p] inside(1,2) [OF that, of p] inside(3,4) [OF that] il by (auto simp: sched_covers_def covers_def served_def g paced_def)
qed

lemma serve_shards_covers:
  assumes "sched_ok C s" and "serve_shards n clk s = (None, s')" and "n \<le> length (ring_items (active_shards s))"
  shows "sched_keeps s s' \<and>
    (\<forall>t p. shard_index s t \<in> set (take n (ring_items (active_shards s))) \<longrightarrow> sched_covers s s' t p)"
  using assms
proof (induction n arbitrary: s)
  case (Suc n)
  from Suc.prems(3) obtain i js where items: "ring_items (active_shards s) = i # js"
    by (cases "ring_items (active_shards s)") auto
  from Suc.prems(1) have ac: "active_inv s" by (simp add: sched_ok_def)
  then have ri: "ring_inv (active_shards s)" by (simp add: active_inv_def)
  from ring.pop_Cons [OF this items] obtain r where pop: "ring_pop_front (active_shards s) = (Some i, r)"
    and r: "ring_inv r" "ring_items r = js" by blast
  have il: "i < length (shards s)" using ac items by (auto simp: active_inv_def)
  obtain res s1 where sv: "serve_shard clk i (s\<lparr>active_shards := r\<rparr>) = (res, s1)" by fastforce
  with Suc.prems(2) pop have sv: "serve_shard clk i (s\<lparr>active_shards := r\<rparr>) = (None, s1)"
    and rest: "serve_shards n clk s1 = (None, s')" by (auto split: option.splits)
  note one = serve_shard_covers [OF Suc.prems(1) pop il sv]
  from serve_shard_sound [OF Suc.prems(1) pop sv] have ok1: "sched_ok C s1" by blast
  have its: "n \<le> length (ring_items (active_shards s1))" "take n (ring_items (active_shards s1)) = take n js"
    using one(4) r Suc.prems(3) items by auto
  from Suc.IH [OF ok1 rest its(1)] have ih: "sched_keeps s1 s'"
    "\<forall>t p. shard_index s1 t \<in> set (take n js) \<longrightarrow> sched_covers s1 s' t p" unfolding its(2) by blast+
  have "sched_covers s s' t p" if "shard_index s t \<in> set (take (Suc n) (i # js))" for t p
  proof (cases "shard_index s t = i")
    case True
    from sched_covers_keeps [OF one(2) [OF True] ih(1)] one(1) show ?thesis by (simp add: sched_keeps_def)
  next
    case False
    with that have "shard_index s1 t \<in> set (take n js)" using one(3) by (simp add: shard_index_def)
    with ih(2) sched_keeps_covers [OF one(1)] show ?thesis by blast
  qed
  with sched_keeps_trans [OF one(1) ih(1)] show ?case by (simp add: items)
qed simp

text \<open>A dequeue that finds nothing, of a scheduler that is not closed at once, covers all queues.\<close>

lemma try_dequeue_covers:
  assumes ok: "sched_ok C s" and call: "try_dequeue clk s = (r, s')" and none: "dequeued_of r = None"
    and open_: "shutdown_state (shared s) \<noteq> 2"
  shows "sched_keeps s s' \<and> (\<forall>t p. sched_covers s s' t p)"
proof -
  obtain res s1 where sv: "serve_shards (ring_len (active_shards s)) clk s = (res, s1)" by fastforce
  with call none open_ have "res = None" and s1: "s1 = s'"
    by (auto simp: try_dequeue_def dequeued_of_def split: option.splits if_splits prod.splits)
  from ok have ac: "active_inv s" and pl: "placed s" by (simp_all add: sched_ok_def)
  then have ri: "ring_inv (active_shards s)" by (simp add: active_inv_def)
  from serve_shards_covers [OF ok sv [unfolded \<open>res = None\<close> s1]] ri
  have k: "sched_keeps s s'" and c: "\<And>t p. shard_index s t \<in> set (ring_items (active_shards s)) \<Longrightarrow> sched_covers s s' t p"
    by simp_all
  have "sched_covers s s' t p" for t p
  proof (cases "sched_queue s t p = []")
    case True
    with k have "sched_queue s' t p = []" by (simp add: sched_keeps_def)
    then show ?thesis
      by (auto simp: sched_covers_def served_def tight_def home_def sched_queue_def squeue_def split: option.splits)
  next
    case False
    have il: "shard_index s t < length (shards s)" using shard_index_less [OF pl] .
    with ok have inv: "shard_inv C (shards s ! shard_index s t)" by (simp add: sched_ok_def)
    have "t \<in> set (ring_items (active_rings (shards s ! shard_index s t) p))"
      using False tenant_entry_active(1,2) [OF inv, of t "shared s" p] by (simp add: tenant_entry_queue)
    then have "\<not> rings_empty (shards s ! shard_index s t)"
      using rings_empty_items [of "shards s ! shard_index s t"] inv by (auto simp: shard_inv_def)
    with ac il show ?thesis by (intro c) (auto simp: active_inv_def)
  qed
  with k show ?thesis by blast
qed

end
