(* ===== verification/Blocking.thy ===== *)
theory Blocking
  imports Scenario Coverage
begin

text \<open>
  The calls of \<open>scheduler.rs\<close> that wait, and \<open>WorkSignal\<close> of \<open>state.rs\<close> they wait on. A
  waiting call is a state machine: a control state says where in the loop the caller is, one
  turn takes it to the next point at which it touches shared state, and any operations of
  other callers may come between two turns. A timed wait may end at any turn, by the
  notification, by the timeout or spuriously; the untimed wait goes on while the sequence
  number has not changed. The caller's own attempt, \<open>try_dequeue\<close>, and each operation of others
  is one step here, although it takes several locks; theory \<open>Threads\<close> takes them apart.
\<close>

subsection \<open>The signal\<close>

definition DEQUEUE_BLOCKING_BACKOFF_SPINS :: nat where
  "DEQUEUE_BLOCKING_BACKOFF_SPINS = 64"

definition DEQUEUE_BLOCKING_BACKOFF_SLEEP :: duration where
  "DEQUEUE_BLOCKING_BACKOFF_SLEEP = 200000"

definition signal_current :: "shared \<Rightarrow> nat" where
  "signal_current g = signal_seq g"

text \<open>The loop condition of \<open>wait_for_change\<close>: whether a waiter woken now goes back to sleep.\<close>

definition wait_again :: "nat \<Rightarrow> shared \<Rightarrow> bool" where
  "wait_again last_seen g \<longleftrightarrow> signal_seq g = last_seen"

text \<open>\<open>wait_for_change_timeout\<close>: the state at the check, and when the timed wait is over.\<close>

definition wait_for_change_timeout :: "nat \<Rightarrow> shared \<Rightarrow> shared \<Rightarrow> bool" where
  "wait_for_change_timeout last_seen before after =
    (if signal_seq before \<noteq> last_seen then True else signal_seq after \<noteq> last_seen)"

subsection \<open>What an operation does to a sleeping consumer\<close>

abbreviation all_empty :: "'a sched \<Rightarrow> bool" where
  "all_empty s \<equiv> \<forall>t p. sched_queue s t p = []"

text \<open>
  An operation that leaves the sequence number alone neither puts work into empty queues nor
  takes the last pending task away nor closes the scheduler.
\<close>

definition hush :: "'a sched \<Rightarrow> 'a sched \<Rightarrow> bool" where
  "hush s s' \<longleftrightarrow> (signal_seq (shared s') = signal_seq (shared s) \<longrightarrow>
     shutdown_state (shared s') = shutdown_state (shared s) \<and>
     (all_empty s \<longrightarrow> all_empty s') \<and>
     (pending_ids (shared s) \<noteq> {} \<longrightarrow> pending_ids (shared s') \<noteq> {}))"

lemma hush_same:
  "sched_queue s' = sched_queue s \<Longrightarrow> pending_ids (shared s') = pending_ids (shared s) \<Longrightarrow>
    shutdown_state (shared s') = shutdown_state (shared s) \<Longrightarrow> hush s s'"
  by (simp add: hush_def)

lemma books_pending: "books C k a d c g \<Longrightarrow> finite (pending_ids g) \<and> card (pending_ids g) \<le> a"
  by (auto simp: books_def)

lemma enqueue_hush:
  assumes bk: "books C 0 a d c (shared s)" and a: "a < u64_max" and sound: "sound_as C clk V a d c t task new s s'"
  shows "hush s s'"
  unfolding hush_def
proof (intro impI)
  assume same: "signal_seq (shared s') = signal_seq (shared s)"
  from sound obtain R where
    q: "\<And>u p. sched_queue s' u p = filter (\<lambda>e. entry_id e \<notin> R) (sched_queue s u p) @
      (if u = t \<and> p = prio task then (case new of None \<Rightarrow> [] | Some h \<Rightarrow> [\<lparr>entry_id = h, entry_task = task\<rparr>]) else [])"
    and P: "pending_ids (shared s') = (pending_ids (shared s) - R) \<union> set_option new"
    and sd: "shutdown_state (shared s') = shutdown_state (shared s)"
    and st: "stirred (if new = None then \<not> pending_ids (shared s) \<subseteq> pending_ids (shared s')
              else length (sched_queue s' t (prio task)) = 1) (shared s) (shared s')"
    unfolding sound_as_def enqueues_def by blast
  from books_pending [OF bk] a have "finite (pending_ids (shared s))" "card (pending_ids (shared s)) < u64_max" by auto
  note quiet = stirred_moves [OF st this same]
  show "shutdown_state (shared s') = shutdown_state (shared s) \<and> (all_empty s \<longrightarrow> all_empty s') \<and>
    (pending_ids (shared s) \<noteq> {} \<longrightarrow> pending_ids (shared s') \<noteq> {})"
  proof (cases new)
    case None
    with quiet sd P q show ?thesis by auto
  next
    case (Some h)
    have "\<not> all_empty s"
    proof
      assume "all_empty s"
      with q [of t "prio task"] Some quiet show False by simp
    qed
    with sd P Some show ?thesis by blast
  qed
qed

lemma dequeue_hush:
  assumes ok: "sched_ok C s" and bk: "books C 0 a d c (shared s)" and a: "a < u64_max"
    and call: "try_dequeue clk s = (r, s')"
  shows "hush s s'"
  unfolding hush_def
proof (intro impI)
  assume same: "signal_seq (shared s') = signal_seq (shared s)"
  from try_dequeue_sound [OF ok call] obtain R
    where R: "takes clk R (dequeued_of r) (sched_queue s) (shared s) (sched_queue s') (shared s')" by blast
  note tally = takesD(4) [OF R]
  then have P: "pending_ids (shared s') = pending_ids (shared s) - R"
    and sd: "shutdown_state (shared s') = shutdown_state (shared s)" by (simp_all add: tally_def same_frame_def)
  have "stirred (pending_ids (shared s) \<inter> R \<noteq> {}) (shared s) (shared s')"
    using tally by (intro bumped_stirred [where again = False]) (auto simp: tally_def)
  with stirred_moves [OF this _ _ same] books_pending [OF bk] a have "pending_ids (shared s) \<inter> R = {}" by auto
  with P sd takesD(1) [OF R] show "shutdown_state (shared s') = shutdown_state (shared s) \<and>
      (all_empty s \<longrightarrow> all_empty s') \<and> (pending_ids (shared s) \<noteq> {} \<longrightarrow> pending_ids (shared s') \<noteq> {})"
    by auto
qed

lemma wrapping_inc_moves: "wrapping_inc n \<noteq> n"
  using funpow_wrapping_inc_neq [of 1 n] by simp

lemma shared_views [simp]: "sched_queue (s\<lparr>shared := g\<rparr>) = sched_queue s"
  by (intro ext) (simp add: sched_queue_def shard_index_def)

lemma refresh_views [simp]:
  "sched_queue (refresh_tenant_quantum C t s) = sched_queue s"
  "shared (refresh_tenant_quantum C t s) = shared s"
proof -
  have "sched_queue (refresh_tenant_quantum C t s) u p = sched_queue s u p" for u p
  proof (cases "tenants (shards s ! shard_index s t) t")
    case None
    then show ?thesis by (simp add: refresh_tenant_quantum_def Let_def)
  next
    case (Some ts)
    let ?i = "shard_index s t" and ?q = "as_i64 (quantum_for C t (shared s))"
    define sh where "sh = (shards s ! ?i)\<lparr>tenants := (tenants (shards s ! ?i))(t \<mapsto> ts\<lparr>quantum := ?q\<rparr>)\<rparr>"
    have r: "refresh_tenant_quantum C t s = s\<lparr>shards := (shards s)[?i := sh]\<rparr>"
      by (simp add: refresh_tenant_quantum_def Let_def Some sh_def)
    have ix: "shard_index (s\<lparr>shards := (shards s)[?i := sh]\<rparr>) u = shard_index s u" by (simp add: shard_index_def)
    have "squeue sh u p = squeue (shards s ! ?i) u p" by (simp add: squeue_def sh_def Some)
    then show ?thesis
      unfolding r sched_queue_def ix
      by (cases "?i < length (shards s)"; cases "shard_index s u = ?i") (simp_all add: list_update_beyond)
  qed
  then show "sched_queue (refresh_tenant_quantum C t s) = sched_queue s" by (intro ext)
  show "shared (refresh_tenant_quantum C t s) = shared s"
    by (simp add: refresh_tenant_quantum_def Let_def split: option.split)
qed

lemma provider_views:
  assumes "sched_ok C s"
  shows "sched_queue (set_quantum_provider C f s) = sched_queue s"
proof (intro ext)
  fix t p
  have "shard_index s t < length (shards s)" using assms shard_index_less by (auto simp: sched_ok_def)
  then show "sched_queue (set_quantum_provider C f s) t p = sched_queue s t p"
    by (simp add: set_quantum_provider_def Let_def sched_queue_def shard_index_def squeue_def split: option.split)
qed

lemma exec_hush:
  assumes ok: "sched_ok C s" and bk: "books C 0 a d c (shared s)" and a: "a < u64_max"
    and call: "exec C clk e s = (out, s')"
  shows "hush s s'"
proof (cases e)
  case (EnqueueNow t task)
  show ?thesis
  proof (cases "enqueue_now C clk t task s")
    case None
    with call EnqueueNow show ?thesis by (simp add: hush_def)
  next
    case (Some x)
    obtain r s1 where x: "x = (r, s1)" by fastforce
    from enqueue_now_sound [OF ok bk a Some [unfolded x]] obtain V
      where "sound_as C clk V a d c t task (accepted_id r) s s1" by blast
    with call EnqueueNow Some x enqueue_hush [OF bk a] show ?thesis by auto
  qed
next
  case (Attempt t task)
  obtain r s1 where x: "enqueue_try_reject C clk t task s = (r, s1)" by fastforce
  with call Attempt enqueue_hush [OF bk a enqueue_try_reject_sound [OF ok bk a x]] show ?thesis by simp
next
  case Dequeue
  with call dequeue_hush [OF ok bk a] show ?thesis by (auto split: prod.splits)
next
  case (Cancel h)
  from Cancel call show ?thesis using wrapping_inc_moves
    by (auto simp: cancel_def take_pending_def Let_def mark_cancelled_def frame_simps hush_def split: if_splits)
next
  case (Close m)
  from Close call show ?thesis using wrapping_inc_moves
    by (auto simp: close_with_mode_def set_shutdown_mode_def Let_def frame_simps hush_def split: if_splits)
next
  case GiveUp
  with call show ?thesis by (auto intro!: hush_same simp: count_up_def)
next
  case LookAtClock
  with call show ?thesis by (auto intro!: hush_same simp: read_clock_def)
next
  case (SetQuantum t q)
  with call show ?thesis by (auto intro!: hush_same simp: set_tenant_quantum_def Let_def)
next
  case (ClearQuantum t)
  with call show ?thesis by (auto intro!: hush_same simp: clear_tenant_quantum_def Let_def)
next
  case (SetProvider f)
  with call provider_views [OF ok] show ?thesis
    by (auto intro!: hush_same simp: set_quantum_provider_def Let_def)
qed


subsection \<open>A waiting call among others\<close>

text \<open>
  One turn of the waiting caller, or one operation of somebody else; any sequence of them is
  an interleaving.
\<close>

datatype 'a event = Turn | Others "'a op"

definition exec_all :: "config \<Rightarrow> clock \<Rightarrow> 'a op list \<Rightarrow> 'a sched \<Rightarrow> 'a sched" where
  "exec_all C clk es s = fold (\<lambda>e s. snd (exec C clk e s)) es s"

definition interleave :: "config \<Rightarrow> clock \<Rightarrow> ('c \<Rightarrow> 'a sched \<Rightarrow> 'c \<times> 'a sched) \<Rightarrow> 'a event list \<Rightarrow>
    'c \<times> 'a sched \<Rightarrow> 'c \<times> 'a sched" where
  "interleave C clk turn evs x =
    fold (\<lambda>ev (c, s). case ev of Turn \<Rightarrow> turn c s | Others e \<Rightarrow> (c, snd (exec C clk e s))) evs x"

lemma interleave_simps [simp]:
  "interleave C clk turn [] x = x"
  "interleave C clk turn (Turn # evs) (c, s) = interleave C clk turn evs (turn c s)"
  "interleave C clk turn (Others e # evs) (c, s) = interleave C clk turn evs (c, snd (exec C clk e s))"
  by (simp_all add: interleave_def)

lemma exec_all_simps [simp]:
  "exec_all C clk [] s = s" "exec_all C clk (e # es) s = exec_all C clk es (snd (exec C clk e s))"
  "exec_all C clk (es @ es') s = exec_all C clk es' (exec_all C clk es s)"
  by (simp_all add: exec_all_def)

lemma run_exec_all: "snd (run C clk (es @ es')) = exec_all C clk es' (snd (run C clk es))"
proof (induction es' rule: rev_induct)
  case (snoc e es')
  obtain os s where r: "run C clk (es @ es') = (os, s)" by fastforce
  have "snd (run C clk (es @ es' @ [e])) = snd (exec C clk e s)"
    using r by (simp add: run_def run_step_def split: prod.split)
  with snoc r show ?case by simp
qed simp

text \<open>
  What makes a state machine the model of a waiting call: it changes the scheduler only by
  operations of the scheduler, at most two a turn.
\<close>

locale waiting_call =
  fixes C :: config and clk :: clock
    and turn :: "'c \<Rightarrow> 'a sched \<Rightarrow> 'c \<times> 'a sched"
    and ops :: "'c \<Rightarrow> 'a sched \<Rightarrow> 'a op list"
  assumes turn_ops: "snd (turn c s) = exec_all C clk (ops c s) s"
    and few_ops: "length (ops c s) \<le> 2"
begin

lemma interleave_ops:
  "\<exists>es. snd (interleave C clk turn evs (c, s)) = exec_all C clk es s \<and> length es \<le> 2 * length evs"
proof (induction evs arbitrary: c s)
  case Nil
  then show ?case by (intro exI [of _ "[]"]) simp
next
  case (Cons ev evs)
  show ?case
  proof (cases ev)
    case Turn
    obtain c' s' where t: "turn c s = (c', s')" by fastforce
    from Cons obtain es where "snd (interleave C clk turn evs (c', s')) = exec_all C clk es s'" "length es \<le> 2 * length evs"
      by blast
    with turn_ops [of c s] few_ops [of c s] t Turn show ?thesis
      by (intro exI [of _ "ops c s @ es"]) simp
  next
    case (Others e)
    from Cons obtain es where "snd (interleave C clk turn evs (c, snd (exec C clk e s))) = exec_all C clk es (snd (exec C clk e s))"
      "length es \<le> 2 * length evs" by blast
    with Others show ?thesis by (intro exI [of _ "e # es"]) simp
  qed
qed

text \<open>So the invariant of the scheduler holds at every point of an interleaving.\<close>

lemma interleave_run:
  assumes "snd (run C clk es) = s" and "interleave C clk turn evs (c, s) = (c', s')"
  obtains es' os where "run C clk (es @ es') = (os, s')" and "length es' \<le> 2 * length evs"
proof -
  from interleave_ops [of evs c s] assms obtain es' where "s' = exec_all C clk es' s" "length es' \<le> 2 * length evs" by auto
  with assms(1) run_exec_all [of C clk es es'] have "run C clk (es @ es') = (fst (run C clk (es @ es')), s')"
    by (metis prod.collapse)
  with \<open>length es' \<le> 2 * length evs\<close> that show ?thesis by blast
qed

end

subsection \<open>\<open>dequeue_blocking\<close>\<close>

text \<open>
  The points of the loop; the numbers are \<open>spins\<close> and \<open>observed\<close>. \<open>Begin\<close> is the top of the
  loop, \<open>Looked\<close> before \<open>try_dequeue\<close>, \<open>Missed\<close> after an \<open>Empty\<close>, \<open>StillOpen\<close> before the
  length is read, \<open>Nap\<close> in the timed wait of the backoff, \<open>Asleep\<close> in the untimed wait.
\<close>

datatype 'a consumer =
    Begin nat
  | Looked nat nat
  | Missed nat nat
  | StillOpen nat nat
  | Nap nat
  | Asleep nat
  | Returned "'a dequeue_result"

fun dequeue_blocking :: "clock \<Rightarrow> 'a consumer \<Rightarrow> 'a sched \<Rightarrow> 'a consumer \<times> 'a sched" where
  "dequeue_blocking clk (Begin spins) s = (Looked spins (signal_current (shared s)), s)"
| "dequeue_blocking clk (Looked spins observed) s =
    (case try_dequeue clk s of
       (Empty, s1) \<Rightarrow> (Missed spins observed, s1)
     | (r, s1) \<Rightarrow> (Returned r, s1))"
| "dequeue_blocking clk (Missed spins observed) s =
    (if should_return_closed (shared s) then (Returned Closed, s) else (StillOpen spins observed, s))"
| "dequeue_blocking clk (StillOpen spins observed) s =
    (if 0 < queue_len_estimate (stats (shared s)) then
       let spins1 = saturating_add32 spins 1
       in if DEQUEUE_BLOCKING_BACKOFF_SPINS \<le> spins1 then (Nap observed, s) else (Begin spins1, s)
     else (Asleep observed, s))"
| "dequeue_blocking clk (Nap observed) s = (Begin 0, s)"
| "dequeue_blocking clk (Asleep observed) s =
    (if wait_again observed (shared s) then (Asleep observed, s) else (Begin 0, s))"
| "dequeue_blocking clk (Returned r) s = (Returned r, s)"

fun consumer_ops :: "'a consumer \<Rightarrow> 'a sched \<Rightarrow> 'a op list" where
  "consumer_ops (Looked spins observed) s = [Dequeue]"
| "consumer_ops c s = []"

interpretation blocking: waiting_call C clk "dequeue_blocking clk" consumer_ops for C clk
proof
  fix c :: "'a consumer" and s :: "'a sched"
  show "snd (dequeue_blocking clk c s) = exec_all C clk (consumer_ops c s) s"
    by (cases c) (auto simp: Let_def split: prod.splits dequeue_result.splits)
  show "length (consumer_ops c s) \<le> 2" by (cases c) simp_all
qed


subsection \<open>What a sleeping consumer knows\<close>

text \<open>
  What holds along the loop while the sequence number keeps the value \<open>obs\<close> that the consumer
  has read.
\<close>

fun awaits :: "nat \<Rightarrow> 'a consumer \<Rightarrow> 'a sched \<Rightarrow> bool" where
  "awaits obs (Begin k) s \<longleftrightarrow> True"
| "awaits obs (Looked k j) s \<longleftrightarrow> j = obs"
| "awaits obs (Missed k j) s \<longleftrightarrow> j = obs \<and> (all_empty s \<or> pending_ids (shared s) \<noteq> {})"
| "awaits obs (StillOpen k j) s \<longleftrightarrow> j = obs \<and> (all_empty s \<or> pending_ids (shared s) \<noteq> {}) \<and>
     (shutdown_state (shared s) = 0 \<or> pending_ids (shared s) \<noteq> {})"
| "awaits obs (Nap j) s \<longleftrightarrow> True"
| "awaits obs (Asleep j) s \<longleftrightarrow> j = obs \<and> all_empty s \<and> shutdown_state (shared s) = 0"
| "awaits obs (Returned r) s \<longleftrightarrow> True"

lemma awaits_hush: "awaits obs c s \<Longrightarrow> hush s s' \<Longrightarrow> signal_seq (shared s') = signal_seq (shared s) \<Longrightarrow> awaits obs c s'"
  by (cases c) (auto simp: hush_def)

lemma awaits_turn:
  assumes ok: "sched_ok C s" and bk: "books C 0 a d c0 (shared s)" and w: "awaits obs c s"
    and obs: "signal_seq (shared s) = obs" and turn: "dequeue_blocking clk c s = (c', s')"
  shows "awaits obs c' s'"
proof (cases c)
  case (Looked k j)
  obtain r s1 where d: "try_dequeue clk s = (r, s1)" by fastforce
  show ?thesis
  proof (cases r)
    case Empty
    with Looked turn d have c': "c' = Missed k j" "s' = s1" by simp_all
    have "shutdown_state (shared s) \<noteq> 2" using d Empty by (auto simp: try_dequeue_def)
    from try_dequeue_covers [OF ok d _ this] Empty have "served (shared s1) (sched_queue s1) t p" for t p
      by (simp add: dequeued_of_def sched_covers_def)
    then have "all_empty s1 \<or> pending_ids (shared s1) \<noteq> {}" unfolding served_def by blast
    with c' Looked w show ?thesis by simp
  qed (use Looked turn d in auto)
next
  case (Missed k j)
  have "shutdown_state (shared s) = 0 \<or> pending_ids (shared s) \<noteq> {}" if "\<not> should_return_closed (shared s)"
    using that bk by (auto simp: should_return_closed_def books_def split: if_splits)
  with Missed turn w show ?thesis by (auto split: if_splits)
next
  case (StillOpen k j)
  have "pending_ids (shared s) = {}" if "queue_len_estimate (stats (shared s)) = 0"
    using that bk by (auto simp: books_def)
  with StillOpen turn w show ?thesis by (auto simp: Let_def split: if_splits)
next
  case (Begin k)
  with turn obs show ?thesis by (auto simp: signal_current_def)
qed (use turn w in \<open>auto split: if_splits\<close>)

lemma awaits_interleave:
  assumes "run C clk es = (os, s)" and "length es + 2 * length evs < u64_max" and "awaits obs c s"
    and "\<forall>n \<le> length evs. signal_seq (shared (snd (interleave C clk (dequeue_blocking clk) (take n evs) (c, s)))) = obs"
    and "interleave C clk (dequeue_blocking clk) evs (c, s) = (c', s')"
  shows "awaits obs c' s'"
  using assms
proof (induction evs arbitrary: es os c s)
  case (Cons ev evs)
  have len: "length es \<le> u64_max" using Cons.prems(2) by simp
  note i = run_inv_run [OF len Cons.prems(1)]
  have a: "count_out is_accepted os < u64_max" using i(2) Cons.prems(2) by simp
  from Cons.prems(4) have obs: "signal_seq (shared s) = obs" by fastforce
  have later: "\<forall>n \<le> length evs. signal_seq (shared (snd (interleave C clk (dequeue_blocking clk) (take (Suc n) (ev # evs)) (c, s)))) = obs"
    using Cons.prems(4) by (metis Suc_le_mono length_Cons)
  show ?case
  proof (cases ev)
    case Turn
    obtain c1 s1 where t: "dequeue_blocking clk c s = (c1, s1)" by fastforce
    have "snd (run C clk (es @ consumer_ops c s)) = s1"
      using run_exec_all [of C clk es "consumer_ops c s"] blocking.turn_ops [of clk c s C] Cons.prems(1) t by simp
    then obtain os1 where r1: "run C clk (es @ consumer_ops c s) = (os1, s1)" by (metis prod.collapse)
    have "length (es @ consumer_ops c s) + 2 * length evs < u64_max"
      using Cons.prems(2) blocking.few_ops [of c s] by simp
    moreover have "awaits obs c1 s1" by (rule awaits_turn [OF i(1,3) Cons.prems(3) obs t])
    ultimately show ?thesis using Cons.IH [OF r1] later Cons.prems(5) Turn t by simp
  next
    case (Others e)
    obtain out s1 where t: "exec C clk e s = (out, s1)" by fastforce
    have "snd (run C clk (es @ [e])) = s1" using run_exec_all [of C clk es "[e]"] Cons.prems(1) t by simp
    then obtain os1 where r1: "run C clk (es @ [e]) = (os1, s1)" by (metis prod.collapse)
    have "signal_seq (shared s1) = obs" using later Others t by fastforce
    with awaits_hush [OF Cons.prems(3) exec_hush [OF i(1,3) a t]] obs have "awaits obs c s1" by simp
    then show ?thesis using Cons.IH [OF r1] later Cons.prems(2,5) Others t by simp
  qed
qed simp

text \<open>
  With the calls of others as single steps: a consumer that falls asleep in \<open>dequeue_blocking\<close>
  while the sequence number has not moved since it read it finds every queue empty, no task
  pending and the scheduler open; so the first task that is accepted, and any close, moves the
  number and wakes it. This needs the granularity: with the critical sections of the calls
  interleaved it is false (\<open>wakeup_lost_between_sections\<close> in theory \<open>Threads_Sound\<close>).
\<close>

theorem asleep_nothing_pending:
  assumes "run C clk es = (os, s)" and "length es + 2 * length evs < u64_max"
    and "interleave C clk (dequeue_blocking clk) evs (Begin spins, s) = (Asleep observed, s')"
    and "\<forall>n \<le> length evs. signal_seq (shared (snd (interleave C clk (dequeue_blocking clk) (take n evs) (Begin spins, s)))) =
      signal_seq (shared s)"
  shows "(\<forall>t p. sched_queue s' t p = []) \<and> pending_ids (shared s') = {} \<and> is_accepting_enqueues (shared s') \<and>
    wait_again observed (shared s')"
proof -
  have w: "awaits (signal_seq (shared s)) (Asleep observed) s'"
    by (rule awaits_interleave [OF assms(1,2) _ assms(4,3)]) simp
  from blocking.interleave_run [OF _ assms(3), of es] assms(1) obtain es' os'
    where r: "run C clk (es @ es') = (os', s')" "length es' \<le> 2 * length evs" by auto
  have "length (es @ es') \<le> u64_max" using r(2) assms(2) by simp
  from run_inv_run(1) [OF this r(1)] have "ledger s'" by (simp add: sched_ok_def)
  with w have "pending_ids (shared s') = {}" by (simp add: ledger_def)
  moreover from assms(4) have "signal_seq (shared (snd (interleave C clk (dequeue_blocking clk) (take (length evs) evs) (Begin spins, s)))) =
      signal_seq (shared s)" by blast
  with assms(3) have "signal_seq (shared s') = signal_seq (shared s)" by simp
  ultimately show ?thesis using w by (simp add: is_accepting_enqueues_def wait_again_def)
qed

theorem asleep_nothing_pending_witness:
  "\<exists>s s'. demo_run [] = ([], s) \<and>
    interleave demo_config demo_clock (dequeue_blocking demo_clock) [Turn, Turn, Others LookAtClock, Turn, Turn] (Begin 0, s) =
      (Asleep 0, s') \<and> (\<forall>t p. sched_queue s' t p = [])"
proof -
  let ?evs = "[Turn, Turn, Others LookAtClock, Turn, Turn]"
  obtain os s where r: "demo_run [] = (os, s)" by fastforce
  let ?i = "\<lambda>n. interleave demo_config demo_clock (dequeue_blocking demo_clock) (take n ?evs) (Begin 0, s)"
  have os: "os = []" using r by (auto simp: eval)
  have five: "n \<le> 5 \<Longrightarrow> n = 0 \<or> n = 1 \<or> n = 2 \<or> n = 3 \<or> n = 4 \<or> n = 5" for n :: nat by arith
  have ev: "fst (?i 5) = Asleep 0" "signal_seq (shared (snd (?i 0))) = 0" "signal_seq (shared (snd (?i 1))) = 0"
    "signal_seq (shared (snd (?i 2))) = 0" "signal_seq (shared (snd (?i 3))) = 0"
    "signal_seq (shared (snd (?i 4))) = 0" "signal_seq (shared (snd (?i 5))) = 0" "signal_seq (shared s) = 0"
    using r by (auto simp: eval signal_current_def)
  obtain c' s' where i: "interleave demo_config demo_clock (dequeue_blocking demo_clock) ?evs (Begin 0, s) = (c', s')"
    by fastforce
  with ev(1) have "c' = Asleep 0" by simp
  note i = i [unfolded this]
  have "signal_seq (shared (snd (?i n))) = signal_seq (shared s)" if "n \<le> length ?evs" for n
  proof -
    from that have "n \<le> 5" by simp
    from five [OF this] show ?thesis by (elim disjE; simp only: ev)
  qed
  then have "\<forall>n \<le> length ?evs. signal_seq (shared (snd (?i n))) = signal_seq (shared s)" by blast
  from asleep_nothing_pending [OF r _ i this] r os i show ?thesis by auto
qed

end
