(* ===== verification/Timed_Calls.thy ===== *)
theory Timed_Calls
  imports Blocking
begin

text \<open>
  The calls that wait at most a given time: \<open>dequeue_blocking_timeout\<close> and the enqueue under a
  \<open>Timeout\<close> policy (\<open>enqueue_timeout_with_handle\<close>), as state machines over the interleavings
  of theory \<open>Blocking\<close>. They return soon after the deadline has passed whatever others do,
  and do not give up before it.
\<close>

subsection \<open>\<open>dequeue_blocking_timeout\<close>\<close>

text \<open>
  The points are those of \<open>dequeue_blocking\<close>; \<open>TimedLate\<close> is before the check of the deadline,
  \<open>TimedOpen\<close> carries the time that remains.
\<close>

datatype 'a timed_consumer =
    TimedStart duration
  | TimedBegin instant nat
  | TimedLooked instant nat nat
  | TimedMissed instant nat nat
  | TimedLate instant nat nat
  | TimedOpen instant nat nat duration
  | TimedWait instant nat duration
  | TimedReturned "'a dequeue_result"

fun dequeue_blocking_timeout :: "clock \<Rightarrow> 'a timed_consumer \<Rightarrow> 'a sched \<Rightarrow> 'a timed_consumer \<times> 'a sched" where
  "dequeue_blocking_timeout clk (TimedStart timeout) s =
    (let (now, g) = read_clock clk (shared s) in (TimedBegin (now + timeout) 0, s\<lparr>shared := g\<rparr>))"
| "dequeue_blocking_timeout clk (TimedBegin dl spins) s = (TimedLooked dl spins (signal_current (shared s)), s)"
| "dequeue_blocking_timeout clk (TimedLooked dl spins observed) s =
    (case try_dequeue clk s of
       (Empty, s1) \<Rightarrow> (TimedMissed dl spins observed, s1)
     | (r, s1) \<Rightarrow> (TimedReturned r, s1))"
| "dequeue_blocking_timeout clk (TimedMissed dl spins observed) s =
    (if should_return_closed (shared s) then (TimedReturned Closed, s) else (TimedLate dl spins observed, s))"
| "dequeue_blocking_timeout clk (TimedLate dl spins observed) s =
    (let (now, g1) = read_clock clk (shared s) in
     if dl \<le> now then (TimedReturned Empty, s\<lparr>shared := g1\<rparr>)
     else let (now2, g2) = read_clock clk g1
          in (TimedOpen dl spins observed (dl - now2), s\<lparr>shared := g2\<rparr>))"
| "dequeue_blocking_timeout clk (TimedOpen dl spins observed remaining) s =
    (if 0 < queue_len_estimate (stats (shared s)) then
       let spins1 = saturating_add32 spins 1
       in if DEQUEUE_BLOCKING_BACKOFF_SPINS \<le> spins1
          then (TimedWait dl observed (min remaining DEQUEUE_BLOCKING_BACKOFF_SLEEP), s)
          else (TimedBegin dl spins1, s)
     else (TimedWait dl observed remaining, s))"
| "dequeue_blocking_timeout clk (TimedWait dl observed wait) s = (TimedBegin dl 0, s)"
| "dequeue_blocking_timeout clk (TimedReturned r) s = (TimedReturned r, s)"

fun timed_consumer_ops :: "clock \<Rightarrow> 'a timed_consumer \<Rightarrow> 'a sched \<Rightarrow> 'a op list" where
  "timed_consumer_ops clk (TimedStart timeout) s = [LookAtClock]"
| "timed_consumer_ops clk (TimedLooked dl spins observed) s = [Dequeue]"
| "timed_consumer_ops clk (TimedLate dl spins observed) s =
    (if dl \<le> clk (ticks (shared s)) then [LookAtClock] else [LookAtClock, LookAtClock])"
| "timed_consumer_ops clk c s = []"

interpretation timed_dequeue: waiting_call C clk "dequeue_blocking_timeout clk" "timed_consumer_ops clk" for C clk
proof
  fix c :: "'a timed_consumer" and s :: "'a sched"
  show "snd (dequeue_blocking_timeout clk c s) = exec_all C clk (timed_consumer_ops clk c s) s"
    by (cases c) (auto simp: Let_def read_clock_def split: prod.splits dequeue_result.splits)
  show "length (timed_consumer_ops clk c s) \<le> 2" by (cases c) simp_all
qed

subsection \<open>The enqueue that waits\<close>

datatype 'a waiting_enqueue =
    WaitStart "'a task"
  | WaitBegin instant "'a task"
  | WaitObserve instant "'a task"
  | WaitTry instant "'a task" nat
  | WaitFull instant "'a task" nat
  | WaitSleep instant "'a task" nat duration
  | WaitDone enqueue_with_handle_result

fun enqueue_timeout_with_handle :: "config \<Rightarrow> clock \<Rightarrow> tenant_key \<Rightarrow> duration \<Rightarrow>
    'a waiting_enqueue \<Rightarrow> 'a sched \<Rightarrow> 'a waiting_enqueue \<times> 'a sched" where
  "enqueue_timeout_with_handle C clk t wait (WaitStart task) s =
    (let (now, g) = read_clock clk (shared s) in (WaitBegin (now + wait) task, s\<lparr>shared := g\<rparr>))"
| "enqueue_timeout_with_handle C clk t wait (WaitBegin dl task) s =
    (if \<not> is_accepting_enqueues (shared s) then (WaitDone EnqueueClosed, s) else (WaitObserve dl task, s))"
| "enqueue_timeout_with_handle C clk t wait (WaitObserve dl task) s =
    (WaitTry dl task (signal_current (shared s)), s)"
| "enqueue_timeout_with_handle C clk t wait (WaitTry dl task observed) s =
    (case enqueue_try_reject C clk t task s of
       (AttemptEnqueued handle, s1) \<Rightarrow> (WaitDone (Enqueued handle), s1)
     | (AttemptClosed, s1) \<Rightarrow> (WaitDone EnqueueClosed, s1)
     | (AttemptFull returned reason, s1) \<Rightarrow> (WaitFull dl returned observed, s1))"
| "enqueue_timeout_with_handle C clk t wait (WaitFull dl task observed) s =
    (let (now, g1) = read_clock clk (shared s) in
     if dl \<le> now then (WaitDone (Rejected TimedOut), s\<lparr>shared := record_reject TimedOut g1\<rparr>)
     else let (now2, g2) = read_clock clk g1
          in (WaitSleep dl task observed (dl - now2), s\<lparr>shared := g2\<rparr>))"
| "enqueue_timeout_with_handle C clk t wait (WaitSleep dl task observed remaining) s = (WaitBegin dl task, s)"
| "enqueue_timeout_with_handle C clk t wait (WaitDone r) s = (WaitDone r, s)"

fun waiting_enqueue_ops :: "clock \<Rightarrow> tenant_key \<Rightarrow> 'a waiting_enqueue \<Rightarrow> 'a sched \<Rightarrow> 'a op list" where
  "waiting_enqueue_ops clk t (WaitStart task) s = [LookAtClock]"
| "waiting_enqueue_ops clk t (WaitTry dl task observed) s = [Attempt t task]"
| "waiting_enqueue_ops clk t (WaitFull dl task observed) s =
    (if dl \<le> clk (ticks (shared s)) then [LookAtClock, GiveUp] else [LookAtClock, LookAtClock])"
| "waiting_enqueue_ops clk t c s = []"

interpretation timed_enqueue: waiting_call C clk "enqueue_timeout_with_handle C clk t wait" "waiting_enqueue_ops clk t"
  for C clk t wait
proof
  fix c :: "'a waiting_enqueue" and s :: "'a sched"
  show "snd (enqueue_timeout_with_handle C clk t wait c s) = exec_all C clk (waiting_enqueue_ops clk t c s) s"
    by (cases c) (auto simp: Let_def read_clock_def split: prod.splits enqueue_attempt.splits simp del: record_reject.simps)
  show "length (waiting_enqueue_ops clk t c s) \<le> 2" by (cases c) simp_all
qed

subsection \<open>Invariants of an interleaving\<close>

text \<open>A state as it occurs in a run that has not exhausted the ids.\<close>

definition sound_state :: "config \<Rightarrow> 'a sched \<Rightarrow> bool" where
  "sound_state C s \<longleftrightarrow> sched_ok C s \<and> (\<exists>a d c. books C 0 a d c (shared s) \<and> a < u64_max)"

lemma run_sound_state: "length es < u64_max \<Longrightarrow> run C clk es = (os, s) \<Longrightarrow> sound_state C s"
  using run_inv_run(1-3) [of es C clk os s] unfolding sound_state_def by fastforce

definition turns :: "'a event list \<Rightarrow> nat" where
  "turns evs = length (filter (\<lambda>ev. case ev of Turn \<Rightarrow> True | Others e \<Rightarrow> False) evs)"

lemma turns_simps [simp]: "turns [] = 0" "turns (Turn # evs) = Suc (turns evs)" "turns (Others e # evs) = turns evs"
  by (simp_all add: turns_def)

context waiting_call
begin

text \<open>Rule induction over an interleaving: the invariant counts the caller's own turns.\<close>

lemma interleave_invariant:
  assumes "run C clk es = (os, s)" and "length es + 2 * length evs < u64_max" and "I n c s"
    and own: "\<And>n c s. sound_state C s \<Longrightarrow> I n c s \<Longrightarrow> I (Suc n) (fst (turn c s)) (snd (turn c s))"
    and others: "\<And>n c s e. sound_state C s \<Longrightarrow> I n c s \<Longrightarrow> I n c (snd (exec C clk e s))"
    and "interleave C clk turn evs (c, s) = (c', s')"
  shows "I (n + turns evs) c' s'"
  using assms(1-3,6)
proof (induction evs arbitrary: es os n c s)
  case Nil
  then show ?case by simp
next
  case (Cons ev evs)
  have "length es < u64_max" using Cons.prems(2) by simp
  from run_sound_state [OF this Cons.prems(1)] have sound: "sound_state C s" .
  show ?case
  proof (cases ev)
    case Turn
    have "snd (run C clk (es @ ops c s)) = snd (turn c s)"
      using run_exec_all [of C clk es "ops c s"] turn_ops [of c s] Cons.prems(1) by simp
    then obtain os1 where r: "run C clk (es @ ops c s) = (os1, snd (turn c s))" by (metis prod.collapse)
    have "length (es @ ops c s) + 2 * length evs < u64_max" using Cons.prems(2) few_ops [of c s] by simp
    from Cons.IH [OF r this own [OF sound Cons.prems(3)]] Cons.prems(4) Turn show ?thesis by simp
  next
    case (Others e)
    have "snd (run C clk (es @ [e])) = snd (exec C clk e s)" using run_exec_all [of C clk es "[e]"] Cons.prems(1) by simp
    then obtain os1 where r: "run C clk (es @ [e]) = (os1, snd (exec C clk e s))" by (metis prod.collapse)
    from Cons.IH [OF r _ others [OF sound Cons.prems(3)]] Cons.prems(2,4) Others show ?thesis by simp
  qed
qed

end

lemma exec_ticks:
  assumes "sound_state C s"
  shows "ticks (shared s) \<le> ticks (shared (snd (exec C clk e s)))"
proof -
  from assms obtain a d c where ok: "sched_ok C s" and bk: "books C 0 a d c (shared s)" and a: "a < u64_max"
    unfolding sound_state_def by blast
  have enq: "sound_as C clk V a d c t task new s s' \<Longrightarrow> ticks (shared s) \<le> ticks (shared s')" for V t task new s'
    by (simp add: sound_as_def enqueues_def)
  show ?thesis
  proof (cases e)
    case (EnqueueNow t task)
    then show ?thesis using enqueue_now_sound [OF ok bk a, of clk t task] enq
      by (auto split: option.split prod.splits)
  next
    case (Attempt t task)
    then show ?thesis using enqueue_try_reject_sound [OF ok bk a, of clk t task] enq by (auto split: prod.splits)
  next
    case Dequeue
    then show ?thesis using try_dequeue_sound [OF ok, of clk] takesD(5) by (auto split: prod.splits)
  next
    case (Cancel h)
    then show ?thesis
      by (auto simp: cancel_def take_pending_def Let_def mark_cancelled_def frame_simps split: prod.splits)
  next
    case (Close m)
    then show ?thesis by (simp add: close_with_mode_def set_shutdown_mode_def Let_def frame_simps)
  qed (simp_all add: count_up_def read_clock_def set_tenant_quantum_def clear_tenant_quantum_def Let_def
      set_quantum_provider_def)
qed

subsection \<open>After the deadline\<close>

definition past :: "clock \<Rightarrow> instant \<Rightarrow> 'a sched \<Rightarrow> bool" where
  "past clk dl s \<longleftrightarrow> (\<forall>n \<ge> ticks (shared s). dl \<le> clk n)"

lemma past_later: "past clk dl s \<Longrightarrow> ticks (shared s) \<le> ticks (shared s') \<Longrightarrow> past clk dl s'"
  by (auto simp: past_def)

text \<open>How many turns a timed consumer still needs when its deadline has passed.\<close>

fun dequeue_rank :: "instant \<Rightarrow> 'a timed_consumer \<Rightarrow> nat \<Rightarrow> bool" where
  "dequeue_rank dl (TimedStart timeout) n \<longleftrightarrow> False"
| "dequeue_rank dl (TimedBegin d spins) n \<longleftrightarrow> d = dl \<and> 4 \<le> n"
| "dequeue_rank dl (TimedLooked d spins observed) n \<longleftrightarrow> d = dl \<and> 3 \<le> n"
| "dequeue_rank dl (TimedMissed d spins observed) n \<longleftrightarrow> d = dl \<and> 2 \<le> n"
| "dequeue_rank dl (TimedLate d spins observed) n \<longleftrightarrow> d = dl \<and> 1 \<le> n"
| "dequeue_rank dl (TimedOpen d spins observed remaining) n \<longleftrightarrow> d = dl \<and> 6 \<le> n"
| "dequeue_rank dl (TimedWait d observed wait) n \<longleftrightarrow> d = dl \<and> 5 \<le> n"
| "dequeue_rank dl (TimedReturned r) n \<longleftrightarrow> True"

fun enqueue_rank :: "instant \<Rightarrow> 'a waiting_enqueue \<Rightarrow> nat \<Rightarrow> bool" where
  "enqueue_rank dl (WaitStart task) n \<longleftrightarrow> False"
| "enqueue_rank dl (WaitBegin d task) n \<longleftrightarrow> d = dl \<and> 4 \<le> n"
| "enqueue_rank dl (WaitObserve d task) n \<longleftrightarrow> d = dl \<and> 3 \<le> n"
| "enqueue_rank dl (WaitTry d task observed) n \<longleftrightarrow> d = dl \<and> 2 \<le> n"
| "enqueue_rank dl (WaitFull d task observed) n \<longleftrightarrow> d = dl \<and> 1 \<le> n"
| "enqueue_rank dl (WaitSleep d task observed remaining) n \<longleftrightarrow> d = dl \<and> 5 \<le> n"
| "enqueue_rank dl (WaitDone r) n \<longleftrightarrow> True"


lemma dequeue_rank_turn:
  "past clk dl s \<Longrightarrow> dequeue_rank dl c m \<Longrightarrow> dequeue_rank dl (fst (dequeue_blocking_timeout clk c s)) (m - 1)"
  by (cases c) (auto simp: past_def Let_def read_clock_def split: prod.splits dequeue_result.splits)

lemma enqueue_rank_turn:
  "past clk dl s \<Longrightarrow> enqueue_rank dl c m \<Longrightarrow>
    enqueue_rank dl (fst (enqueue_timeout_with_handle C clk t wait c s)) (m - 1)"
  by (cases c) (auto simp: past_def Let_def read_clock_def split: prod.splits enqueue_attempt.splits)

fun timed_deadline :: "'a timed_consumer \<Rightarrow> instant option" where
  "timed_deadline (TimedBegin dl spins) = Some dl"
| "timed_deadline (TimedLooked dl spins observed) = Some dl"
| "timed_deadline (TimedMissed dl spins observed) = Some dl"
| "timed_deadline (TimedLate dl spins observed) = Some dl"
| "timed_deadline (TimedOpen dl spins observed remaining) = Some dl"
| "timed_deadline (TimedWait dl observed wait) = Some dl"
| "timed_deadline c = None"

fun waiting_deadline :: "'a waiting_enqueue \<Rightarrow> instant option" where
  "waiting_deadline (WaitBegin dl task) = Some dl"
| "waiting_deadline (WaitObserve dl task) = Some dl"
| "waiting_deadline (WaitTry dl task observed) = Some dl"
| "waiting_deadline (WaitFull dl task observed) = Some dl"
| "waiting_deadline (WaitSleep dl task observed remaining) = Some dl"
| "waiting_deadline c = None"

lemma deadline_rank:
  "timed_deadline c = Some dl \<Longrightarrow> dequeue_rank dl c 6" "waiting_deadline w = Some dl \<Longrightarrow> enqueue_rank dl w 5"
  by (cases c; simp) (cases w; simp)

text \<open>A turn of either call moves the clock forward only.\<close>

context waiting_call
begin

lemma exec_all_ticks:
  assumes "sound_state C s" and "ops c s = [] \<or> (\<exists>e. ops c s = [e]) \<or> (\<exists>e. ops c s = [LookAtClock, e] \<and> (e = LookAtClock \<or> e = GiveUp))"
  shows "ticks (shared s) \<le> ticks (shared (snd (turn c s)))"
  using assms exec_ticks [OF assms(1)] unfolding turn_ops
  by (auto simp: read_clock_def count_up_def)

lemma past_interleave:
  assumes r: "run C clk es = (os, s)" "length es + 2 * length evs < u64_max"
    and shape: "\<And>c s. ops c s = [] \<or> (\<exists>e. ops c s = [e]) \<or> (\<exists>e. ops c s = [LookAtClock, e] \<and> (e = LookAtClock \<or> e = GiveUp))"
    and rank: "\<And>c s m. past clk dl s \<Longrightarrow> P c m \<Longrightarrow> P (fst (turn c s)) (m - 1)"
    and start: "past clk dl s" "P c m" and il: "interleave C clk turn evs (c, s) = (c', s')"
  shows "P c' (m - turns evs)"
proof -
  have "past clk dl s' \<and> P c' (m - (0 + turns evs))"
  proof (rule interleave_invariant [where I = "\<lambda>n c s. past clk dl s \<and> P c (m - n)", OF r _ _ _ il])
    show "past clk dl s \<and> P c (m - 0)" using start by simp
    show "past clk dl (snd (turn c s)) \<and> P (fst (turn c s)) (m - Suc n)"
      if "sound_state C s" "past clk dl s \<and> P c (m - n)" for n c s
      using past_later [OF conjunct1 [OF that(2)] exec_all_ticks [OF that(1) shape]] rank [of s c "m - n"] that(2) by auto
    show "past clk dl (snd (exec C clk e s)) \<and> P c (m - n)"
      if "sound_state C s" "past clk dl s \<and> P c (m - n)" for n c s e
      using past_later exec_ticks [OF that(1)] that(2) by blast
  qed
  then show ?thesis by simp
qed

end

lemma timed_ops_shape:
  "timed_consumer_ops clk c s = [] \<or> (\<exists>e. timed_consumer_ops clk c s = [e]) \<or>
    (\<exists>e. timed_consumer_ops clk c s = [LookAtClock, e] \<and> (e = LookAtClock \<or> e = GiveUp))"
  by (cases c) auto

lemma waiting_ops_shape:
  "waiting_enqueue_ops clk t c s = [] \<or> (\<exists>e. waiting_enqueue_ops clk t c s = [e]) \<or>
    (\<exists>e. waiting_enqueue_ops clk t c s = [LookAtClock, e] \<and> (e = LookAtClock \<or> e = GiveUp))"
  by (cases c) auto

text \<open>
  C20: A timed dequeue returns: once the deadline has passed, six more turns of the caller are
  enough from any point of the loop, however the operations of others come in between.
\<close>

theorem timed_dequeue_returns:
  assumes "run C clk es = (os, s)" and "length es + 2 * length evs < u64_max"
    and "timed_deadline c = Some dl" and "\<forall>n \<ge> ticks (shared s). dl \<le> clk n" and "6 \<le> turns evs"
    and "interleave C clk (dequeue_blocking_timeout clk) evs (c, s) = (c', s')"
  shows "\<exists>r. c' = TimedReturned r"
proof -
  have "past clk dl s" using assms(4) by (simp add: past_def)
  from timed_dequeue.past_interleave [where P = "dequeue_rank dl", OF assms(1,2) timed_ops_shape dequeue_rank_turn
      this deadline_rank(1) [OF assms(3)] assms(6)]
  have "dequeue_rank dl c' (6 - turns evs)" .
  with assms(5) show ?thesis by (cases c') simp_all
qed

text \<open>
  C22: An enqueue under a \<open>Timeout\<close> policy returns: once the deadline has passed, five more
  turns of the caller are enough, whatever calls of others come between them, each a single step.
\<close>

theorem timed_enqueue_returns:
  assumes "run C clk es = (os, s)" and "length es + 2 * length evs < u64_max"
    and "waiting_deadline c = Some dl" and "\<forall>n \<ge> ticks (shared s). dl \<le> clk n" and "5 \<le> turns evs"
    and "interleave C clk (enqueue_timeout_with_handle C clk t wait) evs (c, s) = (c', s')"
  shows "\<exists>r. c' = WaitDone r"
proof -
  have "past clk dl s" using assms(4) by (simp add: past_def)
  from timed_enqueue.past_interleave [where P = "enqueue_rank dl", OF assms(1,2) waiting_ops_shape enqueue_rank_turn
      this deadline_rank(2) [OF assms(3)] assms(6)]
  have "enqueue_rank dl c' (5 - turns evs)" .
  with assms(5) show ?thesis by (cases c') simp_all
qed


theorem timed_dequeue_returns_witness:
  "\<exists>s r. demo_run [] = ([], s) \<and>
    fst (interleave demo_config demo_clock (dequeue_blocking_timeout demo_clock) (replicate 6 Turn) (TimedBegin 100 0, s)) =
      TimedReturned r"
proof -
  obtain os s where r: "demo_run [] = (os, s)" by fastforce
  obtain c' s' where i: "interleave demo_config demo_clock (dequeue_blocking_timeout demo_clock) (replicate 6 Turn)
      (TimedBegin 100 0, s) = (c', s')" by fastforce
  have "os = []" using r by (auto simp: eval)
  moreover have "\<forall>n \<ge> ticks (shared s). 100 \<le> demo_clock n" by (simp add: demo_clock_def)
  from timed_dequeue_returns [OF r _ _ this _ i] obtain v where "c' = TimedReturned v"
    by (auto simp: turns_def)
  ultimately show ?thesis using r i by auto
qed

theorem timed_enqueue_returns_witness:
  "\<exists>s r. demo_run [] = ([], s) \<and>
    fst (interleave demo_config demo_clock (enqueue_timeout_with_handle demo_config demo_clock tenant7 10)
      (replicate 5 Turn) (WaitBegin 100 (demo_task 0), s)) = WaitDone r"
proof -
  obtain os s where r: "demo_run [] = (os, s)" by fastforce
  obtain c' s' where i: "interleave demo_config demo_clock (enqueue_timeout_with_handle demo_config demo_clock tenant7 10)
      (replicate 5 Turn) (WaitBegin 100 (demo_task 0), s) = (c', s')" by fastforce
  have "os = []" using r by (auto simp: eval)
  moreover have "\<forall>n \<ge> ticks (shared s). 100 \<le> demo_clock n" by (simp add: demo_clock_def)
  from timed_enqueue_returns [OF r _ _ this _ i] obtain v where "c' = WaitDone v"
    by (auto simp: turns_def)
  ultimately show ?thesis using r i by auto
qed

subsection \<open>Not before the deadline\<close>

text \<open>Some reading of the clock after the one that fixed the deadline shows that the time is over.\<close>

definition time_over :: "clock \<Rightarrow> nat \<Rightarrow> duration \<Rightarrow> 'a sched \<Rightarrow> bool" where
  "time_over clk i wait s \<longleftrightarrow> (\<exists>j k. i \<le> j \<and> j < k \<and> k < ticks (shared s) \<and> clk j + wait \<le> clk k)"

definition deadline_read :: "clock \<Rightarrow> nat \<Rightarrow> duration \<Rightarrow> instant \<Rightarrow> 'a sched \<Rightarrow> bool" where
  "deadline_read clk i wait dl s \<longleftrightarrow> (\<exists>j. i \<le> j \<and> j < ticks (shared s) \<and> dl = clk j + wait)"

lemma time_over_later: "time_over clk i wait s \<Longrightarrow> ticks (shared s) \<le> ticks (shared s') \<Longrightarrow> time_over clk i wait s'"
  unfolding time_over_def by (meson order_less_le_trans)

lemma deadline_read_later:
  "deadline_read clk i wait dl s \<Longrightarrow> ticks (shared s) \<le> ticks (shared s') \<Longrightarrow> deadline_read clk i wait dl s'"
  unfolding deadline_read_def using order_less_le_trans by blast

definition punctual_dequeue :: "clock \<Rightarrow> nat \<Rightarrow> duration \<Rightarrow> 'a timed_consumer \<Rightarrow> 'a sched \<Rightarrow> bool" where
  "punctual_dequeue clk i timeout c s \<longleftrightarrow>
     (case c of TimedStart t \<Rightarrow> t = timeout \<and> i \<le> ticks (shared s)
      | TimedReturned r \<Rightarrow> r = Empty \<longrightarrow> time_over clk i timeout s
      | _ \<Rightarrow> \<forall>dl. timed_deadline c = Some dl \<longrightarrow> deadline_read clk i timeout dl s)"

definition punctual_enqueue :: "clock \<Rightarrow> nat \<Rightarrow> duration \<Rightarrow> 'a waiting_enqueue \<Rightarrow> 'a sched \<Rightarrow> bool" where
  "punctual_enqueue clk i wait c s \<longleftrightarrow>
     (case c of WaitStart task \<Rightarrow> i \<le> ticks (shared s)
      | WaitDone r \<Rightarrow> (\<forall>reason. r = Rejected reason \<longrightarrow> reason = TimedOut \<and> time_over clk i wait s)
      | _ \<Rightarrow> \<forall>dl. waiting_deadline c = Some dl \<longrightarrow> deadline_read clk i wait dl s)"

lemma punctual_dequeue_later:
  "punctual_dequeue clk i timeout c s \<Longrightarrow> ticks (shared s) \<le> ticks (shared s') \<Longrightarrow> punctual_dequeue clk i timeout c s'"
  using time_over_later deadline_read_later by (fastforce simp: punctual_dequeue_def split: timed_consumer.splits)

lemma punctual_enqueue_later:
  "punctual_enqueue clk i wait c s \<Longrightarrow> ticks (shared s) \<le> ticks (shared s') \<Longrightarrow> punctual_enqueue clk i wait c s'"
  using time_over_later deadline_read_later by (fastforce simp: punctual_enqueue_def split: waiting_enqueue.splits)

lemma deadline_check:
  assumes "deadline_read clk i wait dl s" and "dl \<le> clk (ticks (shared s))" and "ticks (shared s') = Suc (ticks (shared s))"
  shows "time_over clk i wait s'"
  using assms unfolding deadline_read_def time_over_def by (metis lessI)

lemma deadline_start:
  "i \<le> ticks (shared s) \<Longrightarrow> ticks (shared s') = Suc (ticks (shared s)) \<Longrightarrow>
    deadline_read clk i wait (clk (ticks (shared s)) + wait) s'"
  unfolding deadline_read_def by auto

lemma punctual_dequeue_turn:
  assumes "sound_state C s" and p: "punctual_dequeue clk i timeout c s"
  shows "punctual_dequeue clk i timeout (fst (dequeue_blocking_timeout clk c s)) (snd (dequeue_blocking_timeout clk c s))"
proof -
  have ti: "ticks (shared s) \<le> ticks (shared (snd (dequeue_blocking_timeout clk c s)))"
    using timed_dequeue.exec_all_ticks [OF assms(1) timed_ops_shape] .
  show ?thesis
  proof (cases c)
    case (TimedStart t)
    with p show ?thesis by (auto simp: punctual_dequeue_def read_clock_def intro: deadline_start)
  next
    case (TimedLate dl spins observed)
    with p have dr: "deadline_read clk i timeout dl s" by (simp add: punctual_dequeue_def)
    with TimedLate ti show ?thesis
      by (auto simp: punctual_dequeue_def read_clock_def Let_def intro: deadline_check elim: deadline_read_later)
  next
    case (TimedLooked dl spins observed)
    with p ti have "deadline_read clk i timeout dl (snd (dequeue_blocking_timeout clk c s))"
      by (simp add: punctual_dequeue_def deadline_read_later)
    with TimedLooked show ?thesis
      by (auto simp: punctual_dequeue_def split: prod.splits dequeue_result.splits)
  qed (use p in \<open>auto simp: punctual_dequeue_def Let_def\<close>)
qed

lemma punctual_enqueue_turn:
  assumes "sound_state C s" and p: "punctual_enqueue clk i wait c s"
  shows "punctual_enqueue clk i wait (fst (enqueue_timeout_with_handle C clk t wait c s))
    (snd (enqueue_timeout_with_handle C clk t wait c s))"
proof -
  have ti: "ticks (shared s) \<le> ticks (shared (snd (enqueue_timeout_with_handle C clk t wait c s)))"
    using timed_enqueue.exec_all_ticks [OF assms(1) waiting_ops_shape] .
  show ?thesis
  proof (cases c)
    case (WaitStart task)
    with p show ?thesis by (auto simp: punctual_enqueue_def read_clock_def intro: deadline_start)
  next
    case (WaitFull dl task observed)
    with p have dr: "deadline_read clk i wait dl s" by (simp add: punctual_enqueue_def)
    have over: "time_over clk i wait (s\<lparr>shared := record_reject TimedOut (snd (read_clock clk (shared s)))\<rparr>)"
      if "dl \<le> clk (ticks (shared s))"
      by (rule deadline_check [OF dr that]) (simp add: read_clock_def count_up_def)
    from WaitFull ti dr over show ?thesis
      by (auto simp: punctual_enqueue_def read_clock_def Let_def simp del: record_reject.simps elim: deadline_read_later)
  next
    case (WaitTry dl task observed)
    with p ti have "deadline_read clk i wait dl (snd (enqueue_timeout_with_handle C clk t wait c s))"
      by (simp add: punctual_enqueue_def deadline_read_later)
    with WaitTry show ?thesis
      by (auto simp: punctual_enqueue_def split: prod.splits enqueue_attempt.splits)
  qed (use p in \<open>auto simp: punctual_enqueue_def Let_def\<close>)
qed

text \<open>
  C21: A timed dequeue does not give up early, and neither does a waiting enqueue: \<open>Empty\<close> and a
  timeout rejection are only answered when a later reading of the clock is past the reading
  that started the call by the whole waiting time; and a waiting enqueue is never rejected
  for capacity. The calls of others that come between are single steps.
\<close>

theorem no_early_timeout:
  assumes "run C clk es = (os, s)" and "length es + 2 * length evs < u64_max"
  shows "(\<forall>s'. interleave C clk (dequeue_blocking_timeout clk) evs (TimedStart timeout, s) = (TimedReturned Empty, s') \<longrightarrow>
      time_over clk (ticks (shared s)) timeout s') \<and>
    (\<forall>s' reason. interleave C clk (enqueue_timeout_with_handle C clk t wait) evs (WaitStart task, s) =
        (WaitDone (Rejected reason), s') \<longrightarrow> reason = TimedOut \<and> time_over clk (ticks (shared s)) wait s')"
proof (intro conjI allI impI)
  fix s' assume il: "interleave C clk (dequeue_blocking_timeout clk) evs (TimedStart timeout, s) = (TimedReturned Empty, s')"
  let ?I = "\<lambda>n. punctual_dequeue clk (ticks (shared s)) timeout"
  have "?I (0 + turns evs) (TimedReturned Empty) s'"
  proof (rule timed_dequeue.interleave_invariant [where I = ?I, OF assms _ _ _ il])
    show "?I 0 (TimedStart timeout) s" by (simp add: punctual_dequeue_def)
  qed (use punctual_dequeue_turn punctual_dequeue_later exec_ticks in blast)+
  then show "time_over clk (ticks (shared s)) timeout s'" by (simp add: punctual_dequeue_def)
next
  fix s' reason
  assume il: "interleave C clk (enqueue_timeout_with_handle C clk t wait) evs (WaitStart task, s) = (WaitDone (Rejected reason), s')"
  let ?I = "\<lambda>n. punctual_enqueue clk (ticks (shared s)) wait"
  have "?I (0 + turns evs) (WaitDone (Rejected reason)) s'"
  proof (rule timed_enqueue.interleave_invariant [where I = ?I, OF assms _ _ _ il])
    show "?I 0 (WaitStart task) s" by (simp add: punctual_enqueue_def)
  qed (use punctual_enqueue_turn punctual_enqueue_later exec_ticks in blast)+
  then show "reason = TimedOut" "time_over clk (ticks (shared s)) wait s'" by (simp_all add: punctual_enqueue_def)
qed

theorem no_early_timeout_witness:
  "\<exists>s s'. interleave demo_config demo_clock (dequeue_blocking_timeout demo_clock) [Turn, Turn, Turn, Turn, Turn]
      (TimedStart 1, s) = (TimedReturned (Empty :: nat dequeue_result), s') \<and> time_over demo_clock (ticks (shared s)) 1 s'"
proof -
  obtain os s where r: "run demo_config demo_clock ([] :: nat op list) = (os, s)" by fastforce
  obtain c' s' where i: "interleave demo_config demo_clock (dequeue_blocking_timeout demo_clock) [Turn, Turn, Turn, Turn, Turn]
      (TimedStart 1, s) = (c', s')" by fastforce
  have "c' = TimedReturned Empty" using i r by (auto simp: eval signal_current_def)
  with i no_early_timeout [OF r, of "[Turn, Turn, Turn, Turn, Turn]" 1] show ?thesis by force
qed

end
