(* ===== verification/Pacing.thy ===== *)
theory Pacing
  imports Scenario Coverage
begin

text \<open>
  The progress of deficit round robin. First an invariant of runs: when every quantum is at
  most \<open>K\<close> and every cost at most \<open>M\<close>, all credit stays non-negative and no addition to it
  leaves \<open>i64\<close> as long as \<open>M + K\<close> does not. Then its consequence: how many dequeues in a row
  can find nothing while a task waits.
\<close>

subsection \<open>Moderate quanta and costs\<close>

definition mild_state :: "nat \<Rightarrow> nat \<Rightarrow> 'a tenant_state \<Rightarrow> bool" where
  "mild_state M K ts \<longleftrightarrow> 1 \<le> quantum ts \<and> quantum ts \<le> int K \<and> (\<forall>p. 0 \<le> deficits ts p) \<and>
     (\<forall>p. \<forall>e \<in> set (queues ts p). unat (cost (entry_task e)) \<le> M)"

definition mild_rates :: "nat \<Rightarrow> (tenant_key \<rightharpoonup> u64) \<times> quantum_provider option \<Rightarrow> bool" where
  "mild_rates K = (\<lambda>(m, f). (\<forall>t v. m t = Some v \<longrightarrow> unat v \<le> K) \<and> (\<forall>h t. f = Some h \<longrightarrow> unat (h t) \<le> K))"

definition mild_shard :: "nat \<Rightarrow> nat \<Rightarrow> 'a shard \<Rightarrow> bool" where
  "mild_shard M K sh \<longleftrightarrow> (\<forall>t ts. tenants sh t = Some ts \<longrightarrow> mild_state M K ts)"

definition mild_config :: "nat \<Rightarrow> config \<Rightarrow> bool" where
  "mild_config K C \<longleftrightarrow> 1 \<le> K \<and> unat (cfg_quantum C) \<le> K \<and> mild_rates K (quantum_by_tenant C, cfg_quantum_provider C)"

text \<open>What the quantum of a tenant depends on, outside the configuration.\<close>

definition rates :: "shared \<Rightarrow> (tenant_key \<rightharpoonup> u64) \<times> quantum_provider option" where
  "rates g = (tenant_quantum g, quantum_provider g)"

definition mild :: "nat \<Rightarrow> nat \<Rightarrow> 'a sched \<Rightarrow> bool" where
  "mild M K s \<longleftrightarrow> mild_rates K (rates (shared s)) \<and> (\<forall>sh \<in> set (shards s). mild_shard M K sh)"

fun mild_op :: "nat \<Rightarrow> nat \<Rightarrow> 'a op \<Rightarrow> bool" where
  "mild_op M K (EnqueueNow t task) \<longleftrightarrow> unat (cost task) \<le> M"
| "mild_op M K (Attempt t task) \<longleftrightarrow> unat (cost task) \<le> M"
| "mild_op M K (SetQuantum t q) \<longleftrightarrow> unat q \<le> K"
| "mild_op M K (SetProvider f) \<longleftrightarrow> (\<forall>h t. f = Some h \<longrightarrow> unat (h t) \<le> K)"
| "mild_op M K e \<longleftrightarrow> True"

lemma unat_max_1: "unat (max v 1 :: u64) = max (unat v) 1"
  by (simp add: max_def word_le_nat_alt)

text \<open>The quantum the code computes is then within \<open>1\<close> and \<open>K\<close>, also after the cast to \<open>i64\<close>.\<close>

lemma quantum_for_mild:
  assumes "mild_config K C" and "mild_rates K (rates g)" and "int K \<le> i64_max"
  shows "1 \<le> as_i64 (quantum_for C t g)" and "as_i64 (quantum_for C t g) \<le> int K"
proof -
  have u: "1 \<le> unat (quantum_for C t g) \<and> unat (quantum_for C t g) \<le> K"
    using assms(1,2)
    by (auto simp: quantum_for_def mild_config_def mild_rates_def rates_def unat_max_1 split: option.split)
  with assms(3) have "as_i64 (quantum_for C t g) = int (unat (quantum_for C t g))"
    by (intro as_i64_small) auto
  moreover from u have "1 \<le> int (unat (quantum_for C t g))" "int (unat (quantum_for C t g)) \<le> int K" by linarith+
  ultimately show "1 \<le> as_i64 (quantum_for C t g)" "as_i64 (quantum_for C t g) \<le> int K" by (simp_all only:)
qed

subsection \<open>What leaves the rates alone\<close>

lemma rates_shared_ops [simp]:
  "rates (snd (read_clock clk g)) = rates g" "rates (notify_all g) = rates g"
  "rates (count_up c n g) = rates g" "rates (record_queue_time v g) = rates g"
  "rates (record_policy_drop g) = rates g" "rates (release_reserved_slots n g) = rates g"
  "rates (snd (try_reserve_slot C g)) = rates g" "rates (snd (take_pending i g)) = rates g"
  "rates (snd (take_cancelled_marker i g)) = rates g" "rates (clear_cancelled_marker i g) = rates g"
  "rates (mark_cancelled i g) = rates g" "rates (set_shutdown_mode m g) = rates g"
  "rates (register_pending h g) = rates g" "rates (snd (next_handle g)) = rates g"
  by (simp_all add: rates_def read_clock_def notify_all_def count_up_def record_queue_time_def
      record_policy_drop_def release_reserved_slots_def try_reserve_slot_def take_pending_def
      take_cancelled_marker_def clear_cancelled_marker_def mark_cancelled_def set_shutdown_mode_def
      register_pending_def next_handle_def Let_def split: option.split)

lemma rates_record_reject [simp]: "rates (record_reject r g) = rates g"
  by (cases r) simp_all

lemma take_marker_rates: "take_cancelled_marker i g = (b, g') \<Longrightarrow> rates g' = rates g"
  by (auto simp: take_cancelled_marker_def rates_def)

lemma take_pending_rates: "take_pending i g = (b, g') \<Longrightarrow> rates g' = rates g"
  by (auto simp: take_pending_def rates_def)

lemma reserve_rates: "try_reserve_slot C g = (b, g') \<Longrightarrow> rates g' = rates g"
  by (auto simp: try_reserve_slot_def rates_def split: if_splits)

lemma clock_rates: "read_clock clk g = (now, g') \<Longrightarrow> rates g' = rates g"
  by (auto simp: read_clock_def rates_def)

lemma removed_rates:
  "removed_cancelled i g st = (g', st') \<Longrightarrow> rates g' = rates g"
  "removed_expired i g st = (g', st') \<Longrightarrow> rates g' = rates g"
  by (auto simp: removed_cancelled_def removed_expired_def split: prod.splits dest: take_pending_rates)

lemmas step_rates = removed_rates take_marker_rates take_pending_rates reserve_rates clock_rates

lemma rates_top [simp]: "rates (g\<lparr>top_tenants := tt\<rparr>) = rates g"
  by (simp add: rates_def)

lemma rates_record_dequeue [simp]: "rates (record_dequeue clk t task g) = rates g"
  by (auto simp: record_dequeue_def Let_def split: prod.split dest: clock_rates)

text \<open>
  \<open>gentle\<close>: what the purges and evictions of an enqueue do to a tenant as far as the credit
  is concerned; entries only leave.
\<close>

definition gentle :: "'a tenant_state \<Rightarrow> shared \<Rightarrow> 'a tenant_state \<Rightarrow> shared \<Rightarrow> bool" where
  "gentle ts g ts' g' \<longleftrightarrow> rates g' = rates g \<and> quantum ts' = quantum ts \<and> deficits ts' = deficits ts \<and>
     (\<forall>p. set (queues ts' p) \<subseteq> set (queues ts p))"

lemma gentle_refl [simp]: "gentle ts g ts g"
  by (simp add: gentle_def)

lemma gentle_trans: "gentle ts g ts1 g1 \<Longrightarrow> gentle ts1 g1 ts2 g2 \<Longrightarrow> gentle ts g ts2 g2"
  unfolding gentle_def by fastforce

lemma gentle_rates: "rates g' = rates g1 \<Longrightarrow> gentle ts g ts1 g1 \<Longrightarrow> gentle ts g ts1 g'"
  by (simp add: gentle_def)

lemma gentle_mild: "gentle ts g ts' g' \<Longrightarrow> mild_state M K ts \<Longrightarrow> mild_state M K ts'"
  unfolding gentle_def mild_state_def by (metis subsetD)

lemma purge_front_gentle:
  "purge_front now q g st = (q', g', st') \<Longrightarrow> set q' \<subseteq> set q \<and> rates g' = rates g"
proof (induction q arbitrary: g st)
  case (Cons e q)
  obtain m g1 where m: "take_cancelled_marker (entry_id e) g = (m, g1)" by fastforce
  obtain g2 st2 where c: "removed_cancelled (entry_id e) g1 st = (g2, st2)" by fastforce
  obtain g3 st3 where x: "removed_expired (entry_id e) g1 st = (g3, st3)" by fastforce
  note r = take_marker_rates [OF m] removed_rates(1) [OF c] removed_rates(2) [OF x]
  show ?case
  proof (cases "m \<or> is_expired (deadline (entry_task e)) now")
    case True
    with Cons.prems m c x
    have "\<exists>h st1. rates h = rates g \<and> purge_front now q h st1 = (q', g', st')"
      by (cases m) (use r in auto)
    with Cons.IH show ?thesis by (metis set_subset_Cons subset_trans)
  next
    case False
    with Cons.prems m r show ?thesis by auto
  qed
qed simp

lemma set_remove_at: "set (remove_at i xs) \<subseteq> set xs"
  by (auto simp: remove_at_def dest: in_set_takeD in_set_dropD)

lemma purge_scan_gentle:
  "purge_scan now budget idx n q g st = (q', g', st') \<Longrightarrow> set q' \<subseteq> set q \<and> rates g' = rates g"
proof (induction "budget - n" arbitrary: idx n q g st)
  case 0
  then show ?case by (simp add: purge_scan.simps [of now budget idx n q g st])
next
  case (Suc k)
  have k: "k = budget - Suc n" using Suc.hyps(2) by simp
  show ?case
  proof (cases "idx < length q")
    case False
    with Suc.prems show ?thesis by (simp add: purge_scan.simps [of now budget idx n q g st])
  next
    case True
    obtain m g1 where m: "take_cancelled_marker (entry_id (q ! idx)) g = (m, g1)" by fastforce
    obtain g2 st2 where c: "removed_cancelled (entry_id (q ! idx)) g1 st = (g2, st2)" by fastforce
    obtain g3 st3 where x: "removed_expired (entry_id (q ! idx)) g1 st = (g3, st3)" by fastforce
    note r = take_marker_rates [OF m] removed_rates(1) [OF c] removed_rates(2) [OF x]
    have "n < budget" using Suc.hyps(2) by simp
    with Suc.prems True m c x r set_remove_at [of idx q]
    have "\<exists>i q2 h st2. purge_scan now budget i (Suc n) q2 h st2 = (q', g', st') \<and> set q2 \<subseteq> set q \<and> rates h = rates g"
      unfolding purge_scan.simps [of now budget idx n q g st]
      by (cases m; cases "is_expired (deadline (entry_task (q ! idx))) now") (force simp: Let_def)+
    then obtain i q2 h st2 where "purge_scan now budget i (Suc n) q2 h st2 = (q', g', st')" "set q2 \<subseteq> set q" "rates h = rates g"
      by blast
    with Suc.hyps(1) [OF k this(1)] show ?thesis by auto
  qed
qed

lemma purge_queue_gentle:
  "purge_queue_with_budget now budget q g st = (q', g', st') \<Longrightarrow> set q' \<subseteq> set q \<and> rates g' = rates g"
  using purge_front_gentle [of now q g st] purge_scan_gentle [of now budget 0 0]
  by (fastforce simp: purge_queue_with_budget_def split: prod.splits if_splits)

lemma purge_priorities_gentle:
  "purge_priorities ps now budget ts g st = (ts', g', st') \<Longrightarrow> gentle ts g ts' g'"
proof (induction ps arbitrary: ts g st)
  case (Cons p ps)
  obtain q g1 st1 where q: "purge_queue_with_budget now budget (queues ts p) g st = (q, g1, st1)" by (metis prod_cases3)
  define ts1 where "ts1 = (let ts1 = ts\<lparr>queues := (queues ts)(p := q)\<rparr>
    in if q = [] then ts1\<lparr>active := (active ts1)(p := False)\<rparr> else ts1)"
  have "gentle ts g ts1 g1" using purge_queue_gentle [OF q] by (auto simp: gentle_def ts1_def Let_def)
  moreover have "purge_priorities ps now budget ts1 g1 st1 = (ts', g', st')"
    using Cons.prems q by (simp add: ts1_def Let_def)
  ultimately show ?case using Cons.IH gentle_trans by blast
qed simp

lemma purge_for_enqueue_gentle:
  assumes "purge_tenant_for_enqueue clk reason ts g = (st, ts', g')"
  shows "gentle ts g ts' g'"
proof -
  obtain now g1 where c: "read_clock clk g = (now, g1)" by fastforce
  obtain ts1 g2 st1 where p: "purge_priorities ordered now (side_scan_budget reason) ts g1 purge_stats_default = (ts1, g2, st1)"
    by (metis prod_cases3)
  have "rates g' = rates g2" "ts' = ts1\<lparr>enqueue_attempts_since_purge := 0\<rparr>"
    using assms c p
    by (auto simp: purge_tenant_for_enqueue_def purge_tenant_with_budget_def record_enqueue_purge_stats_def Let_def)
  with purge_priorities_gentle [OF p] clock_rates [OF c] show ?thesis by (simp add: gentle_def)
qed

lemma maybe_purge_gentle:
  assumes "maybe_purge_tenant_before_enqueue C clk ts g = (r, ts', g')"
  shows "gentle ts g ts' g'"
proof -
  define ts1 where "ts1 = ts\<lparr>enqueue_attempts_since_purge := saturating_add32 (enqueue_attempts_since_purge ts) 1\<rparr>"
  have t: "gentle ts g ts1 g" by (simp add: gentle_def ts1_def)
  from assms have "ts' = ts1 \<and> g' = g \<or> (\<exists>reason st. purge_tenant_for_enqueue clk reason ts1 g = (st, ts', g'))"
    by (fastforce simp: maybe_purge_tenant_before_enqueue_def ts1_def Let_def split: option.splits prod.splits)
  with t show ?thesis using gentle_trans [OF t purge_for_enqueue_gentle] by blast
qed

lemma reserve_or_purge_gentle:
  assumes "reserve_or_purge C clk full ts g = (res, ts', g')"
  shows "gentle ts g ts' g'"
proof -
  obtain b g1 where b: "try_reserve_slot C g = (b, g1)" by fastforce
  obtain st ts1 g2 where p: "purge_tenant_for_enqueue clk FullPurge ts g1 = (st, ts1, g2)" by (metis prod_cases3)
  note r = reserve_rates [OF b]
  have "gentle ts g ts1 g2" using purge_for_enqueue_gentle [OF p] r by (simp add: gentle_def)
  moreover have "gentle ts g ts g1" using r by (simp add: gentle_def)
  moreover have "gentle ts g ts1 (snd (try_reserve_slot C g2))" using \<open>gentle ts g ts1 g2\<close> by (simp add: gentle_def)
  ultimately show ?thesis using assms b p by (auto simp: reserve_or_purge_def split: if_splits prod.splits)
qed

lemma drop_first_gentle: "drop_first ps strategy ts = Some (victim, ts') \<Longrightarrow> gentle ts g ts' g"
  by (induction ps)
    (auto simp: gentle_def split: if_splits drop_strategy.splits dest: in_set_butlastD list.set_sel(2) [rotated])

subsection \<open>Every step keeps them moderate\<close>

lemma mild_shard_entry:
  assumes "mild M K s" and "i < length (shards s)" and "mild_config K C" and "int K \<le> i64_max"
  shows "mild_state M K (tenant_entry C t (shards s ! i) (shared s))"
proof (cases "tenants (shards s ! i) t")
  case None
  have "mild_rates K (rates (shared s))" using assms(1) by (simp add: mild_def)
  with quantum_for_mild [OF assms(3) _ assms(4), of "shared s" t] None show ?thesis
    by (simp add: tenant_entry_def mild_state_def tenant_state_new_def)
next
  case (Some ts)
  with assms(1) nth_mem [OF assms(2)] show ?thesis unfolding mild_def mild_shard_def by (simp add: tenant_entry_def)
qed

lemma mild_nth: "mild M K s \<Longrightarrow> i < length (shards s) \<Longrightarrow> tenants (shards s ! i) t = Some ts \<Longrightarrow> mild_state M K ts"
  unfolding mild_def mild_shard_def using nth_mem by blast

lemma mild_update:
  assumes "mild M K s" and "rates g = rates (shared s)" and "mild_shard M K sh"
  shows "mild M K (s\<lparr>shared := g, shards := (shards s)[i := sh]\<rparr>)"
  using assms by (auto simp: mild_def dest!: set_update_subset_insert [THEN subsetD])

lemma mild_put_tenant:
  assumes "mild M K s" and "i < length (shards s)" and "rates g = rates (shared s)" and "mild_state M K ts"
  shows "mild M K (put_tenant i t ts g s)"
proof -
  from assms(1,2) have "mild_shard M K (shards s ! i)" by (simp add: mild_def)
  with assms(4) have "mild_shard M K ((shards s ! i)\<lparr>tenants := (tenants (shards s ! i))(t \<mapsto> ts)\<rparr>)"
    by (simp add: mild_shard_def)
  from mild_update [OF assms(1,3) this] show ?thesis by (simp add: put_tenant_def Let_def)
qed

lemma mild_rings: "mild_shard M K (sh\<lparr>active_rings := r\<rparr>) = mild_shard M K sh"
  by (simp add: mild_shard_def)

lemma mild_signal: "mild M K (s\<lparr>shared := notify_all (shared s)\<rparr>) = mild M K s"
  by (simp add: mild_def)

lemma mild_activate: "mild M K (activate_shard i s) = mild M K s"
  by (simp add: mild_def activate_shard_def)

lemma mild_accept:
  assumes "mild M K s" and i: "i < length (shards s)" and g: "rates g = rates (shared s)" and "mild_state M K ts"
    and "unat (cost task) \<le> M" and acc: "enqueue_accept i t task was_empty ts g s = (handle, s')"
  shows "mild M K s'"
proof -
  obtain h g1 where h: "next_handle g = (h, g1)" by fastforce
  let ?p = "prio task"
  define activate where "activate \<longleftrightarrow> queues ts ?p = [] \<and> \<not> active ts ?p"
  define ts2 where "ts2 = (let ts1 = ts\<lparr>queues := (queues ts)(?p := queues ts ?p @ [\<lparr>entry_id = handle_id h, entry_task = task\<rparr>])\<rparr>
    in if activate then ts1\<lparr>active := (active ts1)(?p := True)\<rparr> else ts1)"
  define s1 where "s1 = put_tenant i t ts2 (count_up enqueued_update 1 (register_pending h g1)) s"
  define sh2 where "sh2 = (if activate
    then (shards s1 ! i)\<lparr>active_rings := (active_rings (shards s1 ! i))(?p := ring_push_back (active_rings (shards s1 ! i) ?p) t)\<rparr>
    else shards s1 ! i)"
  have "rates g1 = rates g" using h rates_shared_ops(14) [of g] by simp
  moreover have "mild_state M K ts2" using assms(4,5) by (auto simp: mild_state_def ts2_def Let_def)
  ultimately have m1: "mild M K s1" using mild_put_tenant [OF assms(1) i] g by (simp add: s1_def)
  have "i < length (shards s1)" using i by (simp add: s1_def put_tenant_def Let_def)
  with m1 have "mild_shard M K sh2" by (simp add: mild_def sh2_def mild_rings)
  from mild_update [OF m1 refl this, of i] have m2: "mild M K (s1\<lparr>shards := (shards s1)[i := sh2]\<rparr>)" by simp
  define s3 where "s3 = (if was_empty then activate_shard i (s1\<lparr>shards := (shards s1)[i := sh2]\<rparr>)
    else s1\<lparr>shards := (shards s1)[i := sh2]\<rparr>)"
  have "mild M K s3" using m2 by (simp add: s3_def mild_activate)
  moreover have "s' = s3 \<or> s' = s3\<lparr>shared := notify_all (shared s3)\<rparr>"
    using acc by (auto simp: enqueue_accept_def h s3_def sh2_def s1_def ts2_def activate_def Let_def split: if_splits)
  ultimately show ?thesis by (auto simp: mild_signal)
qed

lemma mild_try_reject:
  assumes "mild M K s" and "shard_index s t < length (shards s)" and "mild_config K C" and "int K \<le> i64_max"
    and "unat (cost task) \<le> M" and call: "enqueue_try_reject C clk t task s = (r, s')"
  shows "mild M K s'"
proof (cases "is_accepting_enqueues (shared s)")
  case False
  with call assms(1) show ?thesis by (simp add: enqueue_try_reject_def)
next
  case True
  let ?i = "shard_index s t"
  let ?ts0 = "tenant_entry C t (shards s ! ?i) (shared s)"
  obtain pr ts1 g1 where 1: "maybe_purge_tenant_before_enqueue C clk ?ts0 (shared s) = (pr, ts1, g1)" by (metis prod_cases3)
  obtain full ts2 g2 where 2: "(if unat (max_per_tenant C) \<le> total_len ts1 \<and> pr \<noteq> Some FullPurge
      then let (_, ts', g') = purge_tenant_for_enqueue clk FullPurge ts1 g1 in (True, ts', g')
      else (pr = Some FullPurge, ts1, g1)) = (full, ts2, g2)" by (metis prod_cases3)
  obtain res ts3 g3 where 3: "reserve_or_purge C clk full ts2 g2 = (res, ts3, g3)" by (metis prod_cases3)
  have g12: "gentle ts1 g1 ts2 g2"
    using 2 purge_for_enqueue_gentle [of clk FullPurge ts1 g1] by (auto split: if_splits prod.splits)
  have a: "gentle ?ts0 (shared s) ts2 g2" by (rule gentle_trans [OF maybe_purge_gentle [OF 1] g12])
  have b: "gentle ?ts0 (shared s) ts3 g3" by (rule gentle_trans [OF a reserve_or_purge_gentle [OF 3]])
  note m0 = mild_shard_entry [OF assms(1,2,3,4), of t]
  have ra: "rates g2 = rates (shared s)" "rates g3 = rates (shared s)" using a b by (simp_all add: gentle_def)
  note ms = gentle_mild [OF a m0] gentle_mild [OF b m0]
  note put = mild_put_tenant [OF assms(1,2) ra(1) ms(1)] mild_put_tenant [OF assms(1,2) ra(2) ms(2)]
  note acc = mild_accept [OF assms(1,2) ra(2) ms(2) assms(5)]
  from call True 1 2 3 show ?thesis
    by (auto simp: enqueue_try_reject_def Let_def put split: if_splits prod.splits dest: acc)
qed

lemma mild_drop:
  assumes "mild M K s" and "shard_index s t < length (shards s)" and "mild_config K C" and "int K \<le> i64_max"
    and "unat (cost task) \<le> M" and call: "enqueue_drop_with_handle C clk strategy t task s = (r, s')"
  shows "mild M K s'"
proof (cases "is_accepting_enqueues (shared s)")
  case False
  with call assms(1) show ?thesis by (simp add: enqueue_drop_with_handle_def)
next
  case True
  let ?i = "shard_index s t"
  let ?ts0 = "tenant_entry C t (shards s ! ?i) (shared s)"
  obtain pr ts1 g1 where 1: "maybe_purge_tenant_before_enqueue C clk ?ts0 (shared s) = (pr, ts1, g1)" by (metis prod_cases3)
  note p1 = maybe_purge_gentle [OF 1]
  have put: "mild M K (put_tenant ?i t ts g s)" if "gentle ?ts0 (shared s) ts g" for ts g
    using that mild_put_tenant [OF assms(1,2) _ gentle_mild [OF that mild_shard_entry [OF assms(1,2,3,4)]]]
    by (simp add: gentle_def)
  have acc: "mild M K s2" if "gentle ?ts0 (shared s) ts g" "enqueue_accept ?i t task was_empty ts g s = (h, s2)" for ts g was_empty h s2
    using that(1) mild_accept [OF assms(1,2) _ gentle_mild [OF that(1) mild_shard_entry [OF assms(1,2,3,4)]] assms(5) that(2)]
    by (simp add: gentle_def)
  have rej: "mild M K (put_tenant ?i t ts (record_reject x g) s)" if "gentle ?ts0 (shared s) ts g" for ts g x
    using that by (intro put) (simp add: gentle_def)
  have res: "gentle ?ts0 (shared s) ts3 g4"
    if "gentle ?ts0 (shared s) ts g" "reserve_or_purge C clk full ts g = (b, ts3, g4)" for ts g full b ts3 g4
    by (rule gentle_trans [OF that(1) reserve_or_purge_gentle [OF that(2)]])
  let ?full = "unat (max_per_tenant C) \<le> total_len ts1 \<or> unat (max_global C) \<le> queue_len_estimate (stats g1)"
  show ?thesis
  proof (cases "if ?full then drop_from_tenant strategy (prio task) ts1 else None")
    case None
    with call True 1 show ?thesis
      by (auto simp: enqueue_drop_with_handle_def Let_def rej [OF p1] simp del: record_reject.simps
          split: if_splits prod.splits dest!: res [OF p1] intro: rej acc)
  next
    case (Some x)
    obtain victim ts2 where x: "x = (victim, ts2)" by fastforce
    from Some x have "gentle ts1 g1 ts2 g1"
      by (auto simp: drop_from_tenant_def split: if_splits intro: drop_first_gentle)
    from gentle_trans [OF p1 this] have v: "gentle ?ts0 (shared s) ts2 g1" .
    obtain wp g3 where w: "take_pending (entry_id victim) (clear_cancelled_marker (entry_id victim) g1) = (wp, g3)" by fastforce
    from take_pending_rates [OF w] v have ge: "gentle ?ts0 (shared s) ts2 g3" by (simp add: gentle_def)
    moreover from ge have "gentle ?ts0 (shared s) ts2 (record_policy_drop g3)" by (simp add: gentle_def)
    ultimately show ?thesis using call True 1 Some x w
      by (auto simp: enqueue_drop_with_handle_def Let_def simp del: record_reject.simps
          split: if_splits prod.splits dest!: res [OF ge] intro: rej acc)
  qed
qed

text \<open>A visit: the quantum is added only to credit below the cost of a task.\<close>

lemma expire_front_gentle: "expire_front now q g n = (q', g', n') \<Longrightarrow> set q' \<subseteq> set q \<and> rates g' = rates g"
proof (induction q arbitrary: g n)
  case (Cons e q)
  obtain m g1 where m: "take_cancelled_marker (entry_id e) g = (m, g1)" by fastforce
  obtain b g2 where b: "take_pending (entry_id e) g1 = (b, g2)" by fastforce
  note r = take_marker_rates [OF m] take_pending_rates [OF b]
  show ?case
  proof (cases "m \<or> is_expired (deadline (entry_task e)) now")
    case True
    with Cons.prems m b have "\<exists>h n1. rates h = rates g \<and> expire_front now q h n1 = (q', g', n')"
      by (cases m; cases b) (use r in \<open>auto intro: exI [of _ "release_reserved_slots (Suc 0) g2"]\<close>)
    with Cons.IH show ?thesis by (metis set_subset_Cons subset_trans)
  next
    case False
    with Cons.prems m r show ?thesis by auto
  qed
qed simp

lemma task_cost_bounds: "0 \<le> task_cost task" "unat (cost task) \<le> M \<Longrightarrow> task_cost task \<le> int M"
proof -
  show "0 \<le> task_cost task" by (simp add: task_cost_def Let_def)
  assume "unat (cost task) \<le> M"
  then have "int (unat (cost task)) \<le> int M" by (simp only: of_nat_le_iff)
  then show "task_cost task \<le> int M" by (simp add: task_cost_def Let_def)
qed

lemma mild_visit:
  assumes "mild_shard M K sh" and "int M + int K \<le> i64_max" and v: "visit clk p sh g = (v', sh', g')"
  shows "mild_shard M K sh' \<and> rates g' = rates g"
proof -
  obtain x r where pop: "ring_pop_front (active_rings sh p) = (x, r)" by fastforce
  have put: "mild_shard M K (put_ring p r1 (put_state t ts sh))" if "mild_state M K ts" for t ts r1
    using assms(1) that by (simp add: mild_shard_def put_ring_def put_state_def)
  show ?thesis
  proof (cases "\<exists>t ts. x = Some t \<and> tenants sh t = Some ts")
    case False
    with v pop assms(1) show ?thesis
      by (auto simp: visit_def mild_shard_def put_ring_def split: option.splits)
  next
    case True
    then obtain t ts where t: "x = Some t" "tenants sh t = Some ts" by blast
    with assms(1) have ts: "mild_state M K ts" by (simp add: mild_shard_def)
    then have dp: "0 \<le> deficits ts p" by (simp add: mild_state_def)
    obtain now g1 where c: "read_clock clk g = (now, g1)" by fastforce
    obtain q g2 n where e: "expire_front now (queues ts p) g1 0 = (q, g2, n)" by (metis prod_cases3)
    define g3 where "g3 = (if 0 < n then notify_all (count_up expired_update n g2) else g2)"
    from expire_front_gentle [OF e] clock_rates [OF c] have q: "set q \<subseteq> set (queues ts p)" and g3: "rates g3 = rates g"
      by (auto simp: g3_def)
    have keep: "mild_state M K ts1"
      if same: "quantum ts1 = quantum ts" "set (queues ts1 p) \<subseteq> set (queues ts p)" "0 \<le> deficits ts1 p"
        "\<And>u. u \<noteq> p \<Longrightarrow> queues ts1 u = queues ts u \<and> deficits ts1 u = deficits ts u" for ts1
      unfolding mild_state_def
    proof (intro conjI allI ballI)
      show "0 \<le> deficits ts1 u" for u using same ts by (cases "u = p") (auto simp: mild_state_def)
      show "unat (cost (entry_task e)) \<le> M" if e: "e \<in> set (queues ts1 u)" for u e
      proof (cases "u = p")
        case True
        with e \<open>set (queues ts1 p) \<subseteq> set (queues ts p)\<close> ts show ?thesis unfolding mild_state_def by blast
      next
        case False
        with e same(4) ts show ?thesis by (auto simp: mild_state_def)
      qed
    qed (use same ts in \<open>simp_all add: mild_state_def\<close>)
    show ?thesis
    proof (cases q)
      case Nil
      with v pop t c e g3 show ?thesis
        by (auto simp: visit_def Let_def dp simp flip: g3_def intro!: put keep)
    next
      case (Cons en rest)
      with q have sub: "set rest \<subseteq> set (queues ts p)" "set (en # rest) \<subseteq> set (queues ts p)" and "en \<in> set (queues ts p)" by auto
      with ts have "unat (cost (entry_task en)) \<le> M" and dq: "0 \<le> deficits ts p" "1 \<le> quantum ts" "quantum ts \<le> int K"
        by (auto simp: mild_state_def)
      note tc = task_cost_bounds(1) [of "entry_task en"] task_cost_bounds(2) [OF this(1)]
      obtain m g4 where m: "take_cancelled_marker (entry_id en) g3 = (m, g4)" by fastforce
      obtain b g5 where b: "take_pending (entry_id en) g4 = (b, g5)" by fastforce
      note r = take_marker_rates [OF m] take_pending_rates [OF b]
      have wrap: "wrap_i64 (deficits ts p + quantum ts) = deficits ts p + quantum ts"
        if "deficits ts p < task_cost (entry_task en)"
        using that dq tc assms(2) by (intro wrap_i64_id) auto
      show ?thesis
      proof (cases "deficits ts p < task_cost (entry_task en)")
        case True
        with v pop t c e g3 Cons wrap dq sub(2) show ?thesis
          by (auto simp: visit_def Let_def simp flip: g3_def intro!: put keep)
      next
        case False
        with v pop t c e g3 Cons m b r dp sub(1) show ?thesis
          by (auto simp: visit_def Let_def simp flip: g3_def split: if_splits intro!: put keep)
      qed
    qed
  qed
qed

lemma mild_visit_ring:
  assumes "mild_shard M K sh" and "int M + int K \<le> i64_max" and "visit_ring n clk p sh g = (r, sh', g')"
  shows "mild_shard M K sh' \<and> rates g' = rates g"
  using assms
proof (induction n arbitrary: sh g)
  case (Suc n)
  obtain v sh1 g1 where v: "visit clk p sh g = (v, sh1, g1)" by (metis prod_cases3)
  from mild_visit [OF Suc.prems(1,2) v] Suc.prems(3) v show ?case
    using Suc.IH [OF _ Suc.prems(2), of sh1 g1] by (auto split: visit.splits)
qed simp

lemma mild_visit_priorities:
  assumes "mild_shard M K sh" and "int M + int K \<le> i64_max" and "visit_priorities ps clk sh g = (r, sh', g')"
  shows "mild_shard M K sh' \<and> rates g' = rates g"
  using assms
proof (induction ps arbitrary: sh g)
  case (Cons p ps)
  obtain f sh1 g1 where v: "visit_ring (ring_len (active_rings sh p)) clk p sh g = (f, sh1, g1)" by (metis prod_cases3)
  from mild_visit_ring [OF Cons.prems(1,2) v] Cons.prems v show ?case
    using Cons.IH [OF _ Cons.prems(2), of sh1 g1] Cons.IH [OF Cons.prems(1,2), of g]
    by (auto split: if_splits option.splits)
qed simp

lemma mild_serve_shard:
  assumes "mild M K s" and "int M + int K \<le> i64_max" and "i < length (shards s)" and "serve_shard clk i s = (f, s')"
  shows "mild M K s'"
proof -
  obtain r sh g where d: "visit_priorities ordered clk (shards s ! i) (shared s) = (r, sh, g)" by (metis prod_cases3)
  have "mild_shard M K (shards s ! i)" using assms(1,3) by (simp add: mild_def)
  from mild_visit_priorities [OF this assms(2) d] have "mild M K (s\<lparr>shared := g, shards := (shards s)[i := sh]\<rparr>)"
    by (intro mild_update [OF assms(1)]) simp_all
  with assms(4) d show ?thesis
    by (auto simp: serve_shard_def try_dequeue_from_shard_def Let_def mild_def split: if_splits)
qed

lemma mild_serve_shards:
  assumes "sched_ok C s" and "mild M K s" and "int M + int K \<le> i64_max" and "serve_shards n clk s = (f, s')"
  shows "mild M K s'"
  using assms
proof (induction n arbitrary: s)
  case (Suc n)
  obtain x r where pop: "ring_pop_front (active_shards s) = (x, r)" by fastforce
  show ?case
  proof (cases x)
    case None
    with Suc.prems(2,4) pop show ?thesis by (auto simp: mild_def)
  next
    case (Some i)
    obtain f1 s1 where sv: "serve_shard clk i (s\<lparr>active_shards := r\<rparr>) = (f1, s1)" by fastforce
    from Suc.prems(1) have "active_inv s" by (simp add: sched_ok_def)
    then have ri: "ring_inv (active_shards s)" and act: "\<And>j. j \<in> set (ring_items (active_shards s)) \<Longrightarrow> j < length (shards s)"
      by (auto simp: active_inv_def)
    have "ring_items (active_shards s) \<noteq> []" using ring.pop_Nil [OF ri] pop Some by auto
    then obtain j js where items: "ring_items (active_shards s) = j # js" by (cases "ring_items (active_shards s)") auto
    with ring.pop_Cons [OF ri items] pop Some act have i: "i < length (shards s)" by auto
    from serve_shard_sound [OF Suc.prems(1) pop [unfolded Some] sv] have "sched_ok C s1" by blast
    moreover have "mild M K s1"
      by (rule mild_serve_shard [OF _ Suc.prems(3) _ sv]) (use i Suc.prems(2) in \<open>simp_all add: mild_def\<close>)
    ultimately show ?thesis using Suc.IH [of s1] Suc.prems(3,4) pop Some sv by (auto split: option.splits)
  qed
qed simp

lemma mild_try_dequeue:
  assumes "sched_ok C s" and "mild M K s" and "int M + int K \<le> i64_max" and "try_dequeue clk s = (r, s')"
  shows "mild M K s'"
  using assms(4) mild_serve_shards [OF assms(1-3), of "ring_len (active_shards s)" clk] assms(2)
  by (auto simp: try_dequeue_def split: if_splits prod.splits option.splits)

lemma mild_refresh:
  assumes "mild M K s" and "mild_config K C" and "int K \<le> i64_max" and "shard_index s t < length (shards s)"
  shows "mild M K (refresh_tenant_quantum C t s)"
proof (cases "tenants (shards s ! shard_index s t) t")
  case None
  with assms(1) show ?thesis by (simp add: refresh_tenant_quantum_def Let_def)
next
  case (Some ts)
  have sh: "mild_shard M K (shards s ! shard_index s t)" and ra: "mild_rates K (rates (shared s))"
    using assms(1,4) by (simp_all add: mild_def)
  from sh Some have "mild_state M K ts" by (simp add: mild_shard_def)
  with quantum_for_mild [OF assms(2) ra assms(3), of t]
  have "mild_state M K (ts\<lparr>quantum := as_i64 (quantum_for C t (shared s))\<rparr>)" by (simp add: mild_state_def)
  with sh have "mild_shard M K ((shards s ! shard_index s t)\<lparr>tenants :=
      (tenants (shards s ! shard_index s t))(t \<mapsto> ts\<lparr>quantum := as_i64 (quantum_for C t (shared s))\<rparr>)\<rparr>)"
    by (simp add: mild_shard_def)
  from mild_update [OF assms(1) refl this, of "shard_index s t"] Some show ?thesis
    by (simp add: refresh_tenant_quantum_def Let_def)
qed

lemma mild_exec:
  assumes ok: "sched_ok C s" and m: "mild M K s" and e: "mild_op M K e" and C: "mild_config K C"
    and b: "int M + int K \<le> i64_max" and call: "exec C clk e s = (out, s')"
  shows "mild M K s'"
proof -
  from ok have ix: "shard_index s t < length (shards s)" for t by (simp add: sched_ok_def shard_index_less)
  from b have k: "int K \<le> i64_max" by simp
  have K: "1 \<le> K" using C by (simp add: mild_config_def)
  have rs: "mild M K (s\<lparr>shared := g\<rparr>)" if "mild_rates K (rates g)" for g using m that by (simp add: mild_def)
  have ra: "mild_rates K (rates (shared s))" using m by (simp add: mild_def)
  have mr: "rates g = rates (shared s) \<Longrightarrow> mild M K (s\<lparr>shared := g\<rparr>)" for g using rs ra by simp
  note rej = mild_try_reject [OF m ix C k] and dro = mild_drop [OF m ix C k]
  show ?thesis
  proof (cases e)
    case (EnqueueNow t task)
    have "mild M K s1" if "enqueue_reject_with_handle C clk t task s = (r, s1)" for r s1
    proof -
      obtain x s2 where x: "enqueue_try_reject C clk t task s = (x, s2)" by fastforce
      from rej [OF _ x] EnqueueNow e have "mild M K s2" by simp
      then have "mild M K (s2\<lparr>shared := record_reject q (shared s2)\<rparr>)" for q by (simp add: mild_def)
      with \<open>mild M K s2\<close> that x show ?thesis
        by (auto simp: enqueue_reject_with_handle_def simp del: record_reject.simps split: enqueue_attempt.splits)
    qed
    with EnqueueNow call e m dro show ?thesis
      by (fastforce simp: enqueue_now_def split: backpressure_policy.splits option.splits prod.splits)
  next
    case (Attempt t task)
    with call e rej show ?thesis by (auto split: prod.splits)
  next
    case Dequeue
    with call mild_try_dequeue [OF ok m b] show ?thesis by (auto split: prod.splits)
  next
    case (Cancel h)
    with call m show ?thesis
      by (auto simp: cancel_def Let_def split: prod.splits if_splits dest: take_pending_rates intro!: mr)
  next
    case (Close md)
    with call mr show ?thesis by (auto simp: close_with_mode_def)
  next
    case (SetQuantum t q)
    let ?g = "(shared s)\<lparr>tenant_quantum := (tenant_quantum (shared s))(t \<mapsto> max q 1)\<rparr>"
    have "mild M K (s\<lparr>shared := ?g\<rparr>)" using ra e SetQuantum K
      by (intro rs) (auto simp: rates_def mild_rates_def unat_max_1)
    from mild_refresh [OF this C k, of t] ix SetQuantum call show ?thesis
      by (auto simp: set_tenant_quantum_def Let_def shard_index_def)
  next
    case (ClearQuantum t)
    let ?g = "(shared s)\<lparr>tenant_quantum := (tenant_quantum (shared s))(t := None)\<rparr>"
    have "mild M K (s\<lparr>shared := ?g\<rparr>)" using ra by (intro rs) (auto simp: rates_def mild_rates_def)
    from mild_refresh [OF this C k, of t] ix ClearQuantum call show ?thesis
      by (auto simp: clear_tenant_quantum_def Let_def shard_index_def)
  next
    case (SetProvider f)
    let ?g = "(shared s)\<lparr>quantum_provider := f\<rparr>"
    have ra': "mild_rates K (rates ?g)" using ra e SetProvider by (auto simp: rates_def mild_rates_def)
    note q = quantum_for_mild [OF C ra' k]
    have "\<forall>sh \<in> set (shards s). mild_shard M K sh" using m by (simp add: mild_def)
    with ra' q SetProvider call show ?thesis
      by (auto simp: set_quantum_provider_def Let_def mild_def mild_shard_def mild_state_def)
  qed (use call mr in \<open>auto simp del: record_reject.simps\<close>)
qed

lemma run_mild:
  assumes "length es \<le> u64_max" and "\<forall>e \<in> set es. mild_op M K e" and C: "mild_config K C"
    and b: "int M + int K \<le> i64_max" and "run C clk es = (os, s)"
  shows "mild M K s"
  using assms(1,2,5)
proof (induction es arbitrary: os s rule: rev_induct)
  case Nil
  then show ?case using C
    by (auto simp: run_def scheduler_new_def Let_def mild_def mild_shard_def shard_new_def rates_def mild_config_def)
next
  case (snoc e es)
  obtain os1 s1 where r: "run C clk es = (os1, s1)" by fastforce
  obtain out s2 where x: "exec C clk e s1 = (out, s2)" by fastforce
  have "s = s2" using snoc.prems(3) r x by (simp add: run_def run_step_def)
  moreover have "mild M K s1" using snoc r by simp
  moreover have "sched_ok C s1" using run_inv_run(1) [OF _ r] snoc.prems(1) by simp
  ultimately show ?case using mild_exec [OF _ _ _ C b x] snoc.prems(2) by simp
qed

subsection \<open>Dequeues in a row\<close>

text \<open>A consumer that calls \<open>try_dequeue\<close> until the answer is not \<open>Empty\<close>, at most \<open>n\<close> times.\<close>

fun polls :: "nat \<Rightarrow> clock \<Rightarrow> 'a sched \<Rightarrow> 'a dequeue_result \<times> 'a sched" where
  "polls 0 clk s = (Empty, s)"
| "polls (Suc n) clk s =
    (case try_dequeue clk s of (Empty, s1) \<Rightarrow> polls n clk s1 | (r, s1) \<Rightarrow> (r, s1))"

lemma mild_paced:
  assumes "mild M K s" and "int M + int K \<le> i64_max"
  shows "paced s"
proof -
  have "paced_state ts" if "mild_state M K ts" for ts :: "'a tenant_state"
  proof -
    have "task_cost (entry_task e) + quantum ts \<le> i64_max" if "e \<in> set (queues ts p)" for e p
    proof -
      from that \<open>mild_state M K ts\<close> have "unat (cost (entry_task e)) \<le> M" "quantum ts \<le> int K" by (auto simp: mild_state_def)
      with task_cost_bounds(2) [OF this(1)] assms(2) show ?thesis by simp
    qed
    with that show ?thesis by (auto simp: paced_state_def mild_state_def)
  qed
  with mild_nth [OF assms(1)] show ?thesis by (auto simp: paced_def paced_shard_def)
qed

text \<open>
  The task of an entry is not expired at any clock reading between two states. A dequeue that
  answers without a task leaves a pending task alone that does not expire under it.
\<close>

definition unexpired :: "clock \<Rightarrow> shared \<Rightarrow> shared \<Rightarrow> 'a queue_entry \<Rightarrow> bool" where
  "unexpired clk g g' e \<longleftrightarrow> (\<forall>k. ticks g \<le> k \<and> k < ticks g' \<longrightarrow> \<not> is_expired (deadline (entry_task e)) (clk k))"

lemma unexpired_no_deadline: "deadline (entry_task e) = None \<Longrightarrow> unexpired clk g g' e"
  by (simp add: unexpired_def is_expired_def)

lemma fruitless_keeps:
  assumes ok: "sched_ok C s" and bk: "books C 0 a d c (shared s)" and call: "try_dequeue clk s = (r, s')"
    and none: "dequeued_of r = None" and e: "e \<in> set (sched_queue s t p)" "entry_id e \<in> pending_ids (shared s)"
    and dl: "unexpired clk (shared s) (shared s') e" and open_: "shutdown_state (shared s) \<noteq> 2"
  shows "r = Empty" and "e \<in> set (sched_queue s' t p)" and "entry_id e \<in> pending_ids (shared s')"
    and "shutdown_state (shared s') \<noteq> 2" and "books C 0 a d c (shared s')"
proof -
  from try_dequeue_sound [OF ok call] obtain R
    where tk: "takes clk R None (sched_queue s) (shared s) (sched_queue s') (shared s')" by (auto simp: none)
  from ok have "ledger s" by (simp add: sched_ok_def)
  with e have nc: "entry_id e \<notin> cancelled_ids (shared s)" unfolding ledger_def by blast
  have "entry_id e \<notin> R"
  proof
    assume "entry_id e \<in> R"
    with takesD(6) [OF tk refl] e(1) have "gone clk (shared s) (shared s') e" unfolding all_gone_def by blast
    with nc dl show False by (auto simp: gone_def unexpired_def)
  qed
  then show q: "e \<in> set (sched_queue s' t p)" using takesD(1) [OF tk, of t p] e(1) by simp
  have ta: "tally 0 0 R (shared s) (shared s')" using takesD(4) [OF tk] by simp
  with e(2) \<open>entry_id e \<notin> R\<close> show pe: "entry_id e \<in> pending_ids (shared s')" by (simp add: tally_def)
  from ta open_ show "shutdown_state (shared s') \<noteq> 2" by (simp add: tally_def same_frame_def)
  have bk': "books C 0 a d c (shared s')" using try_dequeue_books [OF ok bk call] none by (cases r) (simp_all add: dequeued_of_def)
  then show "books C 0 a d c (shared s')" .
  then have "0 < slots (shared s')" using pe by (auto simp: books_def card_gt_0_iff)
  then show "r = Empty"
    using call none open_ \<open>shutdown_state (shared s') \<noteq> 2\<close>
    by (cases r) (auto simp: try_dequeue_def dequeued_of_def should_return_closed_def split: if_splits prod.splits option.splits)
qed

lemma polls_ticks: "sched_ok C s \<Longrightarrow> ticks (shared s) \<le> ticks (shared (snd (polls n clk s)))"
proof (induction n arbitrary: s)
  case (Suc n)
  obtain r s1 where call: "try_dequeue clk s = (r, s1)" by fastforce
  note td = try_dequeue_sound [OF Suc.prems call]
  then have "ticks (shared s) \<le> ticks (shared s1)" using takesD(5) by blast
  with Suc.IH [of s1] td call show ?case by (cases r) auto
qed simp

lemma polls_deliver:
  assumes "sched_ok C s" and "books C 0 a d c (shared s)" and "mild M K s" and b: "int M + int K \<le> i64_max"
    and "e \<in> set (sched_queue s t p)" "entry_id e \<in> pending_ids (shared s)"
    and "unexpired clk (shared s) (shared (snd (polls n clk s))) e"
    and "shutdown_state (shared s) \<noteq> 2" and "tenants (home s t) t = Some ts"
    and "int M + quantum ts \<le> deficits ts p + int n * quantum ts" and "0 < n"
  shows "\<exists>u task s'. polls n clk s = (DequeuedTask u task, s')"
  using assms(1-3,5-)
proof (induction n arbitrary: s ts)
  case (Suc n)
  obtain r s1 where call: "try_dequeue clk s = (r, s1)" by fastforce
  show ?case
  proof (cases "dequeued_of r")
    case (Some x)
    with call show ?thesis by (cases r) (auto simp: dequeued_of_def)
  next
    case None
    from try_dequeue_sound [OF Suc.prems(1) call] have ok1: "sched_ok C s1" and le: "ticks (shared s) \<le> ticks (shared s1)"
      using takesD(5) by blast+
    let ?last = "snd (polls (Suc n) clk s)"
    have last: "?last = (if r = Empty then snd (polls n clk s1) else s1)" using call by (cases r) simp_all
    with polls_ticks [OF ok1] have "ticks (shared s1) \<le> ticks (shared ?last)" by simp
    with Suc.prems(6) have dl: "unexpired clk (shared s) (shared s1) e" unfolding unexpired_def by (meson order_less_le_trans)
    note kept = fruitless_keeps [OF Suc.prems(1,2) call None Suc.prems(4,5) dl Suc.prems(7)]
    from Suc.prems(6) last kept(1) le have dl1: "unexpired clk (shared s1) (shared (snd (polls n clk s1))) e"
      unfolding unexpired_def by (metis order_trans)
    have m1: "mild M K s1" by (rule mild_try_dequeue [OF Suc.prems(1,3) b call])
    note paced = mild_paced [OF Suc.prems(3) b] mild_paced [OF m1 b]
    from try_dequeue_covers [OF Suc.prems(1) call None Suc.prems(7)] paced(1)
    have gr: "sched_queue s1 t p \<noteq> [] \<longrightarrow> grown 1 (home s t) (home s1 t) t p" and ti: "tight (home s1 t) t p"
      by (simp_all add: sched_covers_def)
    from gr kept(2) Suc.prems(8) obtain ts1 where ts1: "tenants (home s1 t) t = Some ts1" "quantum ts1 = quantum ts"
      "deficits ts p + quantum ts \<le> deficits ts1 p" unfolding grown_def by force
    have q1: "sched_queue s1 t p = queues ts1 p" using ts1(1) by (simp add: sched_queue_def squeue_def home_def)
    with kept(2) obtain e' q where c: "queues ts1 p = e' # q" by (cases "queues ts1 p") auto
    with ti ts1(1) have "deficits ts1 p < task_cost (entry_task e') + quantum ts1" unfolding tight_def by blast
    moreover from ok1 have "shard_index s1 t < length (shards s1)" by (simp add: sched_ok_def shard_index_less)
    with mild_nth [OF m1] ts1(1) have "mild_state M K ts1" by (simp add: home_def)
    with c have "unat (cost (entry_task e')) \<le> M" unfolding mild_state_def by (metis list.set_intros(1))
    then have "task_cost (entry_task e') \<le> int M" by (rule task_cost_bounds(2))
    ultimately have up: "deficits ts1 p < int M + quantum ts" using ts1(2) by simp
    show ?thesis
    proof (cases "n = 0")
      case True
      with up ts1(3) Suc.prems(9) show ?thesis by simp
    next
      case False
      have "int M + quantum ts1 \<le> deficits ts1 p + int n * quantum ts1"
        using ts1(2,3) Suc.prems(9) by (simp add: distrib_right)
      from Suc.IH [OF ok1 kept(5) m1 kept(2,3) dl1 kept(4) ts1(1) this] False call kept(1) show ?thesis by simp
    qed
  qed
qed simp

text \<open>
  C19: Deficit round robin makes progress: while a task without deadline is pending, a
  consumer that keeps calling \<open>try_dequeue\<close> gets a task before it has made \<open>n\<close> calls, where
  \<open>n\<close> quanta of that tenant cover the largest cost and one quantum more. This holds in any
  state a run can reach with costs up to \<open>M\<close> and quanta up to \<open>K\<close> that do not exhaust \<open>i64\<close>.
\<close>

theorem drr_progress:
  assumes "length es \<le> u64_max" and "\<forall>x \<in> set es. mild_op M K x" and "mild_config K C"
    and "int M + int K \<le> i64_max" and "run C clk es = (os, s)"
    and "e \<in> set (sched_queue s t p)" and "entry_id e \<in> pending_ids (shared s)" and "deadline (entry_task e) = None"
    and "shutdown_state (shared s) \<noteq> 2" and "tenants (home s t) t = Some ts"
    and "int M + quantum ts \<le> int n * quantum ts"
  shows "\<exists>u task s'. polls n clk s = (DequeuedTask u task, s')"
proof -
  note i = run_inv_run [OF assms(1,5)]
  note m = run_mild [OF assms(1,2,3,4,5)]
  from i(1) have "shard_index s t < length (shards s)" by (simp add: sched_ok_def shard_index_less)
  with mild_nth [OF m] assms(10) have ts: "mild_state M K ts" by (simp add: home_def)
  then have d: "0 \<le> deficits ts p" "1 \<le> quantum ts" by (simp_all add: mild_state_def)
  with assms(11) have "0 < n" by (cases n) simp_all
  with d assms(11) show ?thesis
    by (intro polls_deliver [OF i(1,3) m assms(4,6,7) unexpired_no_deadline [OF assms(8)] assms(9,10)]) simp_all
qed

theorem drr_progress_witness:
  "\<exists>s u task s'. demo_run [EnqueueNow tenant7 (demo_task 0)] = ([Accepted (TaskHandle 1)], s) \<and>
    polls 2 demo_clock s = (DequeuedTask u task, s')"
proof -
  obtain os s where r: "demo_run [EnqueueNow tenant7 (demo_task 0)] = (os, s)" by fastforce
  let ?e = "\<lparr>entry_id = 1, entry_task = demo_task 0\<rparr>"
  have os: "os = [Accepted (TaskHandle 1)]" using r by (auto simp: eval)
  have 1: "\<forall>x \<in> set [EnqueueNow tenant7 (demo_task 0)]. mild_op 1 10 x" by (simp add: demo_task_def)
  have 2: "mild_config 10 demo_config" by (simp add: mild_config_def mild_rates_def demo_config_def default_config_def)
  have 3: "?e \<in> set (sched_queue s tenant7 Normal)" using r by (auto simp: eval sched_queue_def squeue_def)
  have 4: "entry_id ?e \<in> pending_ids (shared s)" "shutdown_state (shared s) \<noteq> 2" using r by (auto simp: eval)
  have 5: "deadline (entry_task ?e) = None" by (simp add: demo_task_def)
  obtain ts where 6: "tenants (home s tenant7) tenant7 = Some ts" "quantum ts = 10"
    using r by (auto simp: eval home_def)
  from drr_progress [OF _ 1 2 _ r 3 4(1) 5 4(2) 6(1), of 2] 6(2) r os show ?thesis by auto
qed

end
