(* ===== verification/Slot_CAS.thy ===== *)
theory Slot_CAS
  imports Shared_Ops
begin

text \<open>
  The compare-and-exchange loops of \<open>scheduler.rs\<close>, turn by turn: \<open>saturating_add\<close>,
  \<open>try_reserve_slot\<close>, \<open>release_reserved_slots\<close> and \<open>set_shutdown_mode\<close> read an atomic, compute
  the next value and try to exchange it, and start over when another thread was faster. Any
  number of threads are interleaved. Each loop has the effect that theory \<open>Shared_Ops\<close> gives
  to the operation in one step, at the moment of its last access to the atomic; and the loops
  are lock-free, also for threads that call them again and again.
\<close>

subsection \<open>The loops\<close>

datatype atomic_call =
    AddCounter nat
  | ReserveSlot
  | ReleaseSlots nat
  | SetShutdown close_mode

text \<open>
  The body between the read and the exchange: the value to write, or \<open>None\<close> for the branches
  that leave without writing, and what the method has found (\<open>true\<close> or \<open>false\<close> of
  \<open>try_reserve_slot\<close>, \<open>changed\<close> of \<open>set_shutdown_mode\<close>).
\<close>

fun loop_body :: "config \<Rightarrow> atomic_call \<Rightarrow> nat \<Rightarrow> nat option \<times> bool" where
  "loop_body C (AddCounter delta) current =
    (if delta = 0 then (None, True) else (Some (saturating_add current delta), True))"
| "loop_body C ReserveSlot current =
    (if unat (max_global C) \<le> current then (None, False) else (Some (current + 1), True))"
| "loop_body C (ReleaseSlots delta) current =
    (if delta = 0 then (None, True) else (Some (current - delta), True))"
| "loop_body C (SetShutdown mode) current =
    (let next = shutdown_next current (shutdown_target mode)
     in if next = current then (None, False) else (Some next, True))"

text \<open>After a failed exchange three loops go on with the value it returned; the last reads again.\<close>

fun reads_again :: "atomic_call \<Rightarrow> bool" where
  "reads_again (SetShutdown mode) = True"
| "reads_again call = False"

datatype loop_pc = Reading | Trying nat | Finished bool

text \<open>
  One access of a thread to the atomic, with the local computation up to the next: a load, or
  the exchange of the value it has read.
\<close>

definition after_read :: "config \<Rightarrow> atomic_call \<Rightarrow> nat \<Rightarrow> loop_pc" where
  "after_read C call current =
    (case loop_body C call current of (None, r) \<Rightarrow> Finished r | (Some new, r) \<Rightarrow> Trying current)"

fun cas_turn :: "config \<Rightarrow> atomic_call \<Rightarrow> loop_pc \<Rightarrow> nat \<Rightarrow> loop_pc \<times> nat" where
  "cas_turn C call Reading v = (after_read C call v, v)"
| "cas_turn C call (Trying current) v =
    (if v = current then
       (case loop_body C call current of
          (Some new, r) \<Rightarrow> (Finished r, new)
        | (None, r) \<Rightarrow> (Finished r, v))
     else if reads_again call then (Reading, v)
     else (after_read C call v, v))"
| "cas_turn C call (Finished r) v = (Finished r, v)"

text \<open>The threads with the points they are at, and the atomic.\<close>

type_synonym cas_state = "loop_pc list \<times> nat"

definition cas_step :: "config \<Rightarrow> atomic_call list \<Rightarrow> nat \<Rightarrow> cas_state \<Rightarrow> cas_state" where
  "cas_step C calls i = (\<lambda>(pcs, v).
    let (pc, v') = cas_turn C (calls ! i) (pcs ! i) v in (pcs[i := pc], v'))"

definition cas_run :: "config \<Rightarrow> atomic_call list \<Rightarrow> nat list \<Rightarrow> nat \<Rightarrow> cas_state" where
  "cas_run C calls sched_order v0 =
    fold (cas_step C calls) sched_order (replicate (length calls) Reading, v0)"

subsection \<open>One step each, in some order\<close>

text \<open>The operation as one step, and a sequence of such steps with their answers.\<close>

definition in_one_step :: "config \<Rightarrow> atomic_call \<Rightarrow> nat \<Rightarrow> nat \<times> bool" where
  "in_one_step C call v = (case loop_body C call v of (None, r) \<Rightarrow> (v, r) | (Some new, r) \<Rightarrow> (new, r))"

fun one_by_one :: "config \<Rightarrow> atomic_call list \<Rightarrow> nat list \<Rightarrow> nat \<Rightarrow> (nat \<times> bool) list \<times> nat" where
  "one_by_one C calls [] v = ([], v)"
| "one_by_one C calls (i # order) v =
    (let (v1, r) = in_one_step C (calls ! i) v; (answers, v2) = one_by_one C calls order v1
     in ((i, r) # answers, v2))"

lemma one_by_one_snoc:
  "one_by_one C calls (order @ [i]) v =
    (let (answers, v1) = one_by_one C calls order v; (v2, r) = in_one_step C (calls ! i) v1
     in (answers @ [(i, r)], v2))"
  by (induction order arbitrary: v) (auto simp: split: prod.splits)

text \<open>A turn is silent or is the whole operation.\<close>

lemma cas_turn_cases:
  assumes "cas_turn C call pc v = (pc', v')" and "pc = Trying current \<Longrightarrow> fst (loop_body C call current) \<noteq> None"
    and "\<And>r. pc \<noteq> Finished r"
  shows "(\<exists>r. pc' = Finished r \<and> in_one_step C call v = (v', r)) \<or>
    (v' = v \<and> (\<forall>r. pc' \<noteq> Finished r) \<and> (\<forall>c. pc' = Trying c \<longrightarrow> c = v \<and> fst (loop_body C call c) \<noteq> None))"
  using assms by (cases pc) (auto simp: after_read_def in_one_step_def split: prod.splits option.splits if_splits)

definition cas_inv :: "config \<Rightarrow> atomic_call list \<Rightarrow> nat \<Rightarrow> nat list \<Rightarrow> cas_state \<Rightarrow> bool" where
  "cas_inv C calls v0 order = (\<lambda>(pcs, v). length pcs = length calls \<and> distinct order \<and>
     (\<forall>i < length pcs. i \<in> set order \<longleftrightarrow> (\<exists>r. pcs ! i = Finished r)) \<and> set order \<subseteq> {..< length pcs} \<and>
     (\<forall>i < length pcs. \<forall>c. pcs ! i = Trying c \<longrightarrow> fst (loop_body C (calls ! i) c) \<noteq> None) \<and>
     snd (one_by_one C calls order v0) = v \<and>
     (\<forall>(i, r) \<in> set (fst (one_by_one C calls order v0)). pcs ! i = Finished r))"

lemma map_fst_one_by_one: "map fst (fst (one_by_one C calls order v)) = order"
  by (induction order arbitrary: v) (simp_all add: Let_def case_prod_unfold)

lemma cas_step_inv:
  assumes inv: "cas_inv C calls v0 order (pcs, v)" and i: "i < length calls"
  shows "\<exists>order'. cas_inv C calls v0 order' (cas_step C calls i (pcs, v))"
proof -
  obtain pc' v' where t: "cas_turn C (calls ! i) (pcs ! i) v = (pc', v')" by fastforce
  have step: "cas_step C calls i (pcs, v) = (pcs[i := pc'], v')" by (simp add: cas_step_def t)
  from inv i have il: "i < length pcs" by (simp add: cas_inv_def)
  show ?thesis
  proof (cases "\<exists>r. pcs ! i = Finished r")
    case True
    with t have "pc' = pcs ! i" "v' = v" by auto
    with inv show ?thesis by (auto simp: step)
  next
    case False
    with inv il have fresh: "i \<notin> set order" by (auto simp: cas_inv_def)
    have body: "pcs ! i = Trying c \<Longrightarrow> fst (loop_body C (calls ! i) c) \<noteq> None" for c
      using inv il unfolding cas_inv_def by auto
    obtain answers w where o: "one_by_one C calls order v0 = (answers, w)" by fastforce
    have answers: "\<forall>(j, r) \<in> set answers. pcs ! j = Finished r" and w: "w = v"
      using inv o by (auto simp: cas_inv_def)
    have "fst ` set answers = set order" using map_fst_one_by_one [of C calls order v0] o by (metis fst_conv set_map)
    with fresh have other: "(i, r) \<notin> set answers" for r by force
    from cas_turn_cases [OF t body] False
    consider r where "pc' = Finished r" "in_one_step C (calls ! i) v = (v', r)"
      | "v' = v" "\<forall>r. pc' \<noteq> Finished r" "\<forall>c. pc' = Trying c \<longrightarrow> fst (loop_body C (calls ! i) c) \<noteq> None"
      by blast
    then show ?thesis
    proof cases
      case 1
      with inv fresh il answers other o w have "cas_inv C calls v0 (order @ [i]) (pcs[i := pc'], v')"
        unfolding cas_inv_def by (auto simp: one_by_one_snoc nth_list_update split: prod.splits)
      then show ?thesis using step by metis
    next
      case 2
      with inv fresh il answers other o w have "cas_inv C calls v0 order (pcs[i := pc'], v')"
        unfolding cas_inv_def by (auto simp: nth_list_update)
      then show ?thesis using step by metis
    qed
  qed
qed

lemma cas_run_inv:
  assumes "set sched_order \<subseteq> {..< length calls}"
  shows "\<exists>order. cas_inv C calls v0 order (cas_run C calls sched_order v0)"
  using assms
proof (induction sched_order rule: rev_induct)
  case Nil
  show ?case by (intro exI [of _ "[]"]) (simp add: cas_inv_def cas_run_def)
next
  case (snoc i sched_order)
  obtain pcs v where r: "cas_run C calls sched_order v0 = (pcs, v)" by fastforce
  with snoc obtain order where "cas_inv C calls v0 order (pcs, v)" by auto
  from cas_step_inv [OF this, of i] snoc.prems r show ?case by (auto simp: cas_run_def)
qed

text \<open>
  C23: The compare-and-exchange loops are atomic: whatever the schedule of any number of
  threads, the atomic has the value it gets when the operations that have returned run one
  after the other, each in one step, in some order, and every one of them returned what it
  returns there.
\<close>

theorem cas_linearizable:
  assumes "set sched_order \<subseteq> {..< length calls}" and "cas_run C calls sched_order v0 = (pcs, v)"
  shows "\<exists>order answers. distinct order \<and> set order = {i. i < length calls \<and> (\<exists>r. pcs ! i = Finished r)} \<and>
    one_by_one C calls order v0 = (answers, v) \<and> (\<forall>(i, r) \<in> set answers. pcs ! i = Finished r)"
proof -
  from cas_run_inv [OF assms(1)] assms(2) obtain order where inv: "cas_inv C calls v0 order (pcs, v)" by metis
  obtain answers w where "one_by_one C calls order v0 = (answers, w)" by fastforce
  with inv show ?thesis unfolding cas_inv_def by (intro exI [of _ order] exI [of _ answers]) auto
qed

theorem cas_linearizable_witness:
  "\<exists>pcs order answers. cas_run (default_config\<lparr>max_global := 5\<rparr>) [ReserveSlot, ReserveSlot, ReleaseSlots 2] [0, 1, 2, 1, 0, 2, 0, 2] 4 =
      (pcs, 3) \<and> one_by_one (default_config\<lparr>max_global := 5\<rparr>) [ReserveSlot, ReserveSlot, ReleaseSlots 2] order 4 = (answers, 3)"
proof -
  let ?C = "default_config\<lparr>max_global := 5\<rparr>" and ?calls = "[ReserveSlot, ReserveSlot, ReleaseSlots 2]"
  have r: "cas_run ?C ?calls [0, 1, 2, 1, 0, 2, 0, 2] 4 = ([Finished False, Finished True, Finished True], 3)"
    by (simp add: cas_run_def cas_step_def after_read_def)
  have "set [0, 1, 2, 1, 0, 2, 0, 2] \<subseteq> {..< length ?calls}" by auto
  from cas_linearizable [OF this r] r show ?thesis by blast
qed

subsection \<open>Threads that call again and again\<close>

text \<open>
  \<open>program i k\<close> is the \<open>k\<close>-th call that thread \<open>i\<close> makes on the atomic. A thread is the number of
  its calls that have returned and the point it is at in the next one; the turn in which a
  call returns brings it to the start of the call after it.
\<close>

type_synonym caller_state = "(nat \<times> loop_pc) list \<times> nat"

definition caller_step :: "config \<Rightarrow> (nat \<Rightarrow> nat \<Rightarrow> atomic_call) \<Rightarrow> nat \<Rightarrow> caller_state \<Rightarrow> caller_state" where
  "caller_step C program i = (\<lambda>(ths, v).
    let (k, pc) = ths ! i; (pc', v') = cas_turn C (program i k) pc v
     in (ths[i := (case pc' of Finished r \<Rightarrow> (Suc k, Reading) | _ \<Rightarrow> (k, pc'))], v'))"

definition caller_run :: "config \<Rightarrow> (nat \<Rightarrow> nat \<Rightarrow> atomic_call) \<Rightarrow> nat list \<Rightarrow> caller_state \<Rightarrow> caller_state" where
  "caller_run C program sched_order = fold (caller_step C program) sched_order"

definition own_turns :: "nat \<Rightarrow> nat list \<Rightarrow> nat" where
  "own_turns i sched_order = length (filter (\<lambda>j. j = i) sched_order)"

definition calls_returned :: "(nat \<times> loop_pc) list \<Rightarrow> nat" where
  "calls_returned ths = (\<Sum>th \<leftarrow> ths. fst th)"

text \<open>
  A turn either returns, and only then may the atomic change, or brings the thread closer to
  returning. \<open>turns_left\<close> is the number of turns that do not return, as long as the atomic
  keeps its value.
\<close>

fun turns_left :: "nat \<Rightarrow> loop_pc \<Rightarrow> nat" where
  "turns_left v Reading = 1"
| "turns_left v (Trying c) = (if c = v then 0 else 2)"
| "turns_left v (Finished r) = 0"

lemma caller_turn:
  assumes "cas_turn C call pc v = (pc', v')" and "\<And>r. pc \<noteq> Finished r"
  shows "(\<exists>r. pc' = Finished r) \<or>
    v' = v \<and> turns_left v pc' < turns_left v pc \<and> (pc' = Trying v \<or> pc' = Reading \<and> (\<exists>c. pc = Trying c \<and> c \<noteq> v))"
  using assms by (cases pc) (auto simp: after_read_def split: option.splits prod.splits if_splits)

lemma sum_list_update_nat: "i < length xs \<Longrightarrow> sum_list (xs[i := y]) + xs ! i = sum_list xs + (y :: nat)"
  by (induction xs arbitrary: i) (auto split: nat.split)

text \<open>No thread of a run ever rests at \<open>Finished\<close>.\<close>

fun between_calls :: "loop_pc \<Rightarrow> bool" where
  "between_calls (Finished r) = True"
| "between_calls pc = False"

lemma between_calls: "between_calls pc \<longleftrightarrow> (\<exists>r. pc = Finished r)"
  by (cases pc) simp_all

definition calling :: "(nat \<times> loop_pc) list \<Rightarrow> bool" where
  "calling ths \<longleftrightarrow> list_all (\<lambda>th. \<not> between_calls (snd th)) ths"

lemma calling_at: "calling ths \<Longrightarrow> i < length ths \<Longrightarrow> snd (ths ! i) \<noteq> Finished r"
  unfolding calling_def list_all_length by (metis between_calls)

lemma calling_update: "calling ths \<Longrightarrow> \<not> between_calls (snd th) \<Longrightarrow> calling (ths[i := th])"
  unfolding calling_def list_all_length by (cases "i < length ths") (auto simp: nth_list_update)

lemma caller_step_cases:
  assumes "calling ths" and i: "i < length ths" and at: "ths ! i = (k, pc)"
    and step: "caller_step C program i (ths, v) = (ths', v')"
  shows "calling ths' \<and> length ths' = length ths \<and> (\<forall>j. j \<noteq> i \<longrightarrow> ths' ! j = ths ! j) \<and>
    (ths' ! i = (Suc k, Reading) \<and> calls_returned ths' = Suc (calls_returned ths) \<or>
     (\<exists>pc'. ths' ! i = (k, pc') \<and> calls_returned ths' = calls_returned ths \<and> v' = v \<and>
        turns_left v pc' < turns_left v pc \<and> (pc' = Trying v \<or> pc' = Reading \<and> (\<exists>c. pc = Trying c \<and> c \<noteq> v))))"
    and "ths' = ths[i := ths' ! i]"
proof -
  obtain pc' w where t: "cas_turn C (program i k) pc v = (pc', w)" by fastforce
  let ?th = "case pc' of Finished r \<Rightarrow> (Suc k, Reading) | _ \<Rightarrow> (k, pc')"
  have s: "ths' = ths[i := ?th]" "v' = w" using step at t by (simp_all add: caller_step_def)
  have "\<And>r. pc \<noteq> Finished r" using calling_at [OF assms(1) i] at by simp
  note turn = caller_turn [OF t this]
  have "calling ths'" unfolding s by (rule calling_update [OF assms(1)]) (cases pc'; simp)
  moreover have "calls_returned ths' + k = calls_returned ths + fst ?th"
    using sum_list_update_nat [of i "map fst ths" "fst ?th"] i at by (simp add: calls_returned_def s map_update)
  ultimately show "calling ths' \<and> length ths' = length ths \<and> (\<forall>j. j \<noteq> i \<longrightarrow> ths' ! j = ths ! j) \<and>
    (ths' ! i = (Suc k, Reading) \<and> calls_returned ths' = Suc (calls_returned ths) \<or>
     (\<exists>pc'. ths' ! i = (k, pc') \<and> calls_returned ths' = calls_returned ths \<and> v' = v \<and>
        turns_left v pc' < turns_left v pc \<and> (pc' = Trying v \<or> pc' = Reading \<and> (\<exists>c. pc = Trying c \<and> c \<noteq> v))))"
    using turn i by (cases pc') (auto simp: s)
  show "ths' = ths[i := ths' ! i]" using i by (simp add: s)
qed

lemma caller_run_snoc: "caller_run C program (order @ [j]) st = caller_step C program j (caller_run C program order st)"
  by (simp add: caller_run_def)

lemma caller_run_calling:
  assumes "calling ths" and "set order \<subseteq> {..< length ths}" and "caller_run C program order (ths, v) = (ths', v')"
  shows "calling ths' \<and> length ths' = length ths \<and> calls_returned ths \<le> calls_returned ths' \<and>
    (\<forall>i < length ths. fst (ths ! i) \<le> fst (ths' ! i))"
  using assms(2,3)
proof (induction order arbitrary: ths' v' rule: rev_induct)
  case Nil
  with assms(1) show ?case by (simp add: caller_run_def)
next
  case (snoc j order)
  obtain us u where r: "caller_run C program order (ths, v) = (us, u)" by fastforce
  with snoc have us: "calling us" "length us = length ths" "calls_returned ths \<le> calls_returned us"
    "\<forall>i < length ths. fst (ths ! i) \<le> fst (us ! i)" and j: "j < length us" by auto
  obtain k pc where at: "us ! j = (k, pc)" by fastforce
  from snoc.prems(2) r have "caller_step C program j (us, u) = (ths', v')" by (simp add: caller_run_snoc)
  note st = caller_step_cases(1) [OF us(1) j at this]
  have "fst (us ! i) \<le> fst (ths' ! i)" for i using st at by (cases "i = j") auto
  then have "\<forall>i < length ths. fst (ths ! i) \<le> fst (ths' ! i)" using us(4) by (meson order_trans)
  with st us(2,3) show ?case by auto
qed

text \<open>
  While a call runs, its accesses are paid for by the calls that have returned since it began:
  a failed exchange means that one has.
\<close>

definition call_inv :: "nat \<Rightarrow> nat \<Rightarrow> loop_pc \<Rightarrow> nat \<Rightarrow> bool" where
  "call_inv n m pc v = (case pc of
      Reading \<Rightarrow> n \<le> 2 * m
    | Trying c \<Rightarrow> n \<le> 2 * m + 1 \<and> (c \<noteq> v \<longrightarrow> n + 1 \<le> 2 * m)
    | Finished r \<Rightarrow> True)"

lemma call_run:
  assumes "calling ths" and "set order \<subseteq> {..< length ths}" and i: "i < length ths" "ths ! i = (k, Reading)"
    and "caller_run C program order (ths, v) = (ths', v')" and "fst (ths' ! i) = k"
  shows "call_inv (own_turns i order) (calls_returned ths' - calls_returned ths) (snd (ths' ! i)) v'"
  using assms(2,5,6)
proof (induction order arbitrary: ths' v' rule: rev_induct)
  case Nil
  with i show ?case by (simp add: caller_run_def call_inv_def own_turns_def)
next
  case (snoc j order)
  obtain us u where r: "caller_run C program order (ths, v) = (us, u)" by fastforce
  from snoc.prems(1) have order: "set order \<subseteq> {..< length ths}" "j < length ths" by auto
  note us = caller_run_calling [OF assms(1) order(1) r]
  from snoc.prems(2) r have step: "caller_step C program j (us, u) = (ths', v')" by (simp add: caller_run_snoc)
  obtain l pc where at: "us ! j = (l, pc)" by fastforce
  have j: "j < length us" using us order(2) by simp
  note st = caller_step_cases(1) [OF conjunct1 [OF us] j at step]
  have "fst (us ! i) \<le> fst (ths' ! i)"
    using st at by (cases "i = j") auto
  with us i snoc.prems(3) have "fst (us ! i) = k" by (metis fst_conv le_antisym)
  note IH = snoc.IH [OF order(1) r this]
  have il: "i < length us" using us i by simp
  show ?case
  proof (cases "j = i")
    case True
    with at \<open>fst (us ! i) = k\<close> have l: "l = k" "snd (us ! i) = pc" by simp_all
    have "ths' ! i \<noteq> (Suc l, Reading)" using snoc.prems(3) l(1) by (metis fst_conv n_not_Suc_n)
    with st True obtain pc' where "ths' ! i = (l, pc')" and p: "calls_returned ths' = calls_returned us" "v' = u"
      "turns_left u pc' < turns_left u pc" "pc' = Trying u \<or> pc' = Reading \<and> (\<exists>c. pc = Trying c \<and> c \<noteq> u)"
      by blast
    then have "snd (ths' ! i) = pc'" by simp
    note p = p this
    with IH l True show ?thesis
      by (cases pc) (auto simp: call_inv_def own_turns_def split: if_splits)
  next
    case False
    then have pc: "ths' ! i = us ! i" using st by metis
    have "calls_returned ths' = Suc (calls_returned us) \<or> calls_returned ths' = calls_returned us \<and> v' = u"
      using st by auto
    with IH us False show ?thesis unfolding pc
      by (cases "snd (us ! i)") (auto simp: call_inv_def own_turns_def Suc_diff_le)
  qed
qed

lemma turns_run:
  assumes "calling ths" and "set order \<subseteq> {..< length ths}"
    and "caller_run C program order (ths, v) = (ths', v')" and "calls_returned ths' = calls_returned ths"
  shows "v' = v \<and> length order + (\<Sum>th \<leftarrow> ths'. turns_left v (snd th)) \<le> (\<Sum>th \<leftarrow> ths. turns_left v (snd th))"
  using assms(2-4)
proof (induction order arbitrary: ths' v' rule: rev_induct)
  case Nil
  then show ?case by (simp add: caller_run_def)
next
  case (snoc j order)
  obtain us u where r: "caller_run C program order (ths, v) = (us, u)" by fastforce
  from snoc.prems(1) have order: "set order \<subseteq> {..< length ths}" "j < length ths" by auto
  note us = caller_run_calling [OF assms(1) order(1) r]
  from snoc.prems(2) r have step: "caller_step C program j (us, u) = (ths', v')" by (simp add: caller_run_snoc)
  obtain l pc where at: "us ! j = (l, pc)" by fastforce
  have j: "j < length us" using us order(2) by simp
  note st = caller_step_cases(1) [OF conjunct1 [OF us] j at step]
  with us snoc.prems(3) have same: "calls_returned us = calls_returned ths" by auto
  note IH = snoc.IH [OF order(1) r this]
  from st us snoc.prems(3) same IH obtain pc' where p: "ths' ! j = (l, pc')" "v' = v" "turns_left v pc' < turns_left v pc"
    by auto
  have upd: "ths' = us[j := (l, pc')]" using caller_step_cases(2) [OF conjunct1 [OF us] j at step] by (simp only: p(1))
  have "(\<Sum>th \<leftarrow> ths'. turns_left v (snd th)) + turns_left v pc = (\<Sum>th \<leftarrow> us. turns_left v (snd th)) + turns_left v pc'"
    using sum_list_update_nat [of j "map (\<lambda>th. turns_left v (snd th)) us" "turns_left v pc'"] j at
    by (simp add: upd map_update)
  with p IH show ?case by simp
qed

text \<open>
  C25: The loops are lock-free. Let any number of threads call operations on one atomic again
  and again, under any schedule. A call that has not returned yet has made at most
  \<open>2 m + 1\<close> accesses, where \<open>m\<close> is the number of calls of other threads that returned since it
  began: a call that nobody overtakes returns with its second access. And
  whatever point the \<open>n\<close> threads are at, among any \<open>2 n + 1\<close> accesses in a row there is one with
  which a call returns. How often the others overtake a call has no bound, and none is claimed.
\<close>

theorem cas_lock_free:
  assumes "calling ths" and "set order \<subseteq> {..< length ths}" and "caller_run C program order (ths, v) = (ths', v')"
  shows "(\<forall>i k. i < length ths \<and> ths ! i = (k, Reading) \<and> fst (ths' ! i) = k \<longrightarrow>
      own_turns i order \<le> 2 * (calls_returned ths' - calls_returned ths) + 1) \<and>
    (2 * length ths < length order \<longrightarrow> calls_returned ths < calls_returned ths')"
proof (intro conjI allI impI)
  fix i k
  assume i: "i < length ths \<and> ths ! i = (k, Reading) \<and> fst (ths' ! i) = k"
  then have "call_inv (own_turns i order) (calls_returned ths' - calls_returned ths) (snd (ths' ! i)) v'"
    using call_run [OF assms(1,2) _ _ assms(3)] by blast
  moreover have "snd (ths' ! i) \<noteq> Finished r" for r
    using caller_run_calling [OF assms] i calling_at [of ths' i r] by simp
  ultimately show "own_turns i order \<le> 2 * (calls_returned ths' - calls_returned ths) + 1"
    by (cases "snd (ths' ! i)") (auto simp: call_inv_def)
next
  assume long: "2 * length ths < length order"
  have "turns_left v (snd th) \<le> 2" for th :: "nat \<times> loop_pc" by (cases "snd th") simp_all
  then have "(\<Sum>th \<leftarrow> ths. turns_left v (snd th)) \<le> (\<Sum>th \<leftarrow> ths. 2)" by (intro sum_list_mono) simp
  then have "(\<Sum>th \<leftarrow> ths. turns_left v (snd th)) \<le> 2 * length ths" by (simp add: sum_list_triv)
  with long turns_run [OF assms(1,2,3)] have "calls_returned ths' \<noteq> calls_returned ths" by auto
  with caller_run_calling [OF assms] show "calls_returned ths < calls_returned ths'" by simp
qed

theorem cas_lock_free_witness:
  "\<exists>ths v. caller_run default_config (\<lambda>i k. if i = 0 then ReserveSlot else ReleaseSlots 1) [0, 1, 1, 0, 1] ([(0, Reading), (0, Reading)], 5) =
      (ths, v) \<and> fst (ths ! 0) = 0 \<and> own_turns 0 [0, 1, 1, 0, 1] = 2 \<and>
    own_turns 0 [0, 1, 1, 0, 1] \<le> 2 * (calls_returned ths - 0) + 1 \<and> 0 < calls_returned ths"
proof -
  let ?program = "\<lambda>i k. if i = 0 then ReserveSlot else ReleaseSlots 1" and ?ths = "[(0, Reading), (0, Reading)]"
  have r: "caller_run default_config ?program [0, 1, 1, 0, 1] (?ths, 5) = ([(0, Trying 4), (1, Trying 4)], 4)"
    by (simp add: caller_run_def caller_step_def after_read_def default_config_def)
  have "calling ?ths" "set [0, 1, 1, 0, 1] \<subseteq> {..< length ?ths}" by (auto simp: calling_def)
  note lf = cas_lock_free [OF this r]
  have z: "calls_returned ?ths = 0" "?ths ! 0 = (0, Reading)" "0 < length ?ths" by (simp_all add: calls_returned_def)
  have "own_turns 0 [0, 1, 1, 0, 1] \<le> 2 * (calls_returned [(0, Trying 4), (1, Trying 4)] - calls_returned ?ths) + 1"
    using conjunct1 [OF lf, rule_format, of 0 0] z by simp
  moreover have "calls_returned ?ths < calls_returned [(0, Trying 4), (1, Trying 4)]"
    using conjunct2 [OF lf] by simp
  ultimately show ?thesis using r z by (simp add: own_turns_def)
qed

subsection \<open>The operations of \<open>Shared_Ops\<close>\<close>

text \<open>
  What one of the loops does in one step is what the model's operation of that name does
  to its atomic: the slot counter, a statistics counter, the shutdown state.
\<close>

lemma shared_ops_are_the_loops:
  "in_one_step C ReserveSlot (queue_len_estimate (stats g)) =
    (queue_len_estimate (stats (snd (try_reserve_slot C g))), fst (try_reserve_slot C g)) \<and>
   fst (in_one_step C (ReleaseSlots delta) (queue_len_estimate (stats g))) =
    queue_len_estimate (stats (release_reserved_slots delta g)) \<and>
   fst (in_one_step C (AddCounter delta) (expired (stats g))) = expired (stats (count_up expired_update delta g)) \<and>
   in_one_step C (SetShutdown mode) (shutdown_state g) =
    (shutdown_state (set_shutdown_mode mode g), set_shutdown_mode mode g \<noteq> g)"
proof -
  have "set_shutdown_mode mode g \<noteq> g \<longleftrightarrow> shutdown_next (shutdown_state g) (shutdown_target mode) \<noteq> shutdown_state g"
  proof
    assume "shutdown_next (shutdown_state g) (shutdown_target mode) \<noteq> shutdown_state g"
    then have "shutdown_state (set_shutdown_mode mode g) \<noteq> shutdown_state g"
      by (simp add: set_shutdown_mode_def notify_all_def Let_def)
    then show "set_shutdown_mode mode g \<noteq> g" by metis
  qed (auto simp: set_shutdown_mode_def Let_def)
  then show ?thesis
    by (auto simp: in_one_step_def try_reserve_slot_def release_reserved_slots_def count_up_def
        set_shutdown_mode_def notify_all_def Let_def)
qed

end
