(* ===== verification/Tokio.thy ===== *)
theory Tokio
  imports Shared_Ops
begin

text \<open>
  What \<open>firq-tower\<close> and \<open>firq-async\<close> use of tokio: \<open>Semaphore\<close>, \<open>oneshot\<close> and \<open>mpsc\<close> channels.
  They are not part of the repository; here they are parameters of the model, the operations
  as the fields of a record, with what their documentation promises as a predicate on it.
\<close>

subsection \<open>Semaphores and oneshot channels\<close>

text \<open>
  \<open>acquire\<close> answers at once with a permit, has to wait, or fails because the semaphore is
  closed. Awaiting a oneshot receiver gives the value, an error once the sender is dropped
  without sending, or has to wait.
\<close>

datatype 'm acquired = Permit 'm | NoPermit | SemaphoreClosed

datatype rx_poll = RxValue | RxClosed | RxPending

text \<open>
  \<open>send_ok\<close> takes whether the receiver is alive, \<open>rx_result\<close> whether a value was sent and
  whether the sender is gone. \<open>sem_new\<close> is \<open>None\<close> where \<open>Semaphore::new\<close> panics.
\<close>

record 'm tokio =
  sem_new :: "nat \<Rightarrow> 'm option"
  sem_acquire :: "'m \<Rightarrow> 'm acquired"
  sem_acquire_many :: "nat \<Rightarrow> 'm \<Rightarrow> 'm acquired"
  sem_release :: "'m \<Rightarrow> 'm"
  sem_close :: "'m \<Rightarrow> 'm"
  sem_is_closed :: "'m \<Rightarrow> bool"
  sem_available :: "'m \<Rightarrow> nat"
  send_ok :: "bool \<Rightarrow> bool"
  rx_result :: "bool \<Rightarrow> bool \<Rightarrow> rx_poll"

text \<open>\<open>Semaphore::MAX_PERMITS\<close>, \<open>usize::MAX >> 3\<close>.\<close>

definition MAX_PERMITS :: nat where
  "MAX_PERMITS = 2305843009213693951"

definition semaphore_documented :: "'m tokio \<Rightarrow> bool" where
  "semaphore_documented T \<longleftrightarrow>
     (\<forall>n. if n \<le> MAX_PERMITS
        then \<exists>m. sem_new T n = Some m \<and> sem_available T m = n \<and> \<not> sem_is_closed T m
        else sem_new T n = None) \<and>
     (\<forall>m. if sem_is_closed T m then sem_acquire T m = SemaphoreClosed
        else if sem_available T m = 0 then sem_acquire T m = NoPermit
        else \<exists>m'. sem_acquire T m = Permit m' \<and> sem_available T m' = sem_available T m - 1 \<and>
               \<not> sem_is_closed T m') \<and>
     (\<forall>k m. if sem_is_closed T m then sem_acquire_many T k m = SemaphoreClosed
        else if sem_available T m < k then sem_acquire_many T k m = NoPermit
        else \<exists>m'. sem_acquire_many T k m = Permit m' \<and> sem_available T m' = sem_available T m - k \<and>
               \<not> sem_is_closed T m') \<and>
     (\<forall>m. sem_available T (sem_release T m) = Suc (sem_available T m) \<and>
        sem_is_closed T (sem_release T m) = sem_is_closed T m) \<and>
     (\<forall>m. sem_available T (sem_close T m) = sem_available T m \<and> sem_is_closed T (sem_close T m))"

definition oneshot_documented :: "'m tokio \<Rightarrow> bool" where
  "oneshot_documented T \<longleftrightarrow> (\<forall>receiver_alive. send_ok T receiver_alive = receiver_alive) \<and>
     (\<forall>sender_gone. rx_result T True sender_gone = RxValue) \<and>
     rx_result T False True = RxClosed \<and> rx_result T False False = RxPending"

definition tokio_documented :: "'m tokio \<Rightarrow> bool" where
  "tokio_documented T \<longleftrightarrow> semaphore_documented T \<and> oneshot_documented T"

lemma new_documented:
  assumes "tokio_documented T" and "sem_new T n = Some m"
  shows "n \<le> MAX_PERMITS" and "sem_available T m = n" and "\<not> sem_is_closed T m"
proof -
  from assms(1) have "if n \<le> MAX_PERMITS
      then \<exists>m. sem_new T n = Some m \<and> sem_available T m = n \<and> \<not> sem_is_closed T m else sem_new T n = None"
    unfolding tokio_documented_def semaphore_documented_def by blast
  with assms(2) show "n \<le> MAX_PERMITS" "sem_available T m = n" "\<not> sem_is_closed T m"
    by (auto split: if_splits)
qed

lemma acquire_documented:
  assumes "tokio_documented T"
  shows "sem_acquire T m = Permit m' \<Longrightarrow> sem_available T m = Suc (sem_available T m') \<and> \<not> sem_is_closed T m'"
    and "sem_is_closed T m \<Longrightarrow> sem_acquire T m = SemaphoreClosed"
    and "\<not> sem_is_closed T m \<Longrightarrow> sem_available T m = 0 \<Longrightarrow> sem_acquire T m = NoPermit"
    and "\<not> sem_is_closed T m \<Longrightarrow> 0 < sem_available T m \<Longrightarrow> \<exists>m'. sem_acquire T m = Permit m'"
proof -
  from assms have a: "if sem_is_closed T m then sem_acquire T m = SemaphoreClosed
      else if sem_available T m = 0 then sem_acquire T m = NoPermit
      else \<exists>m'. sem_acquire T m = Permit m' \<and> sem_available T m' = sem_available T m - 1 \<and> \<not> sem_is_closed T m'"
    unfolding tokio_documented_def semaphore_documented_def by blast
  show "sem_acquire T m = Permit m' \<Longrightarrow> sem_available T m = Suc (sem_available T m') \<and> \<not> sem_is_closed T m'"
    using a by (auto split: if_splits)
  show "sem_is_closed T m \<Longrightarrow> sem_acquire T m = SemaphoreClosed"
    "\<not> sem_is_closed T m \<Longrightarrow> sem_available T m = 0 \<Longrightarrow> sem_acquire T m = NoPermit"
    "\<not> sem_is_closed T m \<Longrightarrow> 0 < sem_available T m \<Longrightarrow> \<exists>m'. sem_acquire T m = Permit m'"
    using a by auto
qed

lemma acquire_many_documented:
  assumes "tokio_documented T"
  shows "sem_acquire_many T k m = Permit m' \<Longrightarrow>
      k \<le> sem_available T m \<and> sem_available T m' = sem_available T m - k \<and> \<not> sem_is_closed T m'"
    and "sem_acquire_many T k m = SemaphoreClosed \<Longrightarrow> sem_is_closed T m"
proof -
  from assms have a: "if sem_is_closed T m then sem_acquire_many T k m = SemaphoreClosed
      else if sem_available T m < k then sem_acquire_many T k m = NoPermit
      else \<exists>m'. sem_acquire_many T k m = Permit m' \<and> sem_available T m' = sem_available T m - k \<and> \<not> sem_is_closed T m'"
    unfolding tokio_documented_def semaphore_documented_def by blast
  show "sem_acquire_many T k m = Permit m' \<Longrightarrow>
      k \<le> sem_available T m \<and> sem_available T m' = sem_available T m - k \<and> \<not> sem_is_closed T m'"
    "sem_acquire_many T k m = SemaphoreClosed \<Longrightarrow> sem_is_closed T m"
    using a by (auto split: if_splits)
qed

lemma semaphore_frame:
  assumes "tokio_documented T"
  shows "sem_available T (sem_release T m) = Suc (sem_available T m)"
    and "sem_available T (sem_close T m) = sem_available T m"
    and "sem_is_closed T (sem_close T m)" and "sem_is_closed T (sem_release T m) = sem_is_closed T m"
  using assms unfolding tokio_documented_def semaphore_documented_def by blast+

lemma oneshot_laws:
  assumes "tokio_documented T"
  shows "send_ok T b = b" and "rx_result T True g = RxValue"
    and "rx_result T False g = (if g then RxClosed else RxPending)"
  using assms unfolding tokio_documented_def oneshot_documented_def by auto

subsection \<open>A semaphore that behaves as documented\<close>

text \<open>Permits left and the closed flag; the witnesses use it.\<close>

definition counting_tokio :: "(nat \<times> bool) tokio" where
  "counting_tokio =
    \<lparr>sem_new = (\<lambda>n. if n \<le> MAX_PERMITS then Some (n, False) else None),
     sem_acquire = (\<lambda>(n, c). if c then SemaphoreClosed else if n = 0 then NoPermit else Permit (n - 1, c)),
     sem_acquire_many = (\<lambda>k (n, c). if c then SemaphoreClosed else if n < k then NoPermit else Permit (n - k, c)),
     sem_release = (\<lambda>(n, c). (Suc n, c)),
     sem_close = (\<lambda>(n, c). (n, True)),
     sem_is_closed = snd,
     sem_available = fst,
     send_ok = (\<lambda>alive. alive),
     rx_result = (\<lambda>sent gone. if sent then RxValue else if gone then RxClosed else RxPending)\<rparr>"

lemma counting_tokio_documented: "tokio_documented counting_tokio"
  by (auto simp: tokio_documented_def semaphore_documented_def oneshot_documented_def counting_tokio_def)

subsection \<open>Bounded channels\<close>

text \<open>
  \<open>mpsc\<close>: \<open>blocking_send\<close> puts the item behind the buffered ones, waits while the buffer is
  full, or fails when the receiver is closed or dropped; \<open>recv\<close> takes the first item, waits
  while a sender is alive, and ends when the channel is empty and the sender gone or the
  channel closed. \<open>close\<close> keeps what is in the buffer; dropping the receiver closes the channel
  and drops the messages that nobody has read.
\<close>

datatype 'c sending = SentTo 'c | BufferFull | SendError

datatype ('v, 'c) receiving = Received 'v 'c | Nothing | EndOfChannel

record ('v, 'c) mpsc =
  chan_new :: "nat \<Rightarrow> 'c"
  chan_send :: "'v \<Rightarrow> 'c \<Rightarrow> 'c sending"
  chan_recv :: "'c \<Rightarrow> ('v, 'c) receiving"
  chan_close :: "'c \<Rightarrow> 'c"
  chan_drop_sender :: "'c \<Rightarrow> 'c"
  chan_drop_receiver :: "'c \<Rightarrow> 'c"
  chan_items :: "'c \<Rightarrow> 'v list"
  chan_limit :: "'c \<Rightarrow> nat"
  chan_closed :: "'c \<Rightarrow> bool"
  chan_has_sender :: "'c \<Rightarrow> bool"

definition mpsc_documented :: "('v, 'c) mpsc \<Rightarrow> bool" where
  "mpsc_documented M \<longleftrightarrow>
     (\<forall>n > 0. chan_items M (chan_new M n) = [] \<and> chan_limit M (chan_new M n) = n \<and>
        \<not> chan_closed M (chan_new M n) \<and> chan_has_sender M (chan_new M n)) \<and>
     (\<forall>v c. if chan_closed M c then chan_send M v c = SendError
        else if chan_limit M c \<le> length (chan_items M c) then chan_send M v c = BufferFull
        else \<exists>c'. chan_send M v c = SentTo c' \<and> chan_items M c' = chan_items M c @ [v] \<and>
               chan_limit M c' = chan_limit M c \<and> \<not> chan_closed M c' \<and>
               chan_has_sender M c' = chan_has_sender M c) \<and>
     (\<forall>c. case chan_items M c of
        v # vs \<Rightarrow> \<exists>c'. chan_recv M c = Received v c' \<and> chan_items M c' = vs \<and>
                 chan_limit M c' = chan_limit M c \<and> chan_closed M c' = chan_closed M c \<and>
                 chan_has_sender M c' = chan_has_sender M c
      | [] \<Rightarrow> chan_recv M c = (if chan_closed M c \<or> \<not> chan_has_sender M c then EndOfChannel else Nothing)) \<and>
     (\<forall>c. chan_items M (chan_close M c) = chan_items M c \<and> chan_limit M (chan_close M c) = chan_limit M c \<and>
        chan_closed M (chan_close M c) \<and> chan_has_sender M (chan_close M c) = chan_has_sender M c) \<and>
     (\<forall>c. chan_items M (chan_drop_sender M c) = chan_items M c \<and>
        chan_limit M (chan_drop_sender M c) = chan_limit M c \<and>
        chan_closed M (chan_drop_sender M c) = chan_closed M c \<and> \<not> chan_has_sender M (chan_drop_sender M c)) \<and>
     (\<forall>c. chan_items M (chan_drop_receiver M c) = [] \<and> chan_limit M (chan_drop_receiver M c) = chan_limit M c \<and>
        chan_closed M (chan_drop_receiver M c) \<and>
        chan_has_sender M (chan_drop_receiver M c) = chan_has_sender M c)"

lemma send_documented:
  assumes "mpsc_documented M" and "chan_send M v c = SentTo c'"
  shows "chan_items M c' = chan_items M c @ [v]" and "chan_limit M c' = chan_limit M c"
    and "chan_closed M c' = chan_closed M c" and "chan_has_sender M c' = chan_has_sender M c"
    and "length (chan_items M c) < chan_limit M c" and "\<not> chan_closed M c"
proof -
  from assms(1) have a: "if chan_closed M c then chan_send M v c = SendError
      else if chan_limit M c \<le> length (chan_items M c) then chan_send M v c = BufferFull
      else \<exists>c'. chan_send M v c = SentTo c' \<and> chan_items M c' = chan_items M c @ [v] \<and>
             chan_limit M c' = chan_limit M c \<and> \<not> chan_closed M c' \<and> chan_has_sender M c' = chan_has_sender M c"
    unfolding mpsc_documented_def by blast
  with assms(2) show "chan_items M c' = chan_items M c @ [v]" "chan_limit M c' = chan_limit M c"
    "chan_closed M c' = chan_closed M c" "chan_has_sender M c' = chan_has_sender M c"
    "length (chan_items M c) < chan_limit M c" "\<not> chan_closed M c"
    by (auto split: if_splits)
qed

lemma send_error_documented: "mpsc_documented M \<Longrightarrow> chan_send M v c = SendError \<Longrightarrow> chan_closed M c"
  unfolding mpsc_documented_def by (metis sending.distinct(3,5) sending.distinct(1))

lemma recv_documented:
  assumes "mpsc_documented M"
  shows "chan_recv M c = Received v c' \<Longrightarrow> chan_items M c = v # chan_items M c' \<and> chan_limit M c' = chan_limit M c \<and>
      chan_closed M c' = chan_closed M c \<and> chan_has_sender M c' = chan_has_sender M c"
    and "chan_recv M c = EndOfChannel \<Longrightarrow> chan_items M c = [] \<and> (chan_closed M c \<or> \<not> chan_has_sender M c)"
proof -
  from assms have a: "case chan_items M c of
        v # vs \<Rightarrow> \<exists>c'. chan_recv M c = Received v c' \<and> chan_items M c' = vs \<and>
                 chan_limit M c' = chan_limit M c \<and> chan_closed M c' = chan_closed M c \<and>
                 chan_has_sender M c' = chan_has_sender M c
      | [] \<Rightarrow> chan_recv M c = (if chan_closed M c \<or> \<not> chan_has_sender M c then EndOfChannel else Nothing)"
    unfolding mpsc_documented_def by blast
  show "chan_recv M c = Received v c' \<Longrightarrow> chan_items M c = v # chan_items M c' \<and> chan_limit M c' = chan_limit M c \<and>
      chan_closed M c' = chan_closed M c \<and> chan_has_sender M c' = chan_has_sender M c"
    "chan_recv M c = EndOfChannel \<Longrightarrow> chan_items M c = [] \<and> (chan_closed M c \<or> \<not> chan_has_sender M c)"
    using a by (auto split: list.splits if_splits)
qed

lemma mpsc_frame:
  assumes "mpsc_documented M"
  shows "chan_items M (chan_close M c) = chan_items M c" and "chan_limit M (chan_close M c) = chan_limit M c"
    and "chan_closed M (chan_close M c)" and "chan_has_sender M (chan_close M c) = chan_has_sender M c"
    and "chan_items M (chan_drop_sender M c) = chan_items M c" and "chan_limit M (chan_drop_sender M c) = chan_limit M c"
    and "chan_closed M (chan_drop_sender M c) = chan_closed M c"
    and "chan_items M (chan_drop_receiver M c) = []" and "chan_limit M (chan_drop_receiver M c) = chan_limit M c"
    and "chan_closed M (chan_drop_receiver M c)"
    and "chan_has_sender M (chan_drop_receiver M c) = chan_has_sender M c"
    and "0 < n \<Longrightarrow> chan_items M (chan_new M n) = [] \<and> chan_limit M (chan_new M n) = n \<and>
      \<not> chan_closed M (chan_new M n) \<and> chan_has_sender M (chan_new M n)"
  using assms unfolding mpsc_documented_def by blast+

text \<open>Buffered items, limit, closed, sender alive.\<close>

definition list_mpsc :: "('v, 'v list \<times> nat \<times> bool \<times> bool) mpsc" where
  "list_mpsc =
    \<lparr>chan_new = (\<lambda>n. ([], n, False, True)),
     chan_send = (\<lambda>v (vs, n, c, s). if c then SendError else if n \<le> length vs then BufferFull
                               else SentTo (vs @ [v], n, c, s)),
     chan_recv = (\<lambda>(vs, n, c, s). case vs of w # ws \<Rightarrow> Received w (ws, n, c, s)
                               | [] \<Rightarrow> if c \<or> \<not> s then EndOfChannel else Nothing),
     chan_close = (\<lambda>(vs, n, c, s). (vs, n, True, s)),
     chan_drop_sender = (\<lambda>(vs, n, c, s). (vs, n, c, False)),
     chan_drop_receiver = (\<lambda>(vs, n, c, s). ([], n, True, s)),
     chan_items = fst, chan_limit = (\<lambda>(vs, n, c, s). n), chan_closed = (\<lambda>(vs, n, c, s). c),
     chan_has_sender = (\<lambda>(vs, n, c, s). s)\<rparr>"

lemma list_mpsc_documented: "mpsc_documented (list_mpsc :: ('v, 'v list \<times> nat \<times> bool \<times> bool) mpsc)"
  by (auto simp: mpsc_documented_def list_mpsc_def split: list.split)

end
