(* ===== verification/Tower.thy ===== *)
theory Tower
  imports Timed_Calls Tokio
begin

text \<open>
  The crate \<open>firq-tower\<close>: the builder of \<open>builder.rs\<close>, and the layer of \<open>lib.rs\<close> as a system
  of steps. Its state holds the scheduler, the semaphore of running handlers, the background
  worker and the requests with the future each call returned. The environment decides when a
  request arrives, when a future is polled, answered by the inner service or dropped, and
  when the worker thread runs.
\<close>

subsection \<open>Rejections\<close>

record firq_http_rejection =
  http_status :: nat
  error_code :: string
  error_message :: string
  reject_cause :: reject_reason

fun default_rejection_mapper :: "reject_reason \<Rightarrow> firq_http_rejection" where
  "default_rejection_mapper TenantFull =
    \<lparr>http_status = 429, error_code = ''tenant_full'',
     error_message = ''tenant queue limit reached'', reject_cause = TenantFull\<rparr>"
| "default_rejection_mapper GlobalFull =
    \<lparr>http_status = 503, error_code = ''global_full'',
     error_message = ''scheduler global capacity reached'', reject_cause = GlobalFull\<rparr>"
| "default_rejection_mapper TimedOut =
    \<lparr>http_status = 503, error_code = ''timeout'',
     error_message = ''request timed out waiting for scheduler capacity'', reject_cause = TimedOut\<rparr>"

datatype 'e firq_error =
    Service 'e
  | HttpRejected firq_http_rejection
  | FirqClosed
  | PermitError

subsection \<open>The builder\<close>

text \<open>
  \<open>'q\<close> is the request type of the service. A deadline extractor is erased to a function on
  \<open>dyn Any\<close>, which first downcasts the request to its own type; \<open>downcast\<close> is that cast.
\<close>

record 'q firq =
  bld_config :: config
  in_flight_limit :: usize
  deadline_extractor :: "('q \<Rightarrow> instant option) option"
  rejection_mapper :: "reject_reason \<Rightarrow> firq_http_rejection"

definition firq_new :: "'q firq" where
  "firq_new =
    \<lparr>bld_config = default_config, in_flight_limit = 256, deadline_extractor = None,
     rejection_mapper = default_rejection_mapper\<rparr>"

definition with_shards :: "usize \<Rightarrow> 'q firq \<Rightarrow> 'q firq" where
  "with_shards n b = b\<lparr>bld_config := (bld_config b)\<lparr>cfg_shards := n\<rparr>\<rparr>"

definition with_max_global :: "usize \<Rightarrow> 'q firq \<Rightarrow> 'q firq" where
  "with_max_global n b = b\<lparr>bld_config := (bld_config b)\<lparr>max_global := n\<rparr>\<rparr>"

definition with_max_per_tenant :: "usize \<Rightarrow> 'q firq \<Rightarrow> 'q firq" where
  "with_max_per_tenant n b = b\<lparr>bld_config := (bld_config b)\<lparr>max_per_tenant := n\<rparr>\<rparr>"

definition with_quantum :: "u64 \<Rightarrow> 'q firq \<Rightarrow> 'q firq" where
  "with_quantum n b = b\<lparr>bld_config := (bld_config b)\<lparr>cfg_quantum := n\<rparr>\<rparr>"

definition with_backpressure :: "backpressure_policy \<Rightarrow> 'q firq \<Rightarrow> 'q firq" where
  "with_backpressure policy b = b\<lparr>bld_config := (bld_config b)\<lparr>backpressure := policy\<rparr>\<rparr>"

definition with_in_flight_limit :: "usize \<Rightarrow> 'q firq \<Rightarrow> 'q firq" where
  "with_in_flight_limit n b = b\<lparr>in_flight_limit := max n 1\<rparr>"

definition with_deadline_extractor :: "('q \<Rightarrow> 'd option) \<Rightarrow> ('d \<Rightarrow> instant option) \<Rightarrow> 'q firq \<Rightarrow> 'q firq" where
  "with_deadline_extractor downcast extractor b =
    b\<lparr>deadline_extractor := Some (\<lambda>req. case downcast req of None \<Rightarrow> None | Some r \<Rightarrow> extractor r)\<rparr>"

definition with_rejection_mapper :: "(reject_reason \<Rightarrow> firq_http_rejection) \<Rightarrow> 'q firq \<Rightarrow> 'q firq" where
  "with_rejection_mapper mapper b = b\<lparr>rejection_mapper := mapper\<rparr>"

subsection \<open>The layer\<close>

text \<open>
  The worker thread: at the top of its loop, inside \<open>dequeue_blocking\<close>, holding the sender of
  a dequeued request and waiting for a permit, or at its end. The payload of a task is the
  number of its request, in place of the sender \<open>FirqPermit\<close>.
\<close>

datatype worker = WorkerTop | Serving "nat consumer" | Holding nat | Stopped

text \<open>
  What became of a request. \<open>Entering\<close>: its call waits for capacity. \<open>Fresh\<close>: the future was
  returned and not polled yet. \<open>Queued\<close>: it awaits the permit, with the cancel guard armed;
  the flag of both tells whether a permit was sent. \<open>Running\<close>: it has the permit and awaits
  the inner service. \<open>Abandoned\<close>: the future was dropped; \<open>AbandonedFresh\<close>: before its first
  poll and before a permit was sent.
\<close>

datatype ('r, 'e) request =
    Entering tenant_key duration "nat waiting_enqueue"
  | Fresh task_handle bool
  | Queued task_handle bool
  | Running
  | Answered "'e firq_error + 'r"
  | Abandoned
  | AbandonedFresh task_handle

record ('m, 'r, 'e) layer =
  sch :: "nat sched"
  in_flight :: 'm
  max_in_flight :: nat
  worker :: worker
  worker_shutdown :: bool
  requests :: "('r, 'e) request list"

text \<open>\<open>FirqLayer::new\<close>; \<open>None\<close> when creating the semaphore panics.\<close>

definition layer_new :: "'m tokio \<Rightarrow> nat sched \<Rightarrow> usize \<Rightarrow> ('m, 'r, 'e) layer option" where
  "layer_new T s limit =
    (case sem_new T (max (unat limit) 1) of
       None \<Rightarrow> None
     | Some m \<Rightarrow> Some
         \<lparr>sch = s, in_flight = m, max_in_flight = max (unat limit) 1, worker = WorkerTop,
          worker_shutdown = False, requests = []\<rparr>)"

definition build :: "'m tokio \<Rightarrow> 'q firq \<Rightarrow> ('m, 'r, 'e) layer option" where
  "build T b = layer_new T (scheduler_new (bld_config b)) (in_flight_limit b)"

definition in_flight_active :: "'m tokio \<Rightarrow> ('m, 'r, 'e) layer \<Rightarrow> nat" where
  "in_flight_active T x = max_in_flight x - sem_available T (in_flight x)"

definition set_request :: "nat \<Rightarrow> ('r, 'e) request \<Rightarrow> ('m, 'r, 'e) layer \<Rightarrow> ('m, 'r, 'e) layer" where
  "set_request i r x = x\<lparr>requests := (requests x)[i := r]\<rparr>"

definition release_permit :: "'m tokio \<Rightarrow> ('m, 'r, 'e) layer \<Rightarrow> ('m, 'r, 'e) layer" where
  "release_permit T x = x\<lparr>in_flight := sem_release T (in_flight x)\<rparr>"

subsection \<open>Calls\<close>

text \<open>The three arms of \<open>call\<close> after the enqueue.\<close>

fun call_future :: "(reject_reason \<Rightarrow> firq_http_rejection) \<Rightarrow> enqueue_with_handle_result \<Rightarrow> ('r, 'e) request" where
  "call_future mapper (Enqueued h) = Fresh h False"
| "call_future mapper (Rejected reason) = Answered (Inl (HttpRejected (mapper reason)))"
| "call_future mapper EnqueueClosed = Answered (Inl FirqClosed)"

fun policy_wait :: "backpressure_policy \<Rightarrow> duration" where
  "policy_wait (Timeout d) = d"
| "policy_wait b = 0"

definition service_call :: "'q firq \<Rightarrow> clock \<Rightarrow> ('q \<Rightarrow> tenant_key) \<Rightarrow> 'q \<Rightarrow> ('m, 'r, 'e) layer \<Rightarrow> ('m, 'r, 'e) layer" where
  "service_call b clk extractor req x =
    (let t = extractor req;
         dl = (case deadline_extractor b of None \<Rightarrow> None | Some f \<Rightarrow> f req);
         (now, g) = read_clock clk (shared (sch x));
         task = \<lparr>payload = length (requests x), enqueue_ts = now, deadline = dl, prio = Normal, cost = 1\<rparr>;
         s1 = (sch x)\<lparr>shared := g\<rparr>
     in case enqueue_now (bld_config b) clk t task s1 of
          None \<Rightarrow> x\<lparr>sch := s1,
            requests := requests x @ [Entering t (policy_wait (backpressure_for (bld_config b) t)) (WaitStart task)]\<rparr>
        | Some (r, s2) \<Rightarrow> x\<lparr>sch := s2, requests := requests x @ [call_future (rejection_mapper b) r]\<rparr>)"

text \<open>A call under a \<open>Timeout\<close> policy blocks its thread in \<open>enqueue_with_handle\<close>.\<close>

definition service_call_turn :: "'q firq \<Rightarrow> clock \<Rightarrow> nat \<Rightarrow> ('m, 'r, 'e) layer \<Rightarrow> ('m, 'r, 'e) layer" where
  "service_call_turn b clk i x =
    (case requests x ! i of
       Entering t wait w \<Rightarrow>
         let (w', s') = enqueue_timeout_with_handle (bld_config b) clk t wait w (sch x)
         in set_request i (case w' of WaitDone r \<Rightarrow> call_future (rejection_mapper b) r | _ \<Rightarrow> Entering t wait w')
              (x\<lparr>sch := s'\<rparr>)
     | _ \<Rightarrow> x)"

subsection \<open>The future of a call\<close>

text \<open>
  The sender of a request lives in its queue entry, then with the worker; it is dropped with
  the entry wherever the scheduler discards it.
\<close>

definition sender_gone :: "('m, 'r, 'e) layer \<Rightarrow> nat \<Rightarrow> bool" where
  "sender_gone x i \<longleftrightarrow> worker x \<noteq> Holding i \<and>
     (\<forall>t p. \<forall>e \<in> set (sched_queue (sch x) t p). payload (entry_task e) \<noteq> i)"

fun waits :: "('r, 'e) request \<Rightarrow> (task_handle \<times> bool) option" where
  "waits (Fresh h sent) = Some (h, sent)"
| "waits (Queued h sent) = Some (h, sent)"
| "waits r = None"

text \<open>\<open>PendingCancelGuard::drop\<close> while it holds the handle.\<close>

definition guard_cancels :: "task_handle \<Rightarrow> ('m, 'r, 'e) layer \<Rightarrow> ('m, 'r, 'e) layer" where
  "guard_cancels h x = x\<lparr>sch := snd (cancel h (sch x))\<rparr>"

text \<open>
  A poll: the first one creates the guard. With the permit the guard is disarmed and the
  inner service called; without one the guard is dropped armed.
\<close>

definition poll_future :: "'m tokio \<Rightarrow> nat \<Rightarrow> ('m, 'r, 'e) layer \<Rightarrow> ('m, 'r, 'e) layer" where
  "poll_future T i x =
    (case waits (requests x ! i) of
       None \<Rightarrow> x
     | Some (h, sent) \<Rightarrow>
         (case rx_result T sent (sender_gone x i) of
            RxPending \<Rightarrow> set_request i (Queued h sent) x
          | RxValue \<Rightarrow> set_request i Running x
          | RxClosed \<Rightarrow> guard_cancels h (set_request i (Answered (Inl PermitError)) x)))"

text \<open>The inner service answers; either way the permit is dropped.\<close>

definition inner_reply :: "'m tokio \<Rightarrow> nat \<Rightarrow> 'e + 'r \<Rightarrow> ('m, 'r, 'e) layer \<Rightarrow> ('m, 'r, 'e) layer" where
  "inner_reply T i reply x =
    (case requests x ! i of
       Running \<Rightarrow> release_permit T (set_request i (Answered (map_sum Service id reply)) x)
     | _ \<Rightarrow> x)"

text \<open>The future is dropped: with it what it owns at that point.\<close>

definition drop_future :: "'m tokio \<Rightarrow> nat \<Rightarrow> ('m, 'r, 'e) layer \<Rightarrow> ('m, 'r, 'e) layer" where
  "drop_future T i x =
    (case requests x ! i of
       Fresh h sent \<Rightarrow>
         (if sent then release_permit T (set_request i Abandoned x) else set_request i (AbandonedFresh h) x)
     | Queued h sent \<Rightarrow>
         (let x1 = set_request i Abandoned x; x2 = (if sent then release_permit T x1 else x1)
          in guard_cancels h x2)
     | Running \<Rightarrow> release_permit T (set_request i Abandoned x)
     | _ \<Rightarrow> x)"

subsection \<open>The background worker\<close>

definition worker_turn :: "'m tokio \<Rightarrow> clock \<Rightarrow> ('m, 'r, 'e) layer \<Rightarrow> ('m, 'r, 'e) layer" where
  "worker_turn T clk x =
    (case worker x of
       WorkerTop \<Rightarrow> x\<lparr>worker := (if worker_shutdown x then Stopped else Serving (Begin 0))\<rparr>
     | Serving c \<Rightarrow>
         let (c', s') = dequeue_blocking clk c (sch x);
             w = (case c' of
                    Returned (DequeuedTask t task) \<Rightarrow> Holding (payload task)
                  | Returned Closed \<Rightarrow> Stopped
                  | Returned Empty \<Rightarrow> WorkerTop
                  | _ \<Rightarrow> Serving c')
         in x\<lparr>sch := s', worker := w\<rparr>
     | Holding i \<Rightarrow>
         (case sem_acquire T (in_flight x) of
            NoPermit \<Rightarrow> x
          | SemaphoreClosed \<Rightarrow> x\<lparr>worker := Stopped\<rparr>
          | Permit m \<Rightarrow>
              let x1 = x\<lparr>in_flight := m, worker := WorkerTop\<rparr> in
              if send_ok T (waits (requests x ! i) \<noteq> None) then
                set_request i
                  (case requests x ! i of Fresh h sent \<Rightarrow> Fresh h True | Queued h sent \<Rightarrow> Queued h True | r \<Rightarrow> r) x1
              else release_permit T x1)
     | Stopped \<Rightarrow> x)"

text \<open>\<open>BackgroundWorker::drop\<close>, up to the \<open>join\<close>, which waits for the worker to stop.\<close>

definition drop_worker :: "'m tokio \<Rightarrow> ('m, 'r, 'e) layer \<Rightarrow> ('m, 'r, 'e) layer" where
  "drop_worker T x =
    x\<lparr>worker_shutdown := True, in_flight := sem_close T (in_flight x), sch := close_immediate (sch x)\<rparr>"

subsection \<open>The system\<close>

text \<open>
  \<open>Admin\<close> is an operation on the scheduler that \<open>scheduler()\<close> gives out. Tasks cannot be
  enqueued that way, since the fields of \<open>FirqPermit\<close> are private.
\<close>

datatype ('q, 'r, 'e) tower_event =
    Arrive 'q
  | CallTurn nat
  | Poll nat
  | Reply nat "'e + 'r"
  | DropFuture nat
  | WorkerTurn
  | DropWorker
  | Admin "nat op"

fun admin_op :: "'a op \<Rightarrow> bool" where
  "admin_op (EnqueueNow t task) = False"
| "admin_op (Attempt t task) = False"
| "admin_op e = True"

fun tower_step :: "'m tokio \<Rightarrow> 'q firq \<Rightarrow> clock \<Rightarrow> ('q \<Rightarrow> tenant_key) \<Rightarrow> ('q, 'r, 'e) tower_event \<Rightarrow>
    ('m, 'r, 'e) layer \<Rightarrow> ('m, 'r, 'e) layer" where
  "tower_step T b clk extractor (Arrive req) x = service_call b clk extractor req x"
| "tower_step T b clk extractor (CallTurn i) x = (if i < length (requests x) then service_call_turn b clk i x else x)"
| "tower_step T b clk extractor (Poll i) x = (if i < length (requests x) then poll_future T i x else x)"
| "tower_step T b clk extractor (Reply i reply) x = (if i < length (requests x) then inner_reply T i reply x else x)"
| "tower_step T b clk extractor (DropFuture i) x = (if i < length (requests x) then drop_future T i x else x)"
| "tower_step T b clk extractor WorkerTurn x = worker_turn T clk x"
| "tower_step T b clk extractor DropWorker x = drop_worker T x"
| "tower_step T b clk extractor (Admin e) x =
    (if admin_op e then x\<lparr>sch := snd (exec (bld_config b) clk e (sch x))\<rparr> else x)"

definition tower_run :: "'m tokio \<Rightarrow> 'q firq \<Rightarrow> clock \<Rightarrow> ('q \<Rightarrow> tenant_key) \<Rightarrow> ('q, 'r, 'e) tower_event list \<Rightarrow>
    ('m, 'r, 'e) layer \<Rightarrow> ('m, 'r, 'e) layer" where
  "tower_run T b clk extractor evs x = fold (tower_step T b clk extractor) evs x"

end
