(* ===== verification/Tower_Sound.thy ===== *)
theory Tower_Sound
  imports Tower
begin

text \<open>
  The invariant of the Tower layer: the permits of the semaphore are accounted for, and every
  task pending in the scheduler belongs to a request that still waits for it.
\<close>

subsection \<open>Permits\<close>

fun holds_permit :: "('r, 'e) request \<Rightarrow> bool" where
  "holds_permit Running = True"
| "holds_permit (Fresh h sent) = sent"
| "holds_permit (Queued h sent) = sent"
| "holds_permit r = False"

definition permits :: "('r, 'e) request list \<Rightarrow> nat" where
  "permits rs = length (filter holds_permit rs)"

definition running :: "('r, 'e) request list \<Rightarrow> nat" where
  "running rs = length (filter (\<lambda>r. r = Running) rs)"

abbreviation unit_if :: "bool \<Rightarrow> nat" where
  "unit_if b \<equiv> (if b then 1 else 0)"

lemma permits_snoc [simp]: "permits (rs @ [r]) = permits rs + unit_if (holds_permit r)"
  by (simp add: permits_def)

lemma permits_update:
  "i < length rs \<Longrightarrow> permits (rs[i := r]) + unit_if (holds_permit (rs ! i)) = permits rs + unit_if (holds_permit r)"
proof (induction rs arbitrary: i)
  case (Cons x xs)
  then show ?case by (cases i) (force simp: permits_def)+
qed simp

lemma running_le: "running rs \<le> permits rs"
  by (induction rs) (auto simp: running_def permits_def)

subsection \<open>Tasks and requests\<close>

text \<open>The request waits for the task with this id, or left before its future was polled.\<close>

fun waits_for :: "('r, 'e) request \<Rightarrow> nat \<Rightarrow> bool" where
  "waits_for (Fresh h sent) k \<longleftrightarrow> handle_id h = k \<and> \<not> sent"
| "waits_for (Queued h sent) k \<longleftrightarrow> handle_id h = k \<and> \<not> sent"
| "waits_for (AbandonedFresh h) k \<longleftrightarrow> handle_id h = k"
| "waits_for r k \<longleftrightarrow> False"

lemma waits_for_unique: "waits_for r k \<Longrightarrow> waits_for r l \<Longrightarrow> k = l"
  by (cases r) auto

definition linked :: "nat sched \<Rightarrow> ('r, 'e) request list \<Rightarrow> bool" where
  "linked s rs \<longleftrightarrow> (\<forall>t p. \<forall>e \<in> set (sched_queue s t p). entry_id e \<in> pending_ids (shared s) \<longrightarrow>
     payload (entry_task e) < length rs \<and> waits_for (rs ! payload (entry_task e)) (entry_id e))"

lemma linked_shrink:
  assumes "linked s rs" and "pending_ids (shared s') \<subseteq> pending_ids (shared s)"
    and "\<And>t p. set (sched_queue s' t p) \<subseteq> set (sched_queue s t p)"
  shows "linked s' rs"
  using assms unfolding linked_def by blast

lemma linked_update:
  assumes "linked s rs" and "\<And>k. k \<in> pending_ids (shared s) \<Longrightarrow> waits_for (rs ! i) k \<Longrightarrow> waits_for r k"
  shows "linked s (rs[i := r])"
  unfolding linked_def
proof (intro allI ballI impI)
  fix t p e assume e: "e \<in> set (sched_queue s t p)" "entry_id e \<in> pending_ids (shared s)"
  with assms(1) have "payload (entry_task e) < length rs" "waits_for (rs ! payload (entry_task e)) (entry_id e)"
    unfolding linked_def by blast+
  with e assms(2) show "payload (entry_task e) < length (rs[i := r]) \<and>
      waits_for (rs[i := r] ! payload (entry_task e)) (entry_id e)"
    by (cases "payload (entry_task e) = i") auto
qed

lemma linked_enqueue:
  assumes link: "linked s rs" and snd: "sound_as C clk V a d c t task new s s'"
    and others: "\<And>j. j < length rs \<Longrightarrow> j \<noteq> payload task \<Longrightarrow> rs' ! j = rs ! j" "length rs \<le> length rs'"
    and free: "\<And>k. payload task < length rs \<Longrightarrow> k \<in> pending_ids (shared s) \<Longrightarrow> \<not> waits_for (rs ! payload task) k"
    and mine: "\<And>h. new = Some h \<Longrightarrow> payload task < length rs' \<and> waits_for (rs' ! payload task) h"
  shows "linked s' rs'"
  unfolding linked_def
proof (intro allI ballI impI)
  fix u p e assume e: "e \<in> set (sched_queue s' u p)" and pend: "entry_id e \<in> pending_ids (shared s')"
  from snd obtain R where
    q: "\<And>u p. sched_queue s' u p = filter (\<lambda>e. entry_id e \<notin> R) (sched_queue s u p) @
      (if u = t \<and> p = prio task then (case new of None \<Rightarrow> [] | Some h \<Rightarrow> [\<lparr>entry_id = h, entry_task = task\<rparr>]) else [])"
    and P: "pending_ids (shared s') = (pending_ids (shared s) - R) \<union> set_option new"
    unfolding sound_as_def enqueues_def by blast
  show "payload (entry_task e) < length rs' \<and> waits_for (rs' ! payload (entry_task e)) (entry_id e)"
  proof (cases "e \<in> set (sched_queue s u p) \<and> entry_id e \<in> pending_ids (shared s)")
    case True
    with link have l: "payload (entry_task e) < length rs" "waits_for (rs ! payload (entry_task e)) (entry_id e)"
      unfolding linked_def by blast+
    with free True have "payload (entry_task e) \<noteq> payload task" by auto
    with l others show ?thesis by auto
  next
    case False
    have "\<exists>h. new = Some h \<and> e = \<lparr>entry_id = h, entry_task = task\<rparr>"
    proof (cases "e \<in> set (sched_queue s u p)")
      case True
      with False pend P have "new = Some (entry_id e)" by auto
      moreover have "sched_ok C s'" using snd by (simp add: sound_as_def)
      then have le: "ledger s'" by (simp add: sched_ok_def)
      have "\<lparr>entry_id = entry_id e, entry_task = task\<rparr> \<in> set (sched_queue s' t (prio task))"
        using q [of t "prio task"] \<open>new = Some (entry_id e)\<close> by simp
      from ledger_disjoint [OF le e this] have "e = \<lparr>entry_id = entry_id e, entry_task = task\<rparr>" by simp
      ultimately show ?thesis by blast
    next
      case F: False
      with e q [of u p] show ?thesis by (cases new; cases "u = t \<and> p = prio task") simp_all
    qed
    with mine show ?thesis by auto
  qed
qed

subsection \<open>The invariant\<close>

fun waiting_task :: "'a waiting_enqueue \<Rightarrow> 'a task option" where
  "waiting_task (WaitStart task) = Some task"
| "waiting_task (WaitBegin dl task) = Some task"
| "waiting_task (WaitObserve dl task) = Some task"
| "waiting_task (WaitTry dl task observed) = Some task"
| "waiting_task (WaitFull dl task observed) = Some task"
| "waiting_task (WaitSleep dl task observed remaining) = Some task"
| "waiting_task (WaitDone r) = None"

definition sched_part :: "config \<Rightarrow> nat \<Rightarrow> nat sched \<Rightarrow> bool" where
  "sched_part C n s \<longleftrightarrow> sched_ok C s \<and> (\<exists>a d c. books C 0 a d c (shared s) \<and> a \<le> n)"

definition one_waiter :: "('r, 'e) request list \<Rightarrow> bool" where
  "one_waiter rs \<longleftrightarrow>
     (\<forall>i < length rs. \<forall>j < length rs. \<forall>k. waits_for (rs ! i) k \<longrightarrow> waits_for (rs ! j) k \<longrightarrow> i = j)"

definition requests_part :: "nat sched \<Rightarrow> worker \<Rightarrow> ('r, 'e) request list \<Rightarrow> bool" where
  "requests_part s w rs \<longleftrightarrow> linked s rs \<and> one_waiter rs \<and>
     (\<forall>r \<in> set rs. \<forall>k. waits_for r k \<longrightarrow> k \<le> next_task_id (shared s)) \<and>
     (\<forall>i < length rs. \<forall>t d v. rs ! i = Entering t d v \<longrightarrow> (\<exists>task. waiting_task v = Some task \<and> payload task = i)) \<and>
     (\<forall>i. w = Holding i \<longrightarrow> i < length rs \<and> (\<forall>t d v. rs ! i \<noteq> Entering t d v) \<and> \<not> holds_permit (rs ! i) \<and>
        (\<forall>k \<in> pending_ids (shared s). \<not> waits_for (rs ! i) k))"

definition tower_ok :: "'m tokio \<Rightarrow> config \<Rightarrow> nat \<Rightarrow> nat \<Rightarrow> ('m, 'r, 'e) layer \<Rightarrow> bool" where
  "tower_ok T C limit n x \<longleftrightarrow> sched_part C n (sch x) \<and>
     (\<forall>r. worker x \<noteq> Serving (Returned r)) \<and>
     max_in_flight x = limit \<and> sem_available T (in_flight x) + permits (requests x) = limit \<and>
     requests_part (sch x) (worker x) (requests x)"

lemma sched_part_mono: "sched_part C n s \<Longrightarrow> n \<le> n' \<Longrightarrow> sched_part C n' s"
  unfolding sched_part_def by force

lemma sched_part_id: "sched_part C n s \<Longrightarrow> next_task_id (shared s) \<le> n"
  by (auto simp: sched_part_def books_def)

text \<open>Operations that enqueue nothing.\<close>

lemma exec_no_new:
  assumes ok: "sched_ok C s" and "admin_op e" and call: "exec C clk e s = (out, s')"
  shows "set (sched_queue s' t p) \<subseteq> set (sched_queue s t p)"
proof (cases e)
  case Dequeue
  then obtain r where "try_dequeue clk s = (r, s')" using call by (auto split: prod.splits)
  from try_dequeue_sound [OF ok this] obtain R
    where "takes clk R (dequeued_of r) (sched_queue s) (shared s) (sched_queue s') (shared s')" by blast
  from takesD(1) [OF this, of t p] show ?thesis by auto
next
  case (SetProvider f)
  with call provider_views [OF ok] show ?thesis by auto
qed (use assms in \<open>auto simp: cancel_def Let_def close_with_mode_def set_tenant_quantum_def clear_tenant_quantum_def
      split: prod.splits if_splits\<close>)

lemma exec_admin:
  assumes sp: "sched_part C n s" and n: "n < u64_max" and adm: "admin_op e" and call: "exec C clk e s = (out, s')"
  shows "sched_part C n s'" and "next_task_id (shared s') = next_task_id (shared s)"
    and "pending_ids (shared s') \<subseteq> pending_ids (shared s)" and "linked s rs \<Longrightarrow> linked s' rs"
proof -
  from sp obtain a d c where ok: "sched_ok C s" and bk: "books C 0 a d c (shared s)" and a: "a \<le> n"
    unfolding sched_part_def by blast
  from a n have "a < u64_max" by simp
  from exec_sound [OF ok bk this call] have ss: "step_sound C a d c out s s'" .
  have "\<not> is_accepted out" using adm call by (cases e; cases out) (auto split: prod.splits elim: dequeue_output.elims cancel_output.elims)
  with ss have st: "sched_ok C s'" "books C 0 a (d + tick (is_delivered out)) (c + tick (is_cancelled out)) (shared s')"
    and pe: "pending_ids (shared s') \<subseteq> pending_ids (shared s)" by (auto simp: step_sound_def)
  then show "sched_part C n s'" "next_task_id (shared s') = next_task_id (shared s)"
    using a bk by (auto simp: sched_part_def books_def)
  show "pending_ids (shared s') \<subseteq> pending_ids (shared s)" by fact
  show "linked s rs \<Longrightarrow> linked s' rs"
    using linked_shrink [OF _ pe] exec_no_new [OF ok adm call] by blast
qed

text \<open>What such an operation leaves of the requests.\<close>

lemma requests_admin:
  assumes "sched_part C n s" and "n < u64_max" and "admin_op e" and "exec C clk e s = (out, s')" and rp: "requests_part s w rs"
  shows "requests_part s' w rs"
proof -
  note x = exec_admin [OF assms(1-4)]
  have "linked s' rs" by (rule x(4)) (use rp in \<open>simp add: requests_part_def\<close>)
  with rp x(2,3) show ?thesis unfolding requests_part_def by auto
qed

text \<open>A request that changes without a task of its own coming or going.\<close>

lemma requests_update:
  assumes rp: "requests_part s w rs" and i: "i < length rs"
    and keep: "\<And>k. k \<in> pending_ids (shared s) \<Longrightarrow> waits_for (rs ! i) k \<Longrightarrow> waits_for r k"
    and new: "\<And>k. waits_for r k \<Longrightarrow> waits_for (rs ! i) k"
    and ent: "\<And>t d v. r = Entering t d v \<Longrightarrow> \<exists>task. waiting_task v = Some task \<and> payload task = i"
    and held: "\<And>t d v. r = Entering t d v \<Longrightarrow> \<exists>t d v. rs ! i = Entering t d v"
      "w = Holding i \<Longrightarrow> holds_permit r \<Longrightarrow> holds_permit (rs ! i)"
  shows "requests_part s w (rs[i := r])"
proof -
  have "\<forall>x \<in> set (rs[i := r]). \<forall>k. waits_for x k \<longrightarrow> k \<le> next_task_id (shared s)"
  proof (intro ballI allI impI)
    fix x k assume "x \<in> set (rs[i := r])" "waits_for x k"
    then have "x = r \<or> x \<in> set rs" using set_update_subset_insert by fastforce
    with \<open>waits_for x k\<close> new rp nth_mem [OF i] show "k \<le> next_task_id (shared s)" unfolding requests_part_def by blast
  qed
  moreover have "one_waiter (rs[i := r])"
  proof -
    have "waits_for (rs[i := r] ! j) k \<Longrightarrow> waits_for (rs ! j) k" for j k using new i by (cases "j = i") auto
    moreover have "one_waiter rs" using rp by (simp add: requests_part_def)
    ultimately show ?thesis unfolding one_waiter_def by (metis length_list_update)
  qed
  moreover have "linked s (rs[i := r])"
    using rp by (intro linked_update keep) (auto simp: requests_part_def)
  moreover have "\<exists>task. waiting_task v = Some task \<and> payload task = j" if "j < length rs" "rs[i := r] ! j = Entering t d v" for j t d v
    using that ent rp i unfolding requests_part_def by (cases "j = i") auto
  moreover have "j < length rs \<and> (\<forall>t d v. rs[i := r] ! j \<noteq> Entering t d v) \<and> \<not> holds_permit (rs[i := r] ! j) \<and>
      (\<forall>k \<in> pending_ids (shared s). \<not> waits_for (rs[i := r] ! j) k)" if "w = Holding j" for j
    using that held new rp i unfolding requests_part_def by (cases "j = i") auto
  ultimately show ?thesis unfolding requests_part_def by simp
qed

text \<open>A scheduler change by an enqueue for the request \<open>i\<close>, which is new or \<open>Entering\<close>.\<close>

lemma requests_enqueue:
  assumes rp: "requests_part s w rs" and bk: "books C 0 a d c (shared s)"
    and snd: "sound_as C clk V a d c t task new s s'"
    and i: "payload task = i" "i = length rs \<and> rs' = rs @ [r] \<or> i < length rs \<and> rs' = rs[i := r] \<and> (\<exists>t d v. rs ! i = Entering t d v)"
    and mine: "\<And>k. waits_for r k \<Longrightarrow> new = Some k" "\<And>h. new = Some h \<Longrightarrow> waits_for r h"
    and ent: "\<And>t d v. r = Entering t d v \<Longrightarrow> \<exists>task. waiting_task v = Some task \<and> payload task = i"
  shows "requests_part s' w rs'"
proof -
  have len: "length rs \<le> length rs'" "i < length rs'" "rs' ! i = r" using i(2) by auto
  have oth: "j < length rs \<Longrightarrow> j \<noteq> i \<Longrightarrow> rs' ! j = rs ! j" for j using i(2) by (auto simp: nth_append)
  have no: "i < length rs \<Longrightarrow> \<not> waits_for (rs ! i) k" for k using i(2) by auto
  have li: "linked s' rs'"
    by (rule linked_enqueue [OF _ snd])
      (use rp i(1) len oth no mine(2) in \<open>auto simp: requests_part_def\<close>)
  have id: "next_task_id (shared s') = (case new of None \<Rightarrow> a | Some h \<Rightarrow> Suc a)" "new = None \<or> new = Some (Suc a)"
    using snd by (auto simp: sound_as_def books_def split: option.splits)
  have a: "next_task_id (shared s) = a" and pa: "k \<in> pending_ids (shared s) \<Longrightarrow> k \<le> a" for k
    using bk by (auto simp: books_def)
  have "x \<in> set rs' \<Longrightarrow> x = r \<or> x \<in> set rs" for x
    using i(2) set_update_subset_insert [of rs i r] by auto
  then have ids: "\<forall>x \<in> set rs'. \<forall>k. waits_for x k \<longrightarrow> k \<le> next_task_id (shared s')"
    using rp mine(1) id a unfolding requests_part_def by (fastforce split: option.splits)
  have one: "one_waiter rs'"
    unfolding one_waiter_def
  proof (intro allI impI)
    fix j l k assume jl: "j < length rs'" "l < length rs'" and w: "waits_for (rs' ! j) k" "waits_for (rs' ! l) k"
    have old: "k \<le> a" if "m < length rs'" "m \<noteq> i" "waits_for (rs' ! m) k" for m
    proof -
      have m: "m < length rs" using that(1,2) i(2) by auto
      with oth that(2,3) have "waits_for (rs ! m) k" by simp
      with rp nth_mem [OF m] a show ?thesis unfolding requests_part_def by metis
    qed
    have mine_new: "k = Suc a" if "waits_for (rs' ! i) k" using mine(1) that len(3) id(2) by fastforce
    show "j = l"
    proof (cases "j = i \<or> l = i")
      case True
      with w old [OF jl(1)] old [OF jl(2)] mine_new show ?thesis by fastforce
    next
      case False
      with jl i(2) have "j < length rs" "l < length rs" by auto
      with False w oth rp show ?thesis unfolding requests_part_def one_waiter_def by metis
    qed
  qed
  have pend: "pending_ids (shared s') \<subseteq> pending_ids (shared s) \<union> set_option new"
    using snd unfolding sound_as_def enqueues_def by blast
  have held: "j < length rs' \<and> (\<forall>t d v. rs' ! j \<noteq> Entering t d v) \<and> \<not> holds_permit (rs' ! j) \<and> (\<forall>k \<in> pending_ids (shared s'). \<not> waits_for (rs' ! j) k)"
    if "w = Holding j" for j
  proof -
    have j: "j < length rs" "\<forall>t d v. rs ! j \<noteq> Entering t d v" "\<not> holds_permit (rs ! j)" "\<forall>k \<in> pending_ids (shared s). \<not> waits_for (rs ! j) k"
      using that rp unfolding requests_part_def by blast+
    with i(2) have "j \<noteq> i" by auto
    with oth j(1) have e: "rs' ! j = rs ! j" by blast
    have "\<not> waits_for (rs ! j) k" if "k \<in> set_option new" for k
      using that id(2) a rp j(1) nth_mem [OF j(1)] unfolding requests_part_def by fastforce
    with j e pend len(1) show ?thesis by (metis UnE order_less_le_trans subsetD)
  qed
  have entr: "\<exists>task. waiting_task v = Some task \<and> payload task = j" if "j < length rs'" "rs' ! j = Entering t d v" for j t d v
  proof (cases "j = i")
    case False
    with that(1) i(2) have "j < length rs" by auto
    with False oth that rp show ?thesis unfolding requests_part_def by metis
  qed (use that ent len(3) in blast)
  show ?thesis unfolding requests_part_def
  proof (intro conjI allI impI)
    show "linked s' rs'" by (rule li)
  qed (use one ids entr held in blast)+
qed

subsection \<open>The steps\<close>

lemma exec_all_admin:
  assumes "sched_part C n s" and "n < u64_max" and "\<forall>e \<in> set es. admin_op e" and "requests_part s w rs"
  shows "sched_part C n (exec_all C clk es s) \<and> requests_part (exec_all C clk es s) w rs"
  using assms
proof (induction es arbitrary: s)
  case (Cons e es)
  obtain out s1 where x: "exec C clk e s = (out, s1)" by fastforce
  from Cons.prems(3) have "admin_op e" by simp
  note st = exec_admin(1) [OF Cons.prems(1,2) this x] requests_admin [OF Cons.prems(1,2) this x Cons.prems(4)]
  from Cons.IH [OF st(1) Cons.prems(2) _ st(2)] Cons.prems(3) x show ?case by simp
qed simp

lemma waits_for_call_future:
  "waits_for (call_future mapper r) k \<longleftrightarrow> accepted_id r = Some k"
  "call_future mapper r \<noteq> Entering t d v" "\<not> holds_permit (call_future mapper r)"
  by (cases r; simp)+

lemma sound_sched_part:
  assumes "sound_as C clk V a d c t task new s s'" and "a \<le> n"
  shows "sched_part C (Suc n) s'"
  using assms unfolding sched_part_def sound_as_def by (cases new) (auto intro: le_SucI)

lemma service_call_ok:
  assumes ok: "tower_ok T (bld_config b) limit n x" and n: "n < u64_max"
  shows "tower_ok T (bld_config b) limit (Suc n) (service_call b clk extractor req x)"
proof -
  let ?C = "bld_config b"
  define t where "t = extractor req"
  define task where "task = \<lparr>payload = length (requests x), enqueue_ts = fst (read_clock clk (shared (sch x))),
    deadline = (case deadline_extractor b of None \<Rightarrow> None | Some f \<Rightarrow> f req), prio = Normal, cost = 1\<rparr>"
  define s1 where "s1 = (sch x)\<lparr>shared := snd (read_clock clk (shared (sch x)))\<rparr>"
  have x1: "exec ?C clk LookAtClock (sch x) = (Done, s1)" by (simp add: s1_def)
  from ok have sp: "sched_part ?C n (sch x)" and rp: "requests_part (sch x) (worker x) (requests x)" by (simp_all add: tower_ok_def)
  have sp1: "sched_part ?C n s1" by (rule exec_admin(1) [OF sp n _ x1]) simp
  have rp1: "requests_part s1 (worker x) (requests x)" by (rule requests_admin [OF sp n _ x1 rp]) simp
  from sp1 obtain a d c where ok1: "sched_ok ?C s1" and bk1: "books ?C 0 a d c (shared s1)" and a: "a \<le> n"
    unfolding sched_part_def by blast
  have pl: "payload task = length (requests x)" by (simp add: task_def)
  have call: "service_call b clk extractor req x =
      (case enqueue_now ?C clk t task s1 of
         None \<Rightarrow> x\<lparr>sch := s1, requests := requests x @ [Entering t (policy_wait (backpressure_for ?C t)) (WaitStart task)]\<rparr>
       | Some (r, s2) \<Rightarrow> x\<lparr>sch := s2, requests := requests x @ [call_future (rejection_mapper b) r]\<rparr>)"
    by (simp add: service_call_def Let_def t_def task_def s1_def case_prod_beta split: option.splits)
  show ?thesis
  proof (cases "enqueue_now ?C clk t task s1")
    case None
    have "requests_part s1 (worker x) (requests x @ [Entering t (policy_wait (backpressure_for ?C t)) (WaitStart task)])"
      by (rule requests_enqueue [OF rp1 bk1 sound_as_refl [OF ok1 bk1] pl]) (auto simp: pl)
    with ok sp1 None show ?thesis by (auto simp: call tower_ok_def intro: sched_part_mono)
  next
    case (Some y)
    obtain r s2 where y: "y = (r, s2)" by fastforce
    from a n have "a < u64_max" by simp
    from enqueue_now_sound [OF ok1 bk1 this Some [unfolded y]] obtain V
      where snd: "sound_as ?C clk V a d c t task (accepted_id r) s1 s2" by blast
    have "requests_part s2 (worker x) (requests x @ [call_future (rejection_mapper b) r])"
      by (rule requests_enqueue [OF rp1 bk1 snd pl]) (auto simp: waits_for_call_future)
    moreover have "sched_part ?C (Suc n) s2" by (rule sound_sched_part [OF snd a])
    ultimately show ?thesis using ok Some y by (auto simp: call tower_ok_def waits_for_call_future)
  qed
qed

text \<open>A turn of a call that waits for capacity.\<close>

lemma waiting_turn_task:
  assumes "enqueue_timeout_with_handle C clk t wait w s = (w', s')" and "waiting_task w = Some task"
  shows "waiting_task w' = Some task \<or> (\<exists>r. w' = WaitDone r)"
  using assms
  by (cases w) (auto simp: Let_def enqueue_try_reject_def split: prod.splits if_splits enqueue_attempt.splits)

lemma service_call_turn_ok:
  assumes ok: "tower_ok T (bld_config b) limit n x" and n: "n < u64_max" and i: "i < length (requests x)"
  shows "tower_ok T (bld_config b) limit (Suc n) (service_call_turn b clk i x)"
proof (cases "\<exists>t wait w. requests x ! i = Entering t wait w")
  case False
  then have "service_call_turn b clk i x = x" by (simp add: service_call_turn_def split: request.splits)
  with ok show ?thesis by (auto simp: tower_ok_def intro: sched_part_mono)
next
  case True
  then obtain t wait w where r: "requests x ! i = Entering t wait w" by blast
  let ?C = "bld_config b" and ?rs = "requests x"
  obtain w' s' where call: "enqueue_timeout_with_handle ?C clk t wait w (sch x) = (w', s')" by fastforce
  define r' :: "('b, 'c) request" where
    "r' = (case w' of WaitDone r \<Rightarrow> call_future (rejection_mapper b) r | _ \<Rightarrow> Entering t wait w')"
  have step: "service_call_turn b clk i x = x\<lparr>sch := s', requests := ?rs[i := r']\<rparr>"
    by (simp add: service_call_turn_def r call set_request_def r'_def)
  from ok have sp: "sched_part ?C n (sch x)" and rp: "requests_part (sch x) (worker x) ?rs" by (simp_all add: tower_ok_def)
  have np: "\<not> holds_permit r'" by (simp add: r'_def waits_for_call_future split: waiting_enqueue.split)
  with permits_update [OF i, of r'] r have pe: "permits (?rs[i := r']) = permits ?rs" by simp
  have wt: "\<exists>task. waiting_task w = Some task \<and> payload task = i"
    using rp r i unfolding requests_part_def by blast
  have ent: "\<exists>task. waiting_task v = Some task \<and> payload task = i" if "r' = Entering t' d' v" for t' d' v
  proof -
    have "v = w'" "\<forall>r. w' \<noteq> WaitDone r" using that by (auto simp: r'_def waits_for_call_future split: waiting_enqueue.splits)
    with wt waiting_turn_task [OF call] show ?thesis by blast
  qed
  have goal: "sched_part ?C (Suc n) s' \<and> requests_part s' (worker x) (?rs[i := r'])"
  proof (cases "\<exists>dl task observed. w = WaitTry dl task observed")
    case True
    then obtain dl task observed where w: "w = WaitTry dl task observed" by blast
    obtain at where a: "enqueue_try_reject ?C clk t task (sch x) = (at, s')"
      using call w by (auto split: prod.splits enqueue_attempt.splits)
    from sp obtain a d c where ok1: "sched_ok ?C (sch x)" and bk: "books ?C 0 a d c (shared (sch x))" and an: "a \<le> n"
      unfolding sched_part_def by blast
    from an n have "a < u64_max" by simp
    note snd = enqueue_try_reject_sound [OF ok1 bk this a]
    have pl: "payload task = i" using wt w by simp
    have wf: "waits_for r' k \<longleftrightarrow> attempt_id at = Some k" for k
      using call w a by (cases at) (auto simp: r'_def)
    show ?thesis
    proof
      show "sched_part ?C (Suc n) s'" by (rule sound_sched_part [OF snd an])
      show "requests_part s' (worker x) (?rs[i := r'])"
        by (rule requests_enqueue [OF rp bk snd pl, of _ r']) (use i r wf ent in auto)
    qed
  next
    case False
    have s': "s' = exec_all ?C clk (waiting_enqueue_ops clk t w (sch x)) (sch x)"
      using timed_enqueue.turn_ops [of ?C clk t wait w "sch x"] call by simp
    have "\<forall>e \<in> set (waiting_enqueue_ops clk t w (sch x)). admin_op e" using False by (cases w) auto
    from exec_all_admin [OF sp n this rp, of clk] have a: "sched_part ?C n s'" "requests_part s' (worker x) ?rs"
      by (simp_all add: s')
    have nw: "\<not> waits_for r' k" for k using call False wt
      by (cases w) (auto simp: r'_def Let_def split: prod.splits if_splits)
    have "requests_part s' (worker x) (?rs[i := r'])"
      by (rule requests_update [OF a(2) i]) (use r nw ent np in auto)
    with a(1) show ?thesis by (auto intro: sched_part_mono)
  qed
  with ok pe show ?thesis unfolding step by (simp add: tower_ok_def)
qed

text \<open>The guard: after the cancel the task is not pending, so the request may go.\<close>

lemma cancel_pending: "pending_ids (shared (snd (cancel h s))) = pending_ids (shared s) - {handle_id h}"
  by (simp add: cancel_def take_pending_def Let_def mark_cancelled_def frame_simps)

lemma cancel_slot: "handle_id h \<in> pending_ids (shared s) \<Longrightarrow> slots (shared (snd (cancel h s))) = slots (shared s) - 1"
  by (simp add: cancel_def take_pending_def Let_def mark_cancelled_def frame_simps)

lemma cancel_part:
  assumes sp: "sched_part C n s" and n: "n < u64_max" and rp: "requests_part s w rs" and i: "i < length rs"
    and h: "waits (rs ! i) = Some (h, sent)" and r: "\<And>k. \<not> waits_for r k" "\<And>t d v. r \<noteq> Entering t d v" "\<not> holds_permit r"
  shows "sched_part C n (snd (cancel h s))" and "requests_part (snd (cancel h s)) w (rs[i := r])"
proof -
  obtain out where x: "exec C undefined (Cancel h) s = (out, snd (cancel h s))" by (simp add: case_prod_beta)
  from exec_admin(1) [OF sp n _ x] show "sched_part C n (snd (cancel h s))" by simp
  from requests_admin [OF sp n _ x rp] have rp1: "requests_part (snd (cancel h s)) w rs" by simp
  have "handle_id h \<notin> pending_ids (shared (snd (cancel h s)))"
    by (simp add: cancel_pending)
  moreover have "waits_for (rs ! i) k \<Longrightarrow> k = handle_id h" for k using h by (cases "rs ! i") auto
  ultimately show "requests_part (snd (cancel h s)) w (rs[i := r])"
    by (intro requests_update [OF rp1 i]) (use r in auto)
qed

lemma poll_future_ok:
  assumes T: "tokio_documented T" and ok: "tower_ok T C limit n x" and n: "n < u64_max" and i: "i < length (requests x)"
  shows "tower_ok T C limit n (poll_future T i x)"
proof (cases "waits (requests x ! i)")
  case None
  with ok show ?thesis by (simp add: poll_future_def)
next
  case (Some y)
  obtain h sent where y: "y = (h, sent)" by fastforce
  let ?rs = "requests x"
  from ok have sp: "sched_part C n (sch x)" and rp: "requests_part (sch x) (worker x) ?rs" by (simp_all add: tower_ok_def)
  have r: "?rs ! i = Fresh h sent \<or> ?rs ! i = Queued h sent" using Some y by (cases "?rs ! i") auto
  have pe: "permits (?rs[i := r]) + unit_if sent = permits ?rs + unit_if (holds_permit r)" for r
    using permits_update [OF i, of r] r by auto
  show ?thesis
  proof (cases "rx_result T sent (sender_gone x i)")
    case RxPending
    have "\<forall>k. waits_for (?rs ! i) k = waits_for (Queued h sent) k" "holds_permit (?rs ! i) = sent" using r by auto
    moreover have "\<forall>k. waits_for (?rs ! i) k \<longrightarrow> k \<le> next_task_id (shared (sch x))"
      using rp i nth_mem unfolding requests_part_def by blast
    ultimately have "requests_part (sch x) (worker x) (?rs[i := Queued h sent])"
      by (intro requests_update [OF rp i]) simp_all
    with ok RxPending Some y pe [of "Queued h sent"] show ?thesis
      by (simp add: poll_future_def set_request_def tower_ok_def)
  next
    case RxValue
    then have s: "sent" using oneshot_laws [OF T] by (cases sent) (auto split: if_splits)
    have "requests_part (sch x) (worker x) (?rs[i := Running])"
      by (rule requests_update [OF rp i]) (use r s in auto)
    with ok RxValue Some y s pe [of Running] show ?thesis
      by (simp add: poll_future_def set_request_def tower_ok_def)
  next
    case RxClosed
    then have s: "\<not> sent" using oneshot_laws [OF T] by (cases sent) auto
    note c = cancel_part [OF sp n rp i, of h sent "Answered (Inl PermitError)"]
    from c Some y ok RxClosed s pe [of "Answered (Inl PermitError)"] show ?thesis
      by (simp add: poll_future_def set_request_def guard_cancels_def tower_ok_def)
  qed
qed

lemma inner_reply_ok:
  assumes T: "tokio_documented T" and ok: "tower_ok T C limit n x" and i: "i < length (requests x)"
  shows "tower_ok T C limit n (inner_reply T i reply x)"
proof (cases "requests x ! i = Running")
  case True
  have "requests_part (sch x) (worker x) ((requests x)[i := Answered (map_sum Service id reply)])"
    by (rule requests_update [OF _ i]) (use ok True in \<open>auto simp: tower_ok_def\<close>)
  with ok True permits_update [OF i, of "Answered (map_sum Service id reply)"] semaphore_frame(1) [OF T] show ?thesis
    by (simp add: inner_reply_def release_permit_def set_request_def tower_ok_def)
next
  case False
  with ok show ?thesis by (auto simp: inner_reply_def split: request.splits)
qed

lemma drop_future_ok:
  assumes T: "tokio_documented T" and ok: "tower_ok T C limit n x" and n: "n < u64_max" and i: "i < length (requests x)"
  shows "tower_ok T C limit n (drop_future T i x)"
proof -
  let ?rs = "requests x"
  from ok have sp: "sched_part C n (sch x)" and rp: "requests_part (sch x) (worker x) ?rs" by (simp_all add: tower_ok_def)
  note pe = permits_update [OF i] and rel = semaphore_frame(1) [OF T]
  show ?thesis
  proof (cases "?rs ! i")
    case (Fresh h sent)
    have "\<forall>k. waits_for (?rs ! i) k \<longrightarrow> k \<le> next_task_id (shared (sch x))"
      using rp i nth_mem unfolding requests_part_def by blast
    then have "requests_part (sch x) (worker x) (?rs[i := (if sent then Abandoned else AbandonedFresh h)])"
      using Fresh by (intro requests_update [OF rp i]) (auto split: if_splits)
    with ok Fresh pe [of "AbandonedFresh h"] pe [of Abandoned] rel show ?thesis
      by (auto simp: drop_future_def Let_def set_request_def release_permit_def tower_ok_def)
  next
    case (Queued h sent)
    from cancel_part [OF sp n rp i, of h sent Abandoned] Queued ok pe [of Abandoned] rel show ?thesis
      by (auto simp: drop_future_def Let_def set_request_def release_permit_def guard_cancels_def tower_ok_def)
  next
    case Running
    have "requests_part (sch x) (worker x) (?rs[i := Abandoned])"
      by (rule requests_update [OF rp i]) (use Running in auto)
    with ok Running pe [of Abandoned] rel show ?thesis
      by (simp add: drop_future_def set_request_def release_permit_def tower_ok_def)
  qed (use ok in \<open>simp_all add: drop_future_def\<close>)
qed

text \<open>The worker.\<close>

lemma worker_free: "requests_part s w rs \<Longrightarrow> (\<And>i. v \<noteq> Holding i) \<Longrightarrow> requests_part s v rs"
  unfolding requests_part_def by blast

lemma worker_turn_ok:
  assumes T: "tokio_documented T" and ok: "tower_ok T C limit n x" and n: "n < u64_max"
  shows "tower_ok T C limit n (worker_turn T clk x)"
proof -
  let ?rs = "requests x" and ?s = "sch x"
  from ok have sp: "sched_part C n ?s" and rp: "requests_part ?s (worker x) ?rs"
    and av: "sem_available T (in_flight x) + permits ?rs = limit" by (simp_all add: tower_ok_def)
  show ?thesis
  proof (cases "worker x")
    case WorkerTop
    with ok worker_free [OF rp] show ?thesis by (auto simp: worker_turn_def tower_ok_def)
  next
    case (Serving c)
    obtain c' s' where call: "dequeue_blocking clk c ?s = (c', s')" by fastforce
    have "s' = exec_all C clk (consumer_ops c ?s) ?s" using blocking.turn_ops [of clk c ?s C] call by simp
    moreover have "\<forall>e \<in> set (consumer_ops c ?s). admin_op e" by (cases c) auto
    ultimately have s': "sched_part C n s'" "requests_part s' (worker x) ?rs"
      using exec_all_admin [OF sp n _ rp] by simp_all
    show ?thesis
    proof (cases "\<exists>t task. c' = Returned (DequeuedTask t task)")
      case False
      define v where "v = (case c' of Returned (DequeuedTask t task) \<Rightarrow> Holding (payload task)
        | Returned Closed \<Rightarrow> Stopped | Returned Empty \<Rightarrow> WorkerTop | _ \<Rightarrow> Serving c')"
      have v: "v \<noteq> Holding i" "v \<noteq> Serving (Returned r)" for i r
        using False by (auto simp: v_def split: consumer.splits dequeue_result.splits)
      have "requests_part s' v ?rs" by (rule worker_free [OF s'(2) v(1)])
      with ok s'(1) Serving call v(2) show ?thesis
        by (simp add: worker_turn_def tower_ok_def flip: v_def)
    next
      case True
      then obtain t task where c': "c' = Returned (DequeuedTask t task)" by blast
      have "\<forall>r. c \<noteq> Returned r" using ok Serving by (auto simp: tower_ok_def)
      with call c' have d: "try_dequeue clk ?s = (DequeuedTask t task, s')"
        by (cases c) (auto simp: Let_def split: prod.splits dequeue_result.splits if_splits)
      from sp have ok1: "sched_ok C ?s" by (simp add: sched_part_def)
      from delivered_entry [OF ok1 d] obtain p pre e where
        e: "sched_queue ?s t p = pre @ e # sched_queue s' t p" "entry_task e = task"
        "entry_id e \<in> pending_ids (shared ?s)" "entry_id e \<notin> pending_ids (shared s')" by blast
      from e(1) have "e \<in> set (sched_queue ?s t p)" by simp
      with rp e(2,3) have l: "payload task < length ?rs" "waits_for (?rs ! payload task) (entry_id e)"
        unfolding requests_part_def linked_def by blast+
      moreover have "\<not> holds_permit (?rs ! payload task)" "\<forall>t d v. ?rs ! payload task \<noteq> Entering t d v"
        using l(2) by (cases "?rs ! payload task"; simp)+
      moreover have "k \<noteq> entry_id e" if "k \<in> pending_ids (shared s')" for k using that e(4) by blast
      ultimately have "requests_part s' (Holding (payload task)) ?rs"
        using s'(2) waits_for_unique [OF l(2)] unfolding requests_part_def by blast
      with ok s'(1) Serving call c' show ?thesis by (simp add: worker_turn_def tower_ok_def)
    qed
  next
    case (Holding i)
    from rp Holding have i: "i < length ?rs" and nw: "\<forall>k \<in> pending_ids (shared ?s). \<not> waits_for (?rs ! i) k"
      unfolding requests_part_def by blast+
    show ?thesis
    proof (cases "sem_acquire T (in_flight x)")
      case NoPermit
      with ok Holding show ?thesis by (simp add: worker_turn_def)
    next
      case SemaphoreClosed
      with ok Holding worker_free [OF rp, of Stopped] show ?thesis by (auto simp: worker_turn_def tower_ok_def)
    next
      case (Permit m)
      from acquire_documented(1) [OF T this] have m: "sem_available T (in_flight x) = Suc (sem_available T m)" by blast
      have top: "requests_part ?s WorkerTop ?rs" by (rule worker_free [OF rp]) simp
      show ?thesis
      proof (cases "waits (?rs ! i)")
        case None
        with ok Holding Permit m top av semaphore_frame(1) [OF T] oneshot_laws(1) [OF T] show ?thesis
          by (simp add: worker_turn_def tower_ok_def release_permit_def)
      next
        case (Some y)
        define r where "r = (case ?rs ! i of Fresh h sent \<Rightarrow> Fresh h True | Queued h sent \<Rightarrow> Queued h True | r \<Rightarrow> r)"
        have r: "holds_permit r" "\<not> waits_for r k" "r \<noteq> Entering t d v" for k t d v
          using Some by (cases "?rs ! i"; simp add: r_def)+
        have "requests_part ?s WorkerTop (?rs[i := r])"
          by (rule requests_update [OF top i]) (use r nw in auto)
        moreover have "\<not> holds_permit (?rs ! i)" using rp Holding unfolding requests_part_def by blast
        ultimately show ?thesis
          using ok Holding Permit m av Some permits_update [OF i, of r] r(1) oneshot_laws(1) [OF T]
          by (simp add: worker_turn_def tower_ok_def set_request_def flip: r_def)
      qed
    qed
  next
    case Stopped
    with ok show ?thesis by (simp add: worker_turn_def)
  qed
qed

lemma tower_ok_mono: "tower_ok T C limit n x \<Longrightarrow> n \<le> n' \<Longrightarrow> tower_ok T C limit n' x"
  by (auto simp: tower_ok_def intro: sched_part_mono)

lemma drop_worker_ok:
  assumes T: "tokio_documented T" and ok: "tower_ok T C limit n x" and n: "n < u64_max"
  shows "tower_ok T C limit n (drop_worker T x)"
proof -
  from ok have sp: "sched_part C n (sch x)" and rp: "requests_part (sch x) (worker x) (requests x)" by (simp_all add: tower_ok_def)
  have x: "exec C undefined (Close Immediate) (sch x) = (Done, close_immediate (sch x))" by (simp add: close_immediate_def)
  from exec_admin(1) [OF sp n _ x] requests_admin [OF sp n _ x rp] ok semaphore_frame(2) [OF T] show ?thesis
    by (simp add: drop_worker_def tower_ok_def)
qed

lemma tower_step_ok:
  fixes T :: "'m tokio" and x :: "('m, 'r, 'e) layer"
  assumes T: "tokio_documented T" and ok: "tower_ok T (bld_config b) limit n x" and n: "n < u64_max"
  shows "tower_ok T (bld_config b) limit (Suc n) (tower_step T b clk extractor ev x)"
proof -
  have up: "tower_ok T (bld_config b) limit n y \<Longrightarrow> tower_ok T (bld_config b) limit (Suc n) y" for y :: "('m, 'r, 'e) layer"
    by (erule tower_ok_mono) simp
  show ?thesis
  proof (cases ev)
    case (Admin e)
    from ok have sp: "sched_part (bld_config b) n (sch x)" and rp: "requests_part (sch x) (worker x) (requests x)"
      by (simp_all add: tower_ok_def)
    obtain out s' where e: "exec (bld_config b) clk e (sch x) = (out, s')" by fastforce
    have "tower_ok T (bld_config b) limit n (tower_step T b clk extractor ev x)"
      using exec_admin(1) [OF sp n _ e] requests_admin [OF sp n _ e rp] ok Admin e
      by (cases "admin_op e") (simp_all add: tower_ok_def)
    then show ?thesis by (rule up)
  qed (simp_all add: up [OF ok] service_call_ok [OF ok n] service_call_turn_ok [OF ok n]
      up [OF poll_future_ok [OF T ok n]] up [OF inner_reply_ok [OF T ok]] up [OF drop_future_ok [OF T ok n]]
      up [OF worker_turn_ok [OF T ok n]] up [OF drop_worker_ok [OF T ok n]])
qed

lemma build_ok:
  assumes T: "tokio_documented T" and "build T b = Some x"
  shows "tower_ok T (bld_config b) (max (unat (in_flight_limit b)) 1) 0 x"
proof -
  from assms(2) obtain m where m: "sem_new T (max (unat (in_flight_limit b)) 1) = Some m"
    and x: "x = \<lparr>sch = scheduler_new (bld_config b), in_flight = m, max_in_flight = max (unat (in_flight_limit b)) 1,
      worker = WorkerTop, worker_shutdown = False, requests = []\<rparr>"
    by (auto simp: build_def layer_new_def split: option.splits)
  have "sched_part (bld_config b) 0 (scheduler_new (bld_config b) :: nat sched)"
    using scheduler_new_ok scheduler_new_books unfolding sched_part_def by blast
  moreover have "sched_queue (scheduler_new (bld_config b) :: nat sched) t p = []" for t p
    by (simp add: scheduler_new_def sched_queue_def shard_index_def Let_def)
  then have "linked (scheduler_new (bld_config b)) []" by (simp add: linked_def)
  ultimately show ?thesis using new_documented(2) [OF T m]
    by (simp add: tower_ok_def requests_part_def one_waiter_def permits_def x)
qed

text \<open>The layer from its construction on, as a counted system.\<close>

definition tower_inv :: "'m tokio \<Rightarrow> 'q firq \<Rightarrow> nat \<Rightarrow> ('m, 'r, 'e) layer \<Rightarrow> bool" where
  "tower_inv T b n x \<longleftrightarrow> (tokio_documented T \<and> build T b \<noteq> (None :: ('m, 'r, 'e) layer option) \<longrightarrow>
     tower_ok T (bld_config b) (max (unat (in_flight_limit b)) 1) n x)"

interpretation tower: counted_system "the (build T b)" "tower_step T b clk extractor" "tower_inv T b" u64_max
  for T b clk extractor
proof unfold_locales
  show "tower_inv T b 0 (the (build T b))" unfolding tower_inv_def by (metis build_ok option.collapse)
  show "tower_inv T b n x \<Longrightarrow> n < u64_max \<Longrightarrow> tower_inv T b (Suc n) (tower_step T b clk extractor ev x)" for n x ev
    using tower_step_ok unfolding tower_inv_def by blast
qed

lemma tower_reached:
  assumes "tokio_documented T" and "build T b = Some x0" and "length evs \<le> u64_max"
    and "tower_run T b clk extractor evs x0 = x"
  shows "tower_ok T (bld_config b) (max (unat (in_flight_limit b)) 1) (length evs) x"
  using tower.inv_run [OF assms(3), of T b clk extractor] assms(1,2,4) by (auto simp: tower_inv_def tower_run_def)

subsection \<open>What the layer guarantees\<close>

text \<open>
  C26: The handlers in flight never exceed the configured limit: in any order of arrivals,
  polls, answers, dropped futures and worker turns, the permits out are those of the running
  handlers and those on their way to a future, they are what \<open>in_flight_active\<close> reports, and
  there are at most \<open>in_flight_limit\<close> of them (one, if that is 0).
\<close>

theorem in_flight_bounded:
  assumes "tokio_documented T" and "build T b = Some x0" and "length evs \<le> u64_max"
    and "tower_run T b clk extractor evs x0 = x"
  shows "running (requests x) \<le> in_flight_active T x \<and> in_flight_active T x = permits (requests x) \<and>
    in_flight_active T x \<le> max (unat (in_flight_limit b)) 1"
  using tower_reached [OF assms] running_le [of "requests x"]
  by (auto simp: tower_ok_def in_flight_active_def)

text \<open>
  C27: The scheduler holds no orphans: every pending task belongs to exactly one request that
  waits for it, or that was dropped before its future was ever polled; so the slots in use
  are at most as many as those requests.
\<close>

theorem no_orphan_tasks:
  fixes x :: "('m, 'r, 'e) layer"
  assumes "tokio_documented T" and "build T b = Some x0" and "length evs \<le> u64_max"
    and "tower_run T b clk extractor evs x0 = x"
  shows "(\<forall>k \<in> pending_ids (shared (sch x)). \<exists>!i. i < length (requests x) \<and> waits_for (requests x ! i) k) \<and>
    queue_len_estimate (stats (shared (sch x))) \<le> length (filter (\<lambda>r. \<exists>k. waits_for r k) (requests x))"
proof -
  let ?rs = "requests x" and ?P = "pending_ids (shared (sch x))"
  from tower_reached [OF assms] have sp: "sched_part (bld_config b) (length evs) (sch x)"
    and rp: "requests_part (sch x) (worker x) ?rs" by (simp_all add: tower_ok_def)
  from sp have le: "ledger (sch x)" by (simp add: sched_part_def sched_ok_def)
  have ex: "\<exists>i < length ?rs. waits_for (?rs ! i) k" if "k \<in> ?P" for k
  proof -
    from le that have "k \<in> (\<Union>t p. set (ids (sched_queue (sch x) t p)))" unfolding ledger_def by blast
    then obtain t p e where "e \<in> set (sched_queue (sch x) t p)" "entry_id e = k" by auto
    with that rp show ?thesis unfolding requests_part_def linked_def by blast
  qed
  have one: "\<exists>!i. i < length ?rs \<and> waits_for (?rs ! i) k" if "k \<in> ?P" for k
    using ex [OF that] rp unfolding requests_part_def one_waiter_def by blast
  define w where "w r = (SOME k. waits_for r k)" for r :: "('r, 'e) request"
  have "?P \<subseteq> w ` set (filter (\<lambda>r. \<exists>k. waits_for r k) ?rs)"
  proof
    fix k assume "k \<in> ?P"
    with ex obtain i where i: "i < length ?rs" "waits_for (?rs ! i) k" by blast
    then have "w (?rs ! i) = k" unfolding w_def by (metis someI waits_for_unique)
    with i show "k \<in> w ` set (filter (\<lambda>r. \<exists>k. waits_for r k) ?rs)" by force
  qed
  then have "card ?P \<le> length (filter (\<lambda>r. \<exists>k. waits_for r k) ?rs)"
    by (meson List.finite_set card_image_le card_length card_mono finite_imageI le_trans)
  moreover have "slots (shared (sch x)) = card ?P" using sp by (auto simp: sched_part_def books_def)
  ultimately show ?thesis using one by simp
qed

text \<open>
  C28: A future answers \<open>PermitError\<close> only when its turn will not come: no permit was sent,
  its task is no longer pending (it has expired, was evicted or cancelled, or the worker has
  stopped with it), and the worker does not hold it.
\<close>

theorem permit_error_cause:
  assumes "tokio_documented T" and "build T b = Some x0" and "length evs \<le> u64_max"
    and "tower_run T b clk extractor evs x0 = x" and "i < length (requests x)" and "waits (requests x ! i) = Some (h, sent)"
    and "requests (poll_future T i x) ! i = Answered (Inl PermitError)"
  shows "\<not> sent \<and> handle_id h \<notin> pending_ids (shared (sch x)) \<and> worker x \<noteq> Holding i"
proof -
  from tower_reached [OF assms(1-4)] have sp: "sched_part (bld_config b) (length evs) (sch x)"
    and rp: "requests_part (sch x) (worker x) (requests x)" by (simp_all add: tower_ok_def)
  from rp have li: "linked (sch x) (requests x)" and one: "one_waiter (requests x)" by (simp_all add: requests_part_def)
  from sp have le: "ledger (sch x)" by (simp add: sched_part_def sched_ok_def)
  have "rx_result T sent (sender_gone x i) = RxClosed"
    using assms(5-7) by (cases "rx_result T sent (sender_gone x i)") (auto simp: poll_future_def set_request_def)
  note r = this and l = oneshot_laws(2,3) [OF assms(1), of "sender_gone x i"]
  from r l(1) have s1: "\<not> sent" by (cases sent) simp_all
  with r l(2) have s2: "sender_gone x i" by (cases "sender_gone x i") simp_all
  note s = s1 s2
  have "handle_id h \<notin> pending_ids (shared (sch x))"
  proof
    assume p: "handle_id h \<in> pending_ids (shared (sch x))"
    with le have "handle_id h \<in> (\<Union>t p. set (ids (sched_queue (sch x) t p)))" unfolding ledger_def by blast
    then obtain t q e where e: "e \<in> set (sched_queue (sch x) t q)" "entry_id e = handle_id h" by auto
    with p li have l: "payload (entry_task e) < length (requests x)" "waits_for (requests x ! payload (entry_task e)) (handle_id h)"
      unfolding linked_def by metis+
    have "waits_for (requests x ! i) (handle_id h)" using assms(6) s(1) by (cases "requests x ! i") auto
    with l assms(5) one have "payload (entry_task e) = i" unfolding one_waiter_def by metis
    with e(1) s(2) show False unfolding sender_gone_def by blast
  qed
  with s show ?thesis by (simp add: sender_gone_def)
qed

text \<open>
  C29: Dropping a future cancels its task when it has been polled: the task is not pending any
  more, and its slot is free again. A future that is dropped before its first poll has no
  guard yet and leaves the scheduler as it is.
\<close>

theorem drop_cancels:
  assumes "tokio_documented T" and "build T b = Some x0" and "length evs \<le> u64_max"
    and "tower_run T b clk extractor evs x0 = x"
  shows "(requests x ! i = Queued h False \<longrightarrow>
      pending_ids (shared (sch (drop_future T i x))) = pending_ids (shared (sch x)) - {handle_id h} \<and>
      (handle_id h \<in> pending_ids (shared (sch x)) \<longrightarrow>
        Suc (queue_len_estimate (stats (shared (sch (drop_future T i x))))) = queue_len_estimate (stats (shared (sch x))))) \<and>
    (requests x ! i = Fresh h False \<longrightarrow> sch (drop_future T i x) = sch x)"
proof -
  from tower_reached [OF assms] have "sched_part (bld_config b) (length evs) (sch x)" by (simp add: tower_ok_def)
  then obtain a d c where bk: "books (bld_config b) 0 a d c (shared (sch x))" unfolding sched_part_def by blast
  have "0 < slots (shared (sch x))" if "k \<in> pending_ids (shared (sch x))" for k
    using bk that by (auto simp: books_def card_gt_0_iff)
  moreover have "sch (drop_future T i x) = snd (cancel h (sch x))" if "requests x ! i = Queued h False"
    using that by (simp add: drop_future_def set_request_def guard_cancels_def)
  moreover note cancel_pending [of h "sch x"] cancel_slot [of h "sch x"]
  moreover have "sch (drop_future T i x) = sch x" if "requests x ! i = Fresh h False"
    using that by (simp add: drop_future_def set_request_def)
  ultimately show ?thesis by simp
qed

subsection \<open>Witnesses\<close>

definition late_firq :: "nat firq" where
  "late_firq = with_deadline_extractor Some (\<lambda>req. Some 50) firq_new"

definition demo_extractor :: "nat \<Rightarrow> tenant_key" where
  "demo_extractor req = TenantKey 7"

abbreviation demo_tower :: "nat firq \<Rightarrow> (nat, nat, nat) tower_event list \<Rightarrow> (nat \<times> bool, nat, nat) layer" where
  "demo_tower b evs \<equiv> tower_run counting_tokio b demo_clock demo_extractor evs (the (build counting_tokio b))"

lemmas eval_tower = eval tower_run_def build_def layer_new_def firq_new_def late_firq_def with_deadline_extractor_def
  counting_tokio_def MAX_PERMITS_def service_call_def worker_turn_def signal_current_def demo_extractor_def
  set_request_def release_permit_def poll_future_def drop_future_def guard_cancels_def in_flight_active_def
  DEQUEUE_BLOCKING_BACKOFF_SPINS_def

lemma build_default: "build counting_tokio (firq_new :: 'q firq) \<noteq> (None :: (nat \<times> bool, 'r, 'e) layer option)"
  "build counting_tokio late_firq \<noteq> (None :: (nat \<times> bool, 'r, 'e) layer option)"
  by (simp_all add: build_def layer_new_def firq_new_def late_firq_def with_deadline_extractor_def counting_tokio_def MAX_PERMITS_def)

theorem in_flight_bounded_witness:
  "\<exists>x. demo_tower firq_new ([Arrive 0, WorkerTurn, WorkerTurn, WorkerTurn, WorkerTurn, WorkerTurn, WorkerTurn, WorkerTurn,
      WorkerTurn, Poll 0]) = x \<and> requests x = [Running] \<and> in_flight_active counting_tokio x = 1 \<and>
    in_flight_active counting_tokio x \<le> 256"
proof -
  let ?evs = "[Arrive 0, WorkerTurn, WorkerTurn, WorkerTurn, WorkerTurn, WorkerTurn, WorkerTurn, WorkerTurn, WorkerTurn, Poll 0]
    :: (nat, nat, nat) tower_event list"
  obtain x where x: "demo_tower firq_new ?evs = x" by blast
  from build_default obtain x0 where x0: "build counting_tokio (firq_new :: nat firq) = Some (x0 :: (nat \<times> bool, nat, nat) layer)" by blast
  have b: "max (unat (in_flight_limit (firq_new :: nat firq))) 1 = 256" by (simp add: firq_new_def)
  have r: "requests x = [Running]" using x by (auto simp: eval_tower)
  from in_flight_bounded [OF counting_tokio_documented x0, of ?evs demo_clock demo_extractor x, unfolded b] x x0 r show ?thesis
    by (auto simp: permits_def)
qed

theorem no_orphan_tasks_witness:
  "\<exists>x. demo_tower firq_new [Arrive 0, Arrive 1, DropFuture 1] = x \<and>
    pending_ids (shared (sch x)) = {1, 2} \<and> queue_len_estimate (stats (shared (sch x))) \<le> 2 \<and>
    requests x = [Fresh (TaskHandle 1) False, AbandonedFresh (TaskHandle 2)]"
proof -
  let ?evs = "[Arrive 0, Arrive 1, DropFuture 1] :: (nat, nat, nat) tower_event list"
  obtain x where x: "demo_tower firq_new ?evs = x" by blast
  from build_default obtain x0 where x0: "build counting_tokio (firq_new :: nat firq) = Some (x0 :: (nat \<times> bool, nat, nat) layer)" by blast
  have r: "requests x = [Fresh (TaskHandle 1) False, AbandonedFresh (TaskHandle 2)]" "pending_ids (shared (sch x)) = {1, 2}"
    using x by (auto simp: eval_tower)
  have "queue_len_estimate (stats (shared (sch x))) \<le> length (filter (\<lambda>r. \<exists>k. waits_for r k) (requests x))"
    using no_orphan_tasks [OF counting_tokio_documented x0, of ?evs demo_clock demo_extractor x] x x0 by simp
  also have "\<dots> \<le> length (requests x)" by (rule length_filter_le)
  finally show ?thesis using r x by simp
qed

theorem permit_error_cause_witness:
  "\<exists>x. demo_tower late_firq [Arrive 0, WorkerTurn, WorkerTurn, WorkerTurn] = x \<and>
    requests (poll_future counting_tokio 0 x) = [Answered (Inl PermitError)] \<and> 1 \<notin> pending_ids (shared (sch x))"
proof -
  let ?evs = "[Arrive 0, WorkerTurn, WorkerTurn, WorkerTurn] :: (nat, nat, nat) tower_event list"
  obtain x where x: "demo_tower late_firq ?evs = x" by blast
  from build_default obtain x0 where x0: "build counting_tokio late_firq = Some (x0 :: (nat \<times> bool, nat, nat) layer)" by blast
  have r: "requests x = [Fresh (TaskHandle 1) False]" using x by (auto simp: eval_tower)
  have p: "requests (poll_future counting_tokio 0 x) = [Answered (Inl PermitError)]"
    using x by (auto simp: eval_tower sender_gone_def sched_queue_def squeue_def)
  have "requests (poll_future counting_tokio 0 x) ! 0 = Answered (Inl PermitError)" using p by simp
  from permit_error_cause [OF counting_tokio_documented x0, of ?evs demo_clock demo_extractor x 0 "TaskHandle 1" False, OF _ _ _ _ this]
    x x0 r p show ?thesis by simp
qed

theorem drop_cancels_witness:
  "\<exists>x. demo_tower firq_new [Arrive 0, Poll 0] = x \<and> requests x = [Queued (TaskHandle 1) False] \<and>
    pending_ids (shared (sch x)) = {1} \<and> pending_ids (shared (sch (drop_future counting_tokio 0 x))) = {}"
proof -
  let ?evs = "[Arrive 0, Poll 0] :: (nat, nat, nat) tower_event list"
  obtain x where x: "demo_tower firq_new ?evs = x" by blast
  from build_default obtain x0 where x0: "build counting_tokio (firq_new :: nat firq) = Some (x0 :: (nat \<times> bool, nat, nat) layer)" by blast
  obtain y where y: "demo_tower firq_new [Arrive 0] = y" by blast
  have yr: "requests y = [Fresh (TaskHandle 1) False]" "pending_ids (shared (sch y)) = {1}" using y by (auto simp: eval_tower)
  have "sched_queue (sch y) tenant7 Normal = [\<lparr>entry_id = 1, entry_task = \<lparr>payload = 0, enqueue_ts = 100, deadline = None,
      prio = Normal, cost = 1\<rparr>\<rparr>]" using y by (auto simp: eval_tower sched_queue_def squeue_def)
  then have "\<exists>e \<in> set (sched_queue (sch y) tenant7 Normal). payload (entry_task e) = 0" by simp
  then have "\<not> sender_gone y 0" unfolding sender_gone_def by blast
  then have "poll_future counting_tokio 0 y = set_request 0 (Queued (TaskHandle 1) False) y"
    by (simp add: poll_future_def yr) (simp add: counting_tokio_def)
  moreover have "x = poll_future counting_tokio 0 y" using x y yr by (auto simp: tower_run_def)
  ultimately have p: "pending_ids (shared (sch x)) = {1}" and r: "requests x = [Queued (TaskHandle 1) False]"
    using yr by (simp_all add: set_request_def)
  from drop_cancels [OF counting_tokio_documented x0, of ?evs demo_clock demo_extractor x 0 "TaskHandle 1"] x x0 r p show ?thesis by simp
qed

end
