(* ===== verification/Async.thy ===== *)
theory Async
  imports Timed_Calls Tokio "HOL-Library.Multiset" "HOL-Library.Sublist"
begin

text \<open>
  The crate \<open>firq-async\<close>: the wrapper around the scheduler, the stream and receiver that run
  each dequeue on a pool thread, the receiver with a worker thread of its own, and the
  dispatcher. Each is a system of steps over the scheduler; \<open>taken\<close> and the like record, for
  the statements only, what was taken out of the scheduler and what reached the consumer.
\<close>

subsection \<open>\<open>AsyncScheduler\<close>\<close>

text \<open>The wrapper shares the scheduler, so its state is the scheduler's.\<close>

type_synonym 'a async_scheduler = "'a sched"

definition async_enqueue_with_handle :: "config \<Rightarrow> clock \<Rightarrow> tenant_key \<Rightarrow> 'a task \<Rightarrow> 'a async_scheduler \<Rightarrow>
    (enqueue_with_handle_result \<times> 'a async_scheduler) option" where
  "async_enqueue_with_handle C clk t task s = enqueue_now C clk t task s"

definition async_try_dequeue :: "clock \<Rightarrow> 'a async_scheduler \<Rightarrow> 'a dequeue_result \<times> 'a async_scheduler" where
  "async_try_dequeue clk s = try_dequeue clk s"

definition async_cancel :: "task_handle \<Rightarrow> 'a async_scheduler \<Rightarrow> cancel_result \<times> 'a async_scheduler" where
  "async_cancel h s = cancel h s"

definition async_close :: "'a async_scheduler \<Rightarrow> 'a async_scheduler" where
  "async_close s = close_immediate s"

definition async_close_with_mode :: "close_mode \<Rightarrow> 'a async_scheduler \<Rightarrow> 'a async_scheduler" where
  "async_close_with_mode mode s = close_with_mode mode s"

subsection \<open>One dequeue on a pool thread\<close>

type_synonym 'a dequeue_item = "tenant_key \<times> 'a task"

text \<open>
  \<open>dequeue_async\<close>: \<open>dequeue_blocking\<close> on a thread of the blocking pool, or a join error. The
  result once there is one; a join error counts as \<open>Closed\<close>.
\<close>

datatype 'a blocking_call = InPool "'a consumer" | JoinError

fun dequeue_async :: "'a blocking_call \<Rightarrow> 'a dequeue_result option" where
  "dequeue_async (InPool (Returned r)) = Some r"
| "dequeue_async (InPool c) = None"
| "dequeue_async JoinError = Some Closed"

fun item_of :: "'a blocking_call \<Rightarrow> 'a dequeue_item list" where
  "item_of (InPool (Returned (DequeuedTask t task))) = [(t, task)]"
| "item_of b = []"

text \<open>A turn of the pool thread; the list is what it took out of the scheduler.\<close>

fun pool_turn :: "clock \<Rightarrow> 'a blocking_call \<Rightarrow> 'a sched \<Rightarrow> 'a blocking_call \<times> 'a dequeue_item list \<times> 'a sched" where
  "pool_turn clk (InPool (Returned r)) s = (InPool (Returned r), [], s)"
| "pool_turn clk (InPool c) s =
    (let (c', s') = dequeue_blocking clk c s in (InPool c', item_of (InPool c'), s'))"
| "pool_turn clk JoinError s = (JoinError, [], s)"

definition pool_panics :: "'a blocking_call \<Rightarrow> 'a blocking_call" where
  "pool_panics b = (if dequeue_async b = None then JoinError else b)"

subsection \<open>\<open>AsyncStream\<close> and \<open>AsyncReceiver\<close>\<close>

datatype 'a polled = PollPending | PollWoken | PollReady "'a dequeue_item option"

text \<open>
  \<open>AsyncStream::poll_next\<close> on its field \<open>pending\<close>. \<open>PollWoken\<close> is \<open>Poll::Pending\<close> after the
  stream has woken its own task.
\<close>

definition poll_next :: "'a blocking_call option \<Rightarrow> 'a blocking_call option \<times> 'a polled" where
  "poll_next pending =
    (let call = (case pending of None \<Rightarrow> InPool (Begin 0) | Some call \<Rightarrow> call)
     in case dequeue_async call of
          None \<Rightarrow> (Some call, PollPending)
        | Some (DequeuedTask t task) \<Rightarrow> (None, PollReady (Some (t, task)))
        | Some Closed \<Rightarrow> (None, PollReady None)
        | Some Empty \<Rightarrow> (None, PollWoken))"

text \<open>
  A poll of the future of \<open>AsyncReceiver::recv\<close>: the call it awaits, in its loop; an \<open>Empty\<close>
  answer yields to the runtime and goes round.
\<close>

fun recv_poll :: "'a blocking_call option \<Rightarrow> 'a blocking_call option \<times> 'a polled" where
  "recv_poll None = (Some (InPool (Begin 0)), PollPending)"
| "recv_poll (Some call) =
    (case dequeue_async call of
       None \<Rightarrow> (Some call, PollPending)
     | Some (DequeuedTask t task) \<Rightarrow> (None, PollReady (Some (t, task)))
     | Some Closed \<Rightarrow> (None, PollReady None)
     | Some Empty \<Rightarrow> (None, PollWoken))"

lemma recv_poll_next: "recv_poll pending = poll_next pending"
  by (cases pending) (simp_all add: poll_next_def)

text \<open>
  The stream with its threads. A dropped stream or \<open>recv\<close> future drops the join handle, which
  detaches the thread: it goes on and its result goes nowhere.
\<close>

record 'a streaming =
  stream_sched :: "'a sched"
  stream_pending :: "'a blocking_call option"
  detached :: "'a blocking_call list"
  taken :: "'a dequeue_item list"
  yielded :: "'a dequeue_item list"

datatype 'a stream_event =
    PollStream
  | PoolTurn
  | PoolPanic
  | DropCall
  | DetachedTurn nat
  | Elsewhere "'a op"

definition stream_new :: "'a sched \<Rightarrow> 'a streaming" where
  "stream_new s = \<lparr>stream_sched = s, stream_pending = None, detached = [], taken = [], yielded = []\<rparr>"

fun stream_step :: "config \<Rightarrow> clock \<Rightarrow> 'a stream_event \<Rightarrow> 'a streaming \<Rightarrow> 'a streaming" where
  "stream_step C clk PollStream x =
    (let (pending, r) = poll_next (stream_pending x)
     in x\<lparr>stream_pending := pending,
          yielded := yielded x @ (case r of PollReady (Some item) \<Rightarrow> [item] | _ \<Rightarrow> [])\<rparr>)"
| "stream_step C clk PoolTurn x =
    (case stream_pending x of
       None \<Rightarrow> x
     | Some b \<Rightarrow> let (b', got, s') = pool_turn clk b (stream_sched x)
               in x\<lparr>stream_sched := s', stream_pending := Some b', taken := taken x @ got\<rparr>)"
| "stream_step C clk PoolPanic x = x\<lparr>stream_pending := map_option pool_panics (stream_pending x)\<rparr>"
| "stream_step C clk DropCall x =
    (case stream_pending x of
       None \<Rightarrow> x
     | Some b \<Rightarrow> x\<lparr>stream_pending := None, detached := detached x @ [b]\<rparr>)"
| "stream_step C clk (DetachedTurn i) x =
    (if i < length (detached x) then
       let (b', got, s') = pool_turn clk (detached x ! i) (stream_sched x)
       in x\<lparr>stream_sched := s', detached := (detached x)[i := b'], taken := taken x @ got\<rparr>
     else x)"
| "stream_step C clk (Elsewhere e) x = x\<lparr>stream_sched := snd (exec C clk e (stream_sched x))\<rparr>"

definition stream_run :: "config \<Rightarrow> clock \<Rightarrow> 'a stream_event list \<Rightarrow> 'a streaming \<Rightarrow> 'a streaming" where
  "stream_run C clk evs x = fold (stream_step C clk) evs x"

definition ready :: "'a streaming \<Rightarrow> 'a dequeue_item list" where
  "ready x = (case stream_pending x of None \<Rightarrow> [] | Some b \<Rightarrow> item_of b)"

definition lost :: "'a streaming \<Rightarrow> 'a dequeue_item list" where
  "lost x = concat (map item_of (detached x))"

definition stream_inv :: "bool \<Rightarrow> 'a streaming \<Rightarrow> bool" where
  "stream_inv kept x \<longleftrightarrow> subseq (yielded x @ ready x) (taken x) \<and>
     mset (taken x) = mset (yielded x) + mset (ready x) + mset (lost x) \<and>
     (kept \<longrightarrow> detached x = [] \<and> taken x = yielded x @ ready x)"

lemma item_of_result:
  "item_of b = (case dequeue_async b of Some (DequeuedTask t task) \<Rightarrow> [(t, task)] | _ \<Rightarrow> [])"
proof (cases b rule: dequeue_async.cases)
  case (1 r)
  then show ?thesis by (cases r) simp_all
qed simp_all

lemma poll_next_items:
  assumes "poll_next pending = (pending', r)"
  shows "(case r of PollReady (Some item) \<Rightarrow> [item] | _ \<Rightarrow> []) @ (case pending' of None \<Rightarrow> [] | Some b \<Rightarrow> item_of b) =
    (case pending of None \<Rightarrow> [] | Some b \<Rightarrow> item_of b)"
proof (cases pending)
  case None
  with assms show ?thesis by (auto simp: poll_next_def)
next
  case (Some b)
  show ?thesis
  proof (cases "dequeue_async b")
    case None
    with assms Some show ?thesis by (auto simp: poll_next_def)
  next
    case (Some v)
    with assms \<open>pending = Some b\<close> show ?thesis by (cases v) (auto simp: poll_next_def item_of_result)
  qed
qed

lemma pool_turn_items:
  assumes "pool_turn clk b s = (b', got, s')"
  shows "item_of b' = item_of b @ got"
proof (cases "dequeue_async b")
  case None
  then have "item_of b = []" by (cases b rule: dequeue_async.cases) auto
  moreover from None assms have "got = item_of b'"
    by (cases b rule: dequeue_async.cases) (auto split: prod.splits)
  ultimately show ?thesis by simp
next
  case (Some r)
  with assms have "b' = b" "got = []" by (cases b rule: dequeue_async.cases; auto split: prod.splits)+
  then show ?thesis by simp
qed

lemma pool_panics_items: "item_of (pool_panics b) = item_of b"
  by (cases b rule: dequeue_async.cases) (auto simp: pool_panics_def)

lemma mset_items_update:
  "i < length bs \<Longrightarrow> item_of b' = item_of (bs ! i) @ got \<Longrightarrow>
    mset (concat (map item_of (bs[i := b']))) = mset (concat (map item_of bs)) + mset got"
proof (induction bs arbitrary: i)
  case (Cons b bs)
  then show ?case by (cases i) simp_all
qed simp

lemma stream_step_inv:
  assumes inv: "stream_inv kept x" and ev: "kept \<longrightarrow> ev \<noteq> DropCall"
  shows "stream_inv kept (stream_step C clk ev x)"
proof (cases ev)
  case PollStream
  obtain p r where p: "poll_next (stream_pending x) = (p, r)" by fastforce
  let ?y = "yielded x @ (case r of PollReady (Some item) \<Rightarrow> [item] | _ \<Rightarrow> [])"
  have "?y @ (case p of None \<Rightarrow> [] | Some b \<Rightarrow> item_of b) = yielded x @ ready x"
    using poll_next_items [OF p] by (simp add: ready_def)
  moreover from this have "mset ?y + mset (case p of None \<Rightarrow> [] | Some b \<Rightarrow> item_of b) = mset (yielded x) + mset (ready x)"
    by (metis mset_append)
  ultimately show ?thesis using inv PollStream p by (simp add: stream_inv_def ready_def lost_def)
next
  case PoolTurn
  show ?thesis
  proof (cases "stream_pending x")
    case None
    with inv PoolTurn show ?thesis by simp
  next
    case (Some b)
    obtain b' got s' where t: "pool_turn clk b (stream_sched x) = (b', got, s')" by (metis prod_cases3)
    from pool_turn_items [OF t] inv PoolTurn Some t show ?thesis
      by (auto simp: stream_inv_def ready_def lost_def intro: list_emb_append_mono simp flip: append_assoc)
  qed
next
  case PoolPanic
  with inv show ?thesis
    by (cases "stream_pending x") (simp_all add: stream_inv_def ready_def lost_def pool_panics_items)
next
  case DropCall
  show ?thesis
  proof (cases "stream_pending x")
    case None
    with inv DropCall show ?thesis by simp
  next
    case (Some b)
    have "subseq (yielded x) (yielded x @ ready x)" by (rule prefix_imp_subseq) simp
    also have "subseq (yielded x @ ready x) (taken x)" using inv by (simp add: stream_inv_def)
    finally have "subseq (yielded x) (taken x)" .
    with inv ev DropCall Some show ?thesis
      by (auto simp: stream_inv_def ready_def lost_def)
  qed
next
  case (DetachedTurn i)
  show ?thesis
  proof (cases "i < length (detached x)")
    case True
    obtain b' got s' where t: "pool_turn clk (detached x ! i) (stream_sched x) = (b', got, s')" by (metis prod_cases3)
    have "mset (concat (map item_of ((detached x)[i := b']))) = mset (concat (map item_of (detached x))) + mset got"
      by (rule mset_items_update [OF True pool_turn_items [OF t]])
    with inv DetachedTurn True t show ?thesis
      by (auto simp: stream_inv_def ready_def lost_def)
  qed (use inv DetachedTurn in simp)
next
  case (Elsewhere e)
  with inv show ?thesis by (simp add: stream_inv_def ready_def lost_def)
qed

lemma stream_run_inv:
  "stream_inv kept x \<Longrightarrow> (kept \<longrightarrow> DropCall \<notin> set evs) \<Longrightarrow> stream_inv kept (stream_run C clk evs x)"
proof (induction evs arbitrary: x)
  case (Cons ev evs)
  from stream_step_inv [OF Cons.prems(1), of ev C clk] Cons show ?case by (auto simp: stream_run_def)
qed (simp add: stream_run_def)

text \<open>
  C30: The stream hands on what its threads take out of the scheduler: the items it yields come
  in the order they were taken, and nothing is duplicated or invented. Every task taken was
  yielded, is ready for the next poll, or was taken by a thread whose stream or \<open>recv\<close> future
  had been dropped; as long as none is dropped, all tasks are yielded, in order.
\<close>

theorem stream_delivers:
  assumes "stream_run C clk evs (stream_new s) = x"
  shows "subseq (yielded x @ ready x) (taken x) \<and>
    mset (taken x) = mset (yielded x) + mset (ready x) + mset (lost x) \<and>
    (DropCall \<notin> set evs \<longrightarrow> taken x = yielded x @ ready x)"
proof -
  have "stream_inv kept (stream_new s)" for kept by (simp add: stream_inv_def stream_new_def ready_def lost_def)
  from stream_run_inv [OF this, of "DropCall \<notin> set evs" evs C clk] assms show ?thesis
    by (auto simp: stream_inv_def)
qed

theorem stream_delivers_witness:
  "\<exists>s x. demo_run [EnqueueNow tenant7 (demo_task 0)] = ([Accepted (TaskHandle 1)], s) \<and>
    stream_run demo_config demo_clock [PollStream, PoolTurn, DropCall, DetachedTurn 0, DetachedTurn 0, DetachedTurn 0,
      DetachedTurn 0, DetachedTurn 0] (stream_new s) = x \<and>
    taken x = [(tenant7, demo_task 0)] \<and> yielded x @ ready x = [] \<and> mset (taken x) = mset (lost x)"
proof -
  let ?evs = "[PollStream, PoolTurn, DropCall, DetachedTurn 0, DetachedTurn 0, DetachedTurn 0, DetachedTurn 0, DetachedTurn 0]"
  define r where "r = demo_run [EnqueueNow tenant7 (demo_task 0)]"
  define x where "x = stream_run demo_config demo_clock ?evs (stream_new (snd r))"
  have r1: "fst r = [Accepted (TaskHandle 1)]" by (simp add: r_def eval)
  have t: "taken x = [(tenant7, demo_task 0)]" "yielded x = []" "stream_pending x = None"
    by (simp_all add: x_def r_def stream_run_def eval stream_new_def poll_next_def signal_current_def
        DEQUEUE_BLOCKING_BACKOFF_SPINS_def)
  then have n: "yielded x @ ready x = []" by (simp add: ready_def)
  from stream_delivers [OF x_def [symmetric]] n have "mset (taken x) = mset (lost x)" by auto
  with r1 t n show ?thesis by (intro exI [of _ "snd r"] exI [of _ x]) (simp add: x_def flip: r_def, metis prod.collapse)
qed

end
