(* ===== verification/Async_Workers.thy ===== *)
theory Async_Workers
  imports Async
begin

text \<open>
  The parts of \<open>firq-async\<close> with a task of their own: \<open>AsyncWorkerReceiver\<close>, whose thread moves
  tasks from the scheduler into a bounded channel, and \<open>Dispatcher\<close>, which runs a handler for
  each task under a semaphore.
\<close>

subsection \<open>\<open>AsyncWorkerReceiver\<close>\<close>

text \<open>25 milliseconds.\<close>

definition WORKER_DEQUEUE_TIMEOUT :: duration where
  "WORKER_DEQUEUE_TIMEOUT = 25000000"

text \<open>
  The thread: at the top of its loop, inside \<open>dequeue_blocking_timeout\<close>, inside
  \<open>blocking_send\<close>, or returned, with the sender dropped.
\<close>

datatype 'a mover =
    MoverTop
  | MoverTaking "'a timed_consumer"
  | MoverSending "'a dequeue_item"
  | MoverStopped

text \<open>
  How far dropping the receiver has got: \<open>Drop::drop\<close> closes the channel, then the fields are
  dropped in the order of their declaration, first \<open>rx\<close>, then \<open>_worker\<close>, whose \<open>drop\<close> raises the
  flag and joins the thread.
\<close>

datatype drop_stage = InUse | ChannelClosed | RxDropped | Joining | DropDone

record ('a, 'c) worker_receiver =
  wr_sched :: "'a sched"
  wr_chan :: 'c
  wr_mover :: "'a mover"
  wr_shutdown :: bool
  wr_stage :: drop_stage
  wr_taken :: "'a dequeue_item list"
  wr_received :: "'a dequeue_item list"

definition worker_receiver_new :: "('a dequeue_item, 'c) mpsc \<Rightarrow> nat \<Rightarrow> 'a sched \<Rightarrow> ('a, 'c) worker_receiver" where
  "worker_receiver_new M buffer s =
    \<lparr>wr_sched = s, wr_chan = chan_new M (max buffer 1), wr_mover = MoverTop, wr_shutdown = False,
     wr_stage = InUse, wr_taken = [], wr_received = []\<rparr>"

definition mover_stops :: "('a dequeue_item, 'c) mpsc \<Rightarrow> ('a, 'c) worker_receiver \<Rightarrow> ('a, 'c) worker_receiver" where
  "mover_stops M x = x\<lparr>wr_mover := MoverStopped, wr_chan := chan_drop_sender M (wr_chan x)\<rparr>"

fun mover_turn :: "('a dequeue_item, 'c) mpsc \<Rightarrow> clock \<Rightarrow> 'a mover \<Rightarrow> ('a, 'c) worker_receiver \<Rightarrow> ('a, 'c) worker_receiver" where
  "mover_turn M clk MoverTop x =
    (if wr_shutdown x then mover_stops M x else x\<lparr>wr_mover := MoverTaking (TimedStart WORKER_DEQUEUE_TIMEOUT)\<rparr>)"
| "mover_turn M clk (MoverTaking c) x =
    (let (c', s') = dequeue_blocking_timeout clk c (wr_sched x); x1 = x\<lparr>wr_sched := s'\<rparr>
     in case c' of
          TimedReturned (DequeuedTask t task) \<Rightarrow>
            x1\<lparr>wr_mover := MoverSending (t, task), wr_taken := wr_taken x1 @ [(t, task)]\<rparr>
        | TimedReturned Closed \<Rightarrow> mover_stops M x1
        | TimedReturned Empty \<Rightarrow> x1\<lparr>wr_mover := MoverTop\<rparr>
        | _ \<Rightarrow> x1\<lparr>wr_mover := MoverTaking c'\<rparr>)"
| "mover_turn M clk (MoverSending item) x =
    (case chan_send M item (wr_chan x) of
       SentTo c \<Rightarrow> x\<lparr>wr_chan := c, wr_mover := MoverTop\<rparr>
     | BufferFull \<Rightarrow> x
     | SendError \<Rightarrow> mover_stops M x)"
| "mover_turn M clk MoverStopped x = x"

text \<open>
  \<open>recv\<close>, and \<open>poll_next\<close>, which both ask the channel; they borrow the receiver, so not once
  it is being dropped.
\<close>

definition wr_recv :: "('a dequeue_item, 'c) mpsc \<Rightarrow> ('a, 'c) worker_receiver \<Rightarrow> ('a, 'c) worker_receiver" where
  "wr_recv M x =
    (if wr_stage x = InUse then
       (case chan_recv M (wr_chan x) of
          Received item c \<Rightarrow> x\<lparr>wr_chan := c, wr_received := wr_received x @ [item]\<rparr>
        | _ \<Rightarrow> x)
     else x)"

text \<open>The body of \<open>Drop::drop\<close>; the drop of the field \<open>rx\<close>; the drop of the field \<open>_worker\<close>.\<close>

definition wr_drop :: "('a dequeue_item, 'c) mpsc \<Rightarrow> ('a, 'c) worker_receiver \<Rightarrow> ('a, 'c) worker_receiver" where
  "wr_drop M x = x\<lparr>wr_chan := chan_close M (wr_chan x), wr_stage := ChannelClosed\<rparr>"

definition wr_drop_rx :: "('a dequeue_item, 'c) mpsc \<Rightarrow> ('a, 'c) worker_receiver \<Rightarrow> ('a, 'c) worker_receiver" where
  "wr_drop_rx M x = x\<lparr>wr_chan := chan_drop_receiver M (wr_chan x), wr_stage := RxDropped\<rparr>"

definition worker_handle_drop :: "('a, 'c) worker_receiver \<Rightarrow> ('a, 'c) worker_receiver" where
  "worker_handle_drop x =
    (if wr_stage x = RxDropped then x\<lparr>wr_shutdown := True, wr_stage := Joining\<rparr>
     else if wr_mover x = MoverStopped then x\<lparr>wr_stage := DropDone\<rparr>
     else x)"

text \<open>The next turn of the thread that drops the receiver.\<close>

definition drop_turn :: "('a dequeue_item, 'c) mpsc \<Rightarrow> ('a, 'c) worker_receiver \<Rightarrow> ('a, 'c) worker_receiver" where
  "drop_turn M x =
    (case wr_stage x of
       InUse \<Rightarrow> wr_drop M x
     | ChannelClosed \<Rightarrow> wr_drop_rx M x
     | RxDropped \<Rightarrow> worker_handle_drop x
     | Joining \<Rightarrow> worker_handle_drop x
     | DropDone \<Rightarrow> x)"

datatype 'a mover_event = MoverTurn | Recv | DropTurn | SchedulerOp "'a op"

fun wr_step :: "('a dequeue_item, 'c) mpsc \<Rightarrow> config \<Rightarrow> clock \<Rightarrow> 'a mover_event \<Rightarrow> ('a, 'c) worker_receiver \<Rightarrow>
    ('a, 'c) worker_receiver" where
  "wr_step M C clk MoverTurn x = mover_turn M clk (wr_mover x) x"
| "wr_step M C clk Recv x = wr_recv M x"
| "wr_step M C clk DropTurn x = drop_turn M x"
| "wr_step M C clk (SchedulerOp e) x = x\<lparr>wr_sched := snd (exec C clk e (wr_sched x))\<rparr>"

definition wr_run :: "('a dequeue_item, 'c) mpsc \<Rightarrow> config \<Rightarrow> clock \<Rightarrow> 'a mover_event list \<Rightarrow> ('a, 'c) worker_receiver \<Rightarrow>
    ('a, 'c) worker_receiver" where
  "wr_run M C clk evs x = fold (wr_step M C clk) evs x"

subsection \<open>Tasks arrive in order\<close>

fun in_hand :: "'a mover \<Rightarrow> 'a dequeue_item list" where
  "in_hand (MoverSending item) = [item]"
| "in_hand m = []"

text \<open>
  \<open>unread\<close>: what was in the channel when \<open>rx\<close> was dropped. \<open>discarded\<close>: what the thread held when
  it found the channel closed.
\<close>

definition wr_inv :: "('a dequeue_item, 'c) mpsc \<Rightarrow> nat \<Rightarrow> ('a, 'c) worker_receiver \<Rightarrow> bool" where
  "wr_inv M buffer x \<longleftrightarrow>
     (wr_mover x = MoverStopped \<or> chan_has_sender M (wr_chan x)) \<and>
     chan_limit M (wr_chan x) = max buffer 1 \<and> length (chan_items M (wr_chan x)) \<le> max buffer 1 \<and>
     (chan_closed M (wr_chan x) \<longleftrightarrow> wr_stage x \<noteq> InUse) \<and>
     (wr_stage x \<noteq> InUse \<and> wr_stage x \<noteq> ChannelClosed \<longrightarrow> chan_items M (wr_chan x) = []) \<and>
     (wr_stage x = DropDone \<longrightarrow> wr_mover x = MoverStopped) \<and>
     (\<exists>unread discarded. wr_taken x = wr_received x @ unread @ chan_items M (wr_chan x) @ in_hand (wr_mover x) @ discarded \<and>
        length unread \<le> max buffer 1 \<and> (unread \<noteq> [] \<longrightarrow> wr_stage x \<noteq> InUse \<and> wr_stage x \<noteq> ChannelClosed) \<and>
        length discarded \<le> 1 \<and> (discarded \<noteq> [] \<longrightarrow> wr_stage x \<noteq> InUse \<and> wr_mover x = MoverStopped))"

lemma mover_stops_inv:
  assumes "mpsc_documented M" and inv: "wr_inv M buffer x" and run: "wr_mover x \<noteq> MoverStopped"
    and "in_hand (wr_mover x) = [] \<or> chan_closed M (wr_chan x)"
  shows "wr_inv M buffer (mover_stops M x)"
proof -
  have "length (in_hand m) \<le> 1" for m :: "'a mover" by (cases m) simp_all
  moreover from inv run obtain unread
    where "wr_taken x = wr_received x @ unread @ chan_items M (wr_chan x) @ in_hand (wr_mover x)"
      "length unread \<le> max buffer 1" "unread \<noteq> [] \<longrightarrow> wr_stage x \<noteq> InUse \<and> wr_stage x \<noteq> ChannelClosed"
    unfolding wr_inv_def by force
  moreover have "in_hand (wr_mover x) \<noteq> [] \<longrightarrow> wr_stage x \<noteq> InUse" using inv assms(4) unfolding wr_inv_def by blast
  ultimately show ?thesis
    using inv unfolding wr_inv_def
    by (intro conjI exI [of _ unread] exI [of _ "in_hand (wr_mover x)"])
      (simp_all add: mover_stops_def mpsc_frame [OF assms(1)])
qed

lemma mover_turn_inv:
  assumes M: "mpsc_documented M" and inv: "wr_inv M buffer x"
  shows "wr_inv M buffer (mover_turn M clk (wr_mover x) x)"
proof (cases "wr_mover x")
  case MoverTop
  with M inv show ?thesis
    by (cases "wr_shutdown x") (simp add: mover_stops_inv, simp add: wr_inv_def)
next
  case (MoverTaking c)
  obtain c' s' where d: "dequeue_blocking_timeout clk c (wr_sched x) = (c', s')" by fastforce
  have keep: "wr_inv M buffer (x\<lparr>wr_sched := s'\<rparr>)" using inv by (simp add: wr_inv_def)
  have stop: "wr_inv M buffer (mover_stops M (x\<lparr>wr_sched := s'\<rparr>))"
    by (rule mover_stops_inv [OF M keep]) (simp_all add: MoverTaking)
  from inv MoverTaking have move: "wr_inv M buffer (x\<lparr>wr_sched := s', wr_mover := m\<rparr>)" if "in_hand m = []" "m \<noteq> MoverStopped" for m
    using that by (simp add: wr_inv_def)
  from inv MoverTaking have take: "wr_inv M buffer (x\<lparr>wr_sched := s', wr_mover := MoverSending i, wr_taken := wr_taken x @ [i]\<rparr>)" for i
    by (simp add: wr_inv_def)
  show ?thesis
    using d MoverTaking stop move take
    by (auto simp: Let_def split: timed_consumer.split dequeue_result.split)
next
  case (MoverSending item)
  show ?thesis
  proof (cases "chan_send M item (wr_chan x)")
    case (SentTo c)
    from send_documented [OF M SentTo] inv MoverSending SentTo show ?thesis
      by (auto simp: wr_inv_def)
  next
    case BufferFull
    with inv MoverSending show ?thesis by simp
  next
    case SendError
    with M have "chan_closed M (wr_chan x)" by (rule send_error_documented)
    with M inv MoverSending SendError show ?thesis by (simp add: mover_stops_inv)
  qed
next
  case MoverStopped
  with inv show ?thesis by simp
qed

lemma wr_recv_inv:
  assumes M: "mpsc_documented M" and inv: "wr_inv M buffer x"
  shows "wr_inv M buffer (wr_recv M x)"
proof (cases "chan_recv M (wr_chan x)")
  case (Received item c)
  from recv_documented(1) [OF M Received] inv Received show ?thesis
    by (auto simp: wr_inv_def wr_recv_def)
qed (use inv in \<open>simp_all add: wr_recv_def\<close>)

lemma drop_turn_inv:
  assumes M: "mpsc_documented M" and inv: "wr_inv M buffer x"
  shows "wr_inv M buffer (drop_turn M x)"
proof (cases "wr_stage x")
  case ChannelClosed
  with inv obtain discarded
    where "wr_taken x = wr_received x @ chan_items M (wr_chan x) @ in_hand (wr_mover x) @ discarded"
      "length discarded \<le> 1" "discarded \<noteq> [] \<longrightarrow> wr_mover x = MoverStopped"
    unfolding wr_inv_def by force
  with inv ChannelClosed show ?thesis
    unfolding wr_inv_def
    by (intro conjI exI [of _ "chan_items M (wr_chan x)"] exI [of _ discarded])
      (simp_all add: drop_turn_def wr_drop_rx_def mpsc_frame [OF M])
next
  case InUse
  with inv show ?thesis by (simp add: wr_inv_def drop_turn_def wr_drop_def mpsc_frame [OF M])
next
  case RxDropped
  then have "chan_items M (wr_chan x) = []" using inv by (simp add: wr_inv_def)
  with RxDropped inv show ?thesis by (simp add: wr_inv_def drop_turn_def worker_handle_drop_def)
next
  case Joining
  then have "chan_items M (wr_chan x) = []" using inv by (simp add: wr_inv_def)
  with Joining inv show ?thesis by (cases "wr_mover x = MoverStopped") (simp_all add: wr_inv_def drop_turn_def worker_handle_drop_def)
next
  case DropDone
  with inv show ?thesis by (simp add: drop_turn_def)
qed

lemma wr_step_inv:
  assumes "mpsc_documented M" and "wr_inv M buffer x"
  shows "wr_inv M buffer (wr_step M C clk ev x)"
proof (cases ev)
  case (SchedulerOp e)
  with assms show ?thesis by (simp add: wr_inv_def)
qed (use assms in \<open>simp_all add: mover_turn_inv wr_recv_inv drop_turn_inv\<close>)

lemma wr_run_inv:
  "mpsc_documented M \<Longrightarrow> wr_inv M buffer x \<Longrightarrow> wr_inv M buffer (wr_run M C clk evs x)"
  by (induction evs arbitrary: x) (simp_all add: wr_run_def wr_step_inv)

text \<open>
  C31: \<open>AsyncWorkerReceiver\<close> hands on what its thread dequeues in that order. While the receiver is
  in use nothing is lost: every task taken out of the scheduler was received, waits in the
  channel, or is in the thread's hands, in this order, and when \<open>recv\<close> answers \<open>None\<close> everything
  taken has been received. The channel never holds more than the configured buffer (at least
  1). Dropping the receiver loses tasks that the scheduler has counted as delivered: the
  messages still in the channel when the field \<open>rx\<close> is dropped, as many as the buffer holds, and
  the one the thread has in its hands; never more than that, and once \<open>drop\<close> has joined the
  thread every task is received or one of those.
\<close>

theorem worker_receiver_fifo:
  assumes "mpsc_documented M" and "wr_run M C clk evs (worker_receiver_new M buffer s) = x"
  shows "(\<exists>unread discarded.
      wr_taken x = wr_received x @ unread @ chan_items M (wr_chan x) @ in_hand (wr_mover x) @ discarded \<and>
      length unread \<le> max buffer 1 \<and> length discarded \<le> 1 \<and>
      (wr_stage x = InUse \<longrightarrow> unread = [] \<and> discarded = []) \<and>
      (wr_stage x = DropDone \<longrightarrow> wr_taken x = wr_received x @ unread @ discarded)) \<and>
    length (chan_items M (wr_chan x)) \<le> max buffer 1 \<and>
    (wr_stage x = InUse \<and> chan_recv M (wr_chan x) = EndOfChannel \<longrightarrow> wr_received x = wr_taken x)"
proof -
  have "wr_inv M buffer (worker_receiver_new M buffer s)"
    using mpsc_frame(12) [OF assms(1), of "max buffer 1"] by (simp add: wr_inv_def worker_receiver_new_def)
  from wr_run_inv [OF assms(1) this] assms(2) have inv: "wr_inv M buffer x" by blast
  then obtain unread discarded
    where books: "wr_taken x = wr_received x @ unread @ chan_items M (wr_chan x) @ in_hand (wr_mover x) @ discarded"
      "length unread \<le> max buffer 1" "length discarded \<le> 1" "wr_stage x = InUse \<longrightarrow> unread = [] \<and> discarded = []"
      "length (chan_items M (wr_chan x)) \<le> max buffer 1"
    unfolding wr_inv_def by blast
  from inv have "wr_stage x = DropDone \<longrightarrow> chan_items M (wr_chan x) = [] \<and> wr_mover x = MoverStopped"
    by (auto simp: wr_inv_def)
  with books(1) have done_: "wr_stage x = DropDone \<longrightarrow> wr_taken x = wr_received x @ unread @ discarded" by auto
  have "wr_received x = wr_taken x" if "wr_stage x = InUse" "chan_recv M (wr_chan x) = EndOfChannel"
  proof -
    from recv_documented(2) [OF assms(1) that(2)] that(1) inv
    have "chan_items M (wr_chan x) = []" "wr_mover x = MoverStopped" by (auto simp: wr_inv_def)
    with books that(1) show ?thesis by simp
  qed
  with books done_ show ?thesis by blast
qed

text \<open>The thread takes the one task into the channel, and the receiver is dropped before it reads it.\<close>

theorem worker_receiver_fifo_witness:
  "\<exists>s x unread discarded. demo_run [EnqueueNow tenant7 (demo_task 0)] = ([Accepted (TaskHandle 1)], s) \<and>
    wr_run list_mpsc demo_config demo_clock
      [MoverTurn, MoverTurn, MoverTurn, MoverTurn, MoverTurn, MoverTurn, MoverTurn, MoverTurn, MoverTurn, MoverTurn,
       DropTurn, DropTurn, DropTurn] (worker_receiver_new list_mpsc 0 s) = x \<and>
    wr_taken x = [(tenant7, demo_task 0)] \<and> wr_received x = [] \<and> chan_items list_mpsc (wr_chan x) = [] \<and>
    in_hand (wr_mover x) = [] \<and> unread @ discarded = [(tenant7, demo_task 0)]"
proof -
  let ?evs = "[MoverTurn, MoverTurn, MoverTurn, MoverTurn, MoverTurn, MoverTurn, MoverTurn, MoverTurn, MoverTurn, MoverTurn,
    DropTurn, DropTurn, DropTurn]"
  define r where "r = demo_run [EnqueueNow tenant7 (demo_task 0)]"
  define x where "x = wr_run list_mpsc demo_config demo_clock ?evs (worker_receiver_new list_mpsc 0 (snd r))"
  have r1: "fst r = [Accepted (TaskHandle 1)]" by (simp add: r_def eval)
  have t: "wr_received x = []" "wr_taken x = [(tenant7, demo_task 0)]" "chan_items list_mpsc (wr_chan x) = []"
    "in_hand (wr_mover x) = []"
    by (simp_all add: x_def r_def wr_run_def eval worker_receiver_new_def list_mpsc_def WORKER_DEQUEUE_TIMEOUT_def
        drop_turn_def wr_drop_def wr_drop_rx_def worker_handle_drop_def signal_current_def
        DEQUEUE_BLOCKING_BACKOFF_SPINS_def)
  from worker_receiver_fifo [OF list_mpsc_documented x_def [symmetric]] t
  obtain unread discarded where "unread @ discarded = [(tenant7, demo_task 0)]" by auto
  with r1 t show ?thesis
    by (intro exI [of _ "snd r"] exI [of _ x] exI [of _ unread] exI [of _ discarded])
      (simp add: x_def flip: r_def, metis prod.collapse)
qed

subsection \<open>\<open>Dispatcher\<close>\<close>

text \<open>
  Where \<open>run\<close> is: awaiting a dequeue, awaiting a permit for a task, awaiting all permits after
  its loop, or returned.
\<close>

datatype 'a dispatcher_at =
    DAsking "'a blocking_call"
  | DHolding "'a dequeue_item"
  | DFinal
  | DDone

record ('a, 'm) dispatching =
  disp_sched :: "'a sched"
  disp_sem :: 'm
  disp_max :: nat
  disp_at :: "'a dispatcher_at"
  disp_running :: "'a dequeue_item list"
  disp_taken :: "'a dequeue_item list"
  disp_finished :: "'a dequeue_item list"

definition dispatcher_new :: "'m tokio \<Rightarrow> nat \<Rightarrow> 'a sched \<Rightarrow> ('a, 'm) dispatching option" where
  "dispatcher_new T max_in_flight s =
    (let n = max max_in_flight 1
     in case sem_new T n of
          None \<Rightarrow> None
        | Some m \<Rightarrow> Some \<lparr>disp_sched = s, disp_sem = m, disp_max = n, disp_at = DAsking (InPool (Begin 0)),
                      disp_running = [], disp_taken = [], disp_finished = []\<rparr>)"

text \<open>
  A poll of the future of \<open>run\<close>. The permits of the last \<open>acquire_many\<close>, whose count is cut to
  32 bits, go back at once, since \<open>let _\<close> drops them.
\<close>

fun dispatcher_turn :: "'m tokio \<Rightarrow> 'a dispatcher_at \<Rightarrow> ('a, 'm) dispatching \<Rightarrow> ('a, 'm) dispatching" where
  "dispatcher_turn T (DAsking call) x =
    (case dequeue_async call of
       None \<Rightarrow> x
     | Some (DequeuedTask t task) \<Rightarrow> x\<lparr>disp_at := DHolding (t, task)\<rparr>
     | Some Closed \<Rightarrow> x\<lparr>disp_at := DFinal\<rparr>
     | Some Empty \<Rightarrow> x\<lparr>disp_at := DAsking (InPool (Begin 0))\<rparr>)"
| "dispatcher_turn T (DHolding item) x =
    (case sem_acquire T (disp_sem x) of
       Permit m \<Rightarrow> x\<lparr>disp_sem := m, disp_running := disp_running x @ [item], disp_at := DAsking (InPool (Begin 0))\<rparr>
     | NoPermit \<Rightarrow> x
     | SemaphoreClosed \<Rightarrow> x\<lparr>disp_at := DFinal\<rparr>)"
| "dispatcher_turn T DFinal x =
    (let permits = disp_max x mod 2 ^ 32
     in case sem_acquire_many T permits (disp_sem x) of
          Permit m \<Rightarrow> x\<lparr>disp_sem := (sem_release T ^^ permits) m, disp_at := DDone\<rparr>
        | NoPermit \<Rightarrow> x
        | SemaphoreClosed \<Rightarrow> x\<lparr>disp_at := DDone\<rparr>)"
| "dispatcher_turn T DDone x = x"

text \<open>A handler returns or panics; either way its permit goes back.\<close>

definition handler_ends :: "'m tokio \<Rightarrow> nat \<Rightarrow> ('a, 'm) dispatching \<Rightarrow> ('a, 'm) dispatching" where
  "handler_ends T i x =
    (if i < length (disp_running x) then
       x\<lparr>disp_running := take i (disp_running x) @ drop (Suc i) (disp_running x),
         disp_finished := disp_finished x @ [disp_running x ! i], disp_sem := sem_release T (disp_sem x)\<rparr>
     else x)"

datatype 'a dispatcher_event = RunPolled | PoolThread | PoolThreadPanics | HandlerEnds nat | SchedulerCall "'a op"

fun dispatcher_step :: "'m tokio \<Rightarrow> config \<Rightarrow> clock \<Rightarrow> 'a dispatcher_event \<Rightarrow> ('a, 'm) dispatching \<Rightarrow> ('a, 'm) dispatching" where
  "dispatcher_step T C clk RunPolled x = dispatcher_turn T (disp_at x) x"
| "dispatcher_step T C clk PoolThread x =
    (case disp_at x of
       DAsking call \<Rightarrow> (let (call', got, s') = pool_turn clk call (disp_sched x)
                      in x\<lparr>disp_sched := s', disp_at := DAsking call', disp_taken := disp_taken x @ got\<rparr>)
     | _ \<Rightarrow> x)"
| "dispatcher_step T C clk PoolThreadPanics x =
    (case disp_at x of DAsking call \<Rightarrow> x\<lparr>disp_at := DAsking (pool_panics call)\<rparr> | _ \<Rightarrow> x)"
| "dispatcher_step T C clk (HandlerEnds i) x = handler_ends T i x"
| "dispatcher_step T C clk (SchedulerCall e) x = x\<lparr>disp_sched := snd (exec C clk e (disp_sched x))\<rparr>"

definition dispatcher_run :: "'m tokio \<Rightarrow> config \<Rightarrow> clock \<Rightarrow> 'a dispatcher_event list \<Rightarrow> ('a, 'm) dispatching \<Rightarrow> ('a, 'm) dispatching" where
  "dispatcher_run T C clk evs x = fold (dispatcher_step T C clk) evs x"

subsection \<open>Handlers are bounded and every task has one\<close>

fun disp_hand :: "'a dispatcher_at \<Rightarrow> 'a dequeue_item list" where
  "disp_hand (DAsking call) = item_of call"
| "disp_hand (DHolding item) = [item]"
| "disp_hand _ = []"

definition disp_inv :: "'m tokio \<Rightarrow> ('a, 'm) dispatching \<Rightarrow> bool" where
  "disp_inv T x \<longleftrightarrow> \<not> sem_is_closed T (disp_sem x) \<and>
     sem_available T (disp_sem x) + length (disp_running x) = disp_max x \<and>
     mset (disp_taken x) = mset (disp_finished x) + mset (disp_running x) + mset (disp_hand (disp_at x)) \<and>
     (disp_at x = DDone \<longrightarrow> disp_max x mod 2 ^ 32 + length (disp_running x) \<le> disp_max x)"

lemma mset_take_drop: "i < length xs \<Longrightarrow> mset (take i xs) + mset (drop (Suc i) xs) + {#xs ! i#} = mset xs"
proof -
  assume "i < length xs"
  then have "mset xs = mset (take i xs @ xs ! i # drop (Suc i) xs)" by (simp add: id_take_nth_drop [symmetric])
  then show ?thesis by simp
qed

lemma release_many:
  assumes "tokio_documented T"
  shows "sem_available T ((sem_release T ^^ k) m) = sem_available T m + k"
    and "sem_is_closed T ((sem_release T ^^ k) m) = sem_is_closed T m"
  by (induction k) (simp_all add: semaphore_frame [OF assms])

lemma dispatcher_turn_inv:
  assumes T: "tokio_documented T" and inv: "disp_inv T x"
  shows "disp_inv T (dispatcher_turn T (disp_at x) x)"
proof (cases "disp_at x")
  case (DAsking call)
  with inv show ?thesis
    by (auto simp: disp_inv_def item_of_result split: option.split dequeue_result.split)
next
  case (DHolding item)
  with inv acquire_documented(1) [OF T, of "disp_sem x"] acquire_documented [OF T, of "disp_sem x"] show ?thesis
    by (cases "sem_acquire T (disp_sem x)") (auto simp: disp_inv_def)
next
  case DFinal
  let ?k = "disp_max x mod 2 ^ 32"
  show ?thesis
  proof (cases "sem_acquire_many T ?k (disp_sem x)")
    case (Permit m)
    from acquire_many_documented(1) [OF T Permit] inv DFinal Permit show ?thesis
      by (auto simp: disp_inv_def release_many [OF T])
  next
    case NoPermit
    with inv DFinal show ?thesis by simp
  next
    case SemaphoreClosed
    from acquire_many_documented(2) [OF T this] inv show ?thesis by (simp add: disp_inv_def)
  qed
qed (use inv in simp)

lemma dispatcher_step_inv:
  assumes T: "tokio_documented T" and inv: "disp_inv T x"
  shows "disp_inv T (dispatcher_step T C clk ev x)"
proof (cases ev)
  case PoolThread
  show ?thesis
  proof (cases "disp_at x")
    case (DAsking call)
    obtain c' got s' where t: "pool_turn clk call (disp_sched x) = (c', got, s')" by (metis prod_cases3)
    from pool_turn_items [OF t] inv DAsking t PoolThread show ?thesis by (simp add: disp_inv_def)
  qed (use inv PoolThread in simp_all)
next
  case PoolThreadPanics
  with inv show ?thesis by (auto simp: disp_inv_def pool_panics_items split: dispatcher_at.split)
next
  case (HandlerEnds i)
  with inv mset_take_drop [of i "disp_running x"] show ?thesis
    by (auto simp: disp_inv_def handler_ends_def semaphore_frame [OF T])
next
  case (SchedulerCall e)
  with inv show ?thesis by (simp add: disp_inv_def)
qed (use assms in \<open>simp add: dispatcher_turn_inv\<close>)

lemma dispatcher_run_inv:
  "tokio_documented T \<Longrightarrow> disp_inv T x \<Longrightarrow> disp_inv T (dispatcher_run T C clk evs x)"
  by (induction evs arbitrary: x) (simp_all add: dispatcher_run_def dispatcher_step_inv)

lemma dispatcher_run_max [simp]: "disp_max (dispatcher_run T C clk evs x) = disp_max x"
proof -
  have turn: "disp_max (dispatcher_turn T a x) = disp_max x" for a x
    by (cases a) (auto simp: Let_def split: option.split dequeue_result.split acquired.split)
  have step: "disp_max (dispatcher_step T C clk ev x) = disp_max x" for ev x
    by (cases ev) (auto simp: turn handler_ends_def split: dispatcher_at.split prod.split)
  show ?thesis by (induction evs arbitrary: x) (simp_all add: dispatcher_run_def step)
qed

text \<open>
  C32: \<open>Dispatcher\<close> never runs more handlers at once than its limit (at least 1), and every task
  it takes out of the scheduler has a handler that runs or has ended, exactly one, or is in its
  hands. \<open>run\<close> returns only when at most the limit less its low 32 bits are still running:
  with a limit below \<open>2^32\<close> every handler has ended, and no task taken is without one.
\<close>

theorem dispatcher_bounded:
  assumes "tokio_documented T" and "dispatcher_new T max_in_flight s = Some x0"
    and "dispatcher_run T C clk evs x0 = x"
  shows "length (disp_running x) \<le> max max_in_flight 1 \<and>
    mset (disp_taken x) = mset (disp_finished x) + mset (disp_running x) + mset (disp_hand (disp_at x)) \<and>
    (disp_at x = DDone \<longrightarrow> max max_in_flight 1 mod 2 ^ 32 + length (disp_running x) \<le> max max_in_flight 1) \<and>
    (disp_at x = DDone \<and> max_in_flight < 2 ^ 32 \<longrightarrow> disp_running x = [] \<and> mset (disp_taken x) = mset (disp_finished x))"
proof -
  from assms(2) obtain m where m: "sem_new T (max max_in_flight 1) = Some m"
    and x0: "disp_sem x0 = m" "disp_max x0 = max max_in_flight 1" "disp_running x0 = []" "disp_taken x0 = []"
      "disp_finished x0 = []" "disp_at x0 = DAsking (InPool (Begin 0))"
    by (auto simp: dispatcher_new_def Let_def split: option.splits)
  with new_documented [OF assms(1) m] have "disp_inv T x0" by (simp add: disp_inv_def)
  from dispatcher_run_inv [OF assms(1) this] assms(3) have inv: "disp_inv T x" by blast
  have n: "disp_max x = max max_in_flight 1" using assms(3) x0(2) by auto
  have "max max_in_flight 1 mod 2 ^ 32 = max max_in_flight 1" if "max_in_flight < 2 ^ 32" using that by simp
  with inv n show ?thesis by (auto simp: disp_inv_def)
qed

theorem dispatcher_bounded_witness:
  "\<exists>s x0 x. demo_run [EnqueueNow tenant7 (demo_task 0), Close Drain] = ([Accepted (TaskHandle 1), Done], s) \<and>
    dispatcher_new counting_tokio 1 s = Some x0 \<and>
    dispatcher_run counting_tokio demo_config demo_clock
      [PoolThread, PoolThread, PoolThread, PoolThread, PoolThread, PoolThread, RunPolled, RunPolled, HandlerEnds 0,
       PoolThread, PoolThread, PoolThread, RunPolled, RunPolled] x0 = x \<and>
    disp_at x = DDone \<and> disp_finished x = [(tenant7, demo_task 0)] \<and> disp_running x = []"
proof -
  let ?evs = "[PoolThread, PoolThread, PoolThread, PoolThread, PoolThread, PoolThread, RunPolled, RunPolled, HandlerEnds 0,
       PoolThread, PoolThread, PoolThread, RunPolled, RunPolled]"
  define r where "r = demo_run [EnqueueNow tenant7 (demo_task 0), Close Drain]"
  define x0 where "x0 = the (dispatcher_new counting_tokio 1 (snd r))"
  define x where "x = dispatcher_run counting_tokio demo_config demo_clock ?evs x0"
  have r1: "fst r = [Accepted (TaskHandle 1), Done]" by (simp add: r_def eval)
  have x0: "dispatcher_new counting_tokio 1 (snd r) = Some x0"
    by (simp add: x0_def dispatcher_new_def counting_tokio_def MAX_PERMITS_def)
  have t: "disp_at x = DDone" "disp_finished x = [(tenant7, demo_task 0)]"
    by (simp_all add: x_def x0_def r_def dispatcher_run_def eval dispatcher_new_def counting_tokio_def MAX_PERMITS_def
        handler_ends_def signal_current_def DEQUEUE_BLOCKING_BACKOFF_SPINS_def)
  from dispatcher_bounded [OF counting_tokio_documented x0 x_def [symmetric]] t(1) have "disp_running x = []" by simp
  with r1 x0 t show ?thesis
    by (intro exI [of _ "snd r"] exI [of _ x0] exI [of _ x]) (simp add: x_def flip: r_def, metis prod.collapse)
qed

end
