(* ===== verification/Counters.thy ===== *)
theory Counters
  imports Scenario
begin

text \<open>
  Invariants of the shared state alone, such as relations between counters. An invariant that
  every elementary update keeps is kept by every operation; the locales below prove this once.
  Their interpretations: the counter \<open>dropped\<close> is the sum of its four causes, every number
  fits the machine integer that holds it, and the rejection counters change only in an enqueue.
\<close>

subsection \<open>Invariants of the shared state\<close>

definition work_counters :: "((nat \<Rightarrow> nat) \<Rightarrow> stats_counters \<Rightarrow> stats_counters) set" where
  "work_counters = {enqueued_update, dequeued_update, expired_update, queue_time_sum_ns_update,
     queue_time_samples_update, enqueue_purge_runs_update}"

locale shared_invariant =
  fixes inv :: "shared \<Rightarrow> bool"
  assumes clock: "inv g \<Longrightarrow> inv (snd (read_clock clk g))"
    and signal: "inv g \<Longrightarrow> inv (notify_all g)"
    and slot: "inv g \<Longrightarrow> inv (snd (try_reserve_slot C g))"
    and release: "inv g \<Longrightarrow> inv (release_reserved_slots n g)"
    and counter: "inv g \<Longrightarrow> c \<in> work_counters \<Longrightarrow> inv (count_up c n g)"
    and bucket: "inv g \<Longrightarrow> inv (record_queue_time v g)"
    and pending: "inv g \<Longrightarrow> inv (g\<lparr>pending_ids := P\<rparr>)"
    and cancelled: "inv g \<Longrightarrow> inv (g\<lparr>cancelled_ids := P\<rparr>)"
    and handle: "inv g \<Longrightarrow> inv (snd (next_handle g))"
    and top: "inv g \<Longrightarrow> inv (g\<lparr>top_tenants := tt\<rparr>)"
    and mode: "inv g \<Longrightarrow> inv (set_shutdown_mode m g)"
    and override: "inv g \<Longrightarrow> inv (g\<lparr>tenant_quantum := q\<rparr>)"
    and provider: "inv g \<Longrightarrow> inv (g\<lparr>quantum_provider := f\<rparr>)"
begin

lemma take_inv:
  "take_pending i g = (b, g') \<Longrightarrow> inv g \<Longrightarrow> inv g'"
  "take_cancelled_marker i g = (b, g') \<Longrightarrow> inv g \<Longrightarrow> inv g'"
  "read_clock clk g = (now, g') \<Longrightarrow> inv g \<Longrightarrow> inv g'"
  "try_reserve_slot C g = (b, g') \<Longrightarrow> inv g \<Longrightarrow> inv g'"
  "next_handle g = (h, g') \<Longrightarrow> inv g \<Longrightarrow> inv g'"
  "removed_cancelled i g st = (g', st') \<Longrightarrow> inv g \<Longrightarrow> inv g'"
  "removed_expired i g st = (g', st') \<Longrightarrow> inv g \<Longrightarrow> inv g'"
  using clock [of g clk] slot [of g C] handle [of g]
  by (auto simp: take_pending_def take_cancelled_marker_def removed_cancelled_def removed_expired_def pending cancelled
      split: prod.splits)

lemma purge_front_inv: "purge_front now q g st = (q', g', st') \<Longrightarrow> inv g \<Longrightarrow> inv g'"
  by (induction now q g st rule: purge_front.induct) (auto split: prod.splits if_splits dest: take_inv)

lemma purge_scan_inv:
  "purge_scan now budget idx n q g st = (q', g', st') \<Longrightarrow> inv g \<Longrightarrow> inv g'"
proof (induction now budget idx n q g st rule: purge_scan.induct)
  case (1 now budget idx n q g st)
  show ?case
  proof (cases "idx < length q \<and> n < budget")
    case False
    with "1.prems" show ?thesis by (subst (asm) purge_scan.simps) (auto split: if_splits)
  next
    case True
    obtain m g1 where m: "take_cancelled_marker (entry_id (q ! idx)) g = (m, g1)" by fastforce
    obtain g2 st2 where c: "removed_cancelled (entry_id (q ! idx)) g1 st = (g2, st2)" by fastforce
    obtain g3 st3 where x: "removed_expired (entry_id (q ! idx)) g1 st = (g3, st3)" by fastforce
    from take_inv(2) [OF m "1.prems"(2)] have g1: "inv g1" .
    note i = g1 take_inv(6) [OF c g1] take_inv(7) [OF x g1]
    from "1.prems"(1) True m c x show ?thesis
      by (subst (asm) purge_scan.simps)
        (auto simp: Let_def i split: if_splits intro: "1.IH" [OF True refl m [symmetric] refl])
  qed
qed

lemma purge_queue_inv:
  "purge_queue_with_budget now budget q g st = (q', g', st') \<Longrightarrow> inv g \<Longrightarrow> inv g'"
  by (auto simp: purge_queue_with_budget_def split: prod.splits if_splits dest: purge_front_inv purge_scan_inv)

lemma purge_priorities_inv: "purge_priorities ps now budget ts g st = (ts', g', st') \<Longrightarrow> inv g \<Longrightarrow> inv g'"
  by (induction ps now budget ts g st rule: purge_priorities.induct)
    (auto simp: Let_def split: prod.splits dest: purge_queue_inv)

lemma purge_tenant_inv:
  assumes "purge_tenant_for_enqueue clk reason ts g = (st, ts', g')" and "inv g"
  shows "inv g'"
proof -
  obtain now g1 where c: "read_clock clk g = (now, g1)" by fastforce
  obtain ts1 g2 st1 where p: "purge_priorities ordered now (side_scan_budget reason) ts g1 purge_stats_default = (ts1, g2, st1)"
    by (metis prod_cases3)
  have "inv (record_enqueue_purge_stats st1 g2)"
    using purge_priorities_inv [OF p take_inv(3) [OF c assms(2)]]
    by (simp add: record_enqueue_purge_stats_def Let_def signal release counter work_counters_def)
  with assms(1) c p show ?thesis by (auto simp: purge_tenant_for_enqueue_def purge_tenant_with_budget_def)
qed

lemma maybe_purge_inv:
  "maybe_purge_tenant_before_enqueue C clk ts g = (r, ts', g') \<Longrightarrow> inv g \<Longrightarrow> inv g'"
  by (auto simp: maybe_purge_tenant_before_enqueue_def Let_def split: option.splits prod.splits dest: purge_tenant_inv)

lemma reserve_or_purge_inv: "reserve_or_purge C clk full ts g = (res, ts', g') \<Longrightarrow> inv g \<Longrightarrow> inv g'"
  by (auto simp: reserve_or_purge_def split: prod.splits if_splits dest: take_inv(4) purge_tenant_inv)

lemma put_shared [simp]: "shared (put_tenant i t ts g s) = g" "shared (activate_shard i s) = shared s"
  by (simp_all add: put_tenant_def activate_shard_def Let_def)

lemma accept_inv:
  "enqueue_accept i t task e ts g s = (h, s') \<Longrightarrow> inv g \<Longrightarrow> inv (shared s')"
  using handle [of g]
  by (auto simp: enqueue_accept_def Let_def register_pending_def signal counter pending work_counters_def split: prod.splits)

lemma try_reject_inv:
  assumes call: "enqueue_try_reject C clk t task s = (r, s')" and inv: "inv (shared s)"
  shows "inv (shared s')"
proof (cases "is_accepting_enqueues (shared s)")
  case False
  with assms show ?thesis by (simp add: enqueue_try_reject_def)
next
  case True
  let ?i = "shard_index s t"
  obtain pr ts1 g1 where 1: "maybe_purge_tenant_before_enqueue C clk (tenant_entry C t (shards s ! ?i) (shared s)) (shared s) = (pr, ts1, g1)"
    by (metis prod_cases3)
  obtain full ts2 g2 where 2: "(if unat (max_per_tenant C) \<le> total_len ts1 \<and> pr \<noteq> Some FullPurge
      then let (_, ts', g') = purge_tenant_for_enqueue clk FullPurge ts1 g1 in (True, ts', g')
      else (pr = Some FullPurge, ts1, g1)) = (full, ts2, g2)" by (metis prod_cases3)
  obtain res ts3 g3 where 3: "reserve_or_purge C clk full ts2 g2 = (res, ts3, g3)" by (metis prod_cases3)
  from maybe_purge_inv [OF 1 inv] have i1: "inv g1" .
  with 2 have i2: "inv g2" by (auto split: if_splits prod.splits dest: purge_tenant_inv)
  from reserve_or_purge_inv [OF 3 i2] have i3: "inv g3" .
  from call True 1 2 3 i2 i3 show ?thesis
    by (auto simp: enqueue_try_reject_def Let_def split: if_splits prod.splits dest: accept_inv)
qed

lemma expire_front_inv: "expire_front now q g n = (q', g', n') \<Longrightarrow> inv g \<Longrightarrow> inv g'"
proof (induction q arbitrary: g n)
  case (Cons e q)
  obtain m g1 where m: "take_cancelled_marker (entry_id e) g = (m, g1)" by fastforce
  obtain b g2 where b: "take_pending (entry_id e) g1 = (b, g2)" by fastforce
  from take_inv(2) [OF m Cons.prems(2)] have i1: "inv g1" .
  from take_inv(1) [OF b i1] have i2: "inv g2" .
  from Cons.prems(1) m b i1 i2 release [OF i2] show ?case by (auto split: if_splits intro: Cons.IH)
qed simp

lemma record_dequeue_inv:
  assumes "inv g"
  shows "inv (record_dequeue clk t task g)"
proof -
  let ?g = "notify_all (release_reserved_slots 1 (count_up dequeued_update 1 g))"
  obtain now g1 where c: "read_clock clk ?g = (now, g1)" by fastforce
  have "inv ?g" using assms by (simp add: signal release counter work_counters_def)
  from take_inv(3) [OF c this] c show ?thesis
    by (simp add: record_dequeue_def Let_def top bucket counter work_counters_def)
qed

lemma visit_inv:
  assumes v: "visit clk p sh g = (r, sh', g')" and inv: "inv g"
  shows "inv g'"
proof (cases "ring_pop_front (active_rings sh p)")
  case (Pair popped_tenant ring)
  show ?thesis
  proof (cases popped_tenant)
    case None
    with v inv Pair show ?thesis by (simp add: visit_def)
  next
    case (Some u)
    show ?thesis
    proof (cases "tenants sh u")
      case None
      with v inv Pair Some show ?thesis by (simp add: visit_def)
    next
      case (Some ts)
      obtain now g1 where c: "read_clock clk g = (now, g1)" by fastforce
      obtain q g2 n where e: "expire_front now (queues ts p) g1 0 = (q, g2, n)" by (metis prod_cases3)
      define g3 where "g3 = (if 0 < n then notify_all (count_up expired_update n g2) else g2)"
      from expire_front_inv [OF e take_inv(3) [OF c inv]] have i3: "inv g3"
        by (simp add: g3_def signal counter work_counters_def)
      show ?thesis
      proof (cases q)
        case Nil
        with v Pair \<open>popped_tenant = Some u\<close> Some c e i3 show ?thesis by (simp add: visit_def Let_def g3_def)
      next
        case (Cons entry rest)
        obtain m g4 where m: "take_cancelled_marker (entry_id entry) g3 = (m, g4)" by fastforce
        obtain b g5 where b: "take_pending (entry_id entry) g4 = (b, g5)" by fastforce
        from take_inv(2) [OF m i3] have i4: "inv g4" .
        from take_inv(1) [OF b i4] have i5: "inv g5" .
        from v Pair \<open>popped_tenant = Some u\<close> Some c e i3 i4 i5 m b Cons record_dequeue_inv [OF i5] show ?thesis
          by (auto simp: visit_def Let_def simp flip: g3_def split: if_splits)
      qed
    qed
  qed
qed

lemma visit_ring_inv: "visit_ring n clk p sh g = (r, sh', g') \<Longrightarrow> inv g \<Longrightarrow> inv g'"
  by (induction n clk p sh g rule: visit_ring.induct) (auto split: prod.splits visit.splits dest: visit_inv)

lemma visit_priorities_inv: "visit_priorities ps clk sh g = (r, sh', g') \<Longrightarrow> inv g \<Longrightarrow> inv g'"
  by (induction ps clk sh g rule: visit_priorities.induct)
    (auto split: prod.splits option.splits if_splits dest: visit_ring_inv)

lemma serve_shard_inv: "serve_shard clk i s = (r, s') \<Longrightarrow> inv (shared s) \<Longrightarrow> inv (shared s')"
  by (auto simp: serve_shard_def try_dequeue_from_shard_def Let_def split: prod.splits dest: visit_priorities_inv)

lemma serve_shards_inv: "serve_shards n clk s = (r, s') \<Longrightarrow> inv (shared s) \<Longrightarrow> inv (shared s')"
proof (induction n arbitrary: s)
  case (Suc n)
  show ?case
  proof (cases "ring_pop_front (active_shards s)")
    case (Pair popped_shard ring)
    show ?thesis
    proof (cases popped_shard)
      case None
      with Suc.prems Pair show ?thesis by auto
    next
      case (Some i)
      obtain found s1 where t: "serve_shard clk i (s\<lparr>active_shards := ring\<rparr>) = (found, s1)" by fastforce
      with serve_shard_inv [OF t] Suc Pair Some show ?thesis by (cases found) auto
    qed
  qed
qed simp

lemma try_dequeue_inv: "try_dequeue clk s = (r, s') \<Longrightarrow> inv (shared s) \<Longrightarrow> inv (shared s')"
  by (auto simp: try_dequeue_def split: if_splits prod.splits option.splits dest: serve_shards_inv)

lemma cancel_inv: "cancel h s = (r, s') \<Longrightarrow> inv (shared s) \<Longrightarrow> inv (shared s')"
  by (auto simp: cancel_def mark_cancelled_def Let_def signal release cancelled split: prod.splits if_splits dest: take_inv(1))

lemma control_inv:
  assumes "inv (shared s)"
  shows "inv (shared (close_with_mode m s))" "inv (shared (set_tenant_quantum C t q s))"
    "inv (shared (clear_tenant_quantum C t s))" "inv (shared (set_quantum_provider C f s))"
proof -
  have "shared (refresh_tenant_quantum C t x) = shared x" for x :: "'a sched"
    by (simp add: refresh_tenant_quantum_def Let_def split: option.split)
  with assms show "inv (shared (close_with_mode m s))" "inv (shared (set_tenant_quantum C t q s))"
    "inv (shared (clear_tenant_quantum C t s))" "inv (shared (set_quantum_provider C f s))"
    by (simp_all add: close_with_mode_def set_tenant_quantum_def clear_tenant_quantum_def set_quantum_provider_def
        Let_def mode override provider)
qed

end

text \<open>With the counters of rejections and evictions the invariant holds in every run.\<close>

locale run_invariant = shared_invariant inv for inv :: "shared \<Rightarrow> bool" +
  fixes C :: config
  assumes reject: "inv g \<Longrightarrow> inv (record_reject r g)"
    and evict: "inv g \<Longrightarrow> inv (record_policy_drop g)"
    and start: "inv (shared (scheduler_new C))"
begin

lemma drop_path_inv:
  assumes call: "enqueue_drop_with_handle C clk strategy t task s = (r, s')" and inv: "inv (shared s)"
  shows "inv (shared s')"
proof (cases "is_accepting_enqueues (shared s)")
  case False
  with assms show ?thesis by (simp add: enqueue_drop_with_handle_def)
next
  case True
  let ?i = "shard_index s t"
  obtain pr ts1 g1 where 1: "maybe_purge_tenant_before_enqueue C clk (tenant_entry C t (shards s ! ?i) (shared s)) (shared s) = (pr, ts1, g1)"
    by (metis prod_cases3)
  from maybe_purge_inv [OF 1 inv] have i1: "inv g1" .
  define full where "full \<longleftrightarrow> unat (max_per_tenant C) \<le> total_len ts1 \<or> unat (max_global C) \<le> queue_len_estimate (stats g1)"
  show ?thesis
  proof (cases "if full then drop_from_tenant strategy (prio task) ts1 else None")
    case None
    obtain res ts2 g2 where 2: "reserve_or_purge C clk (pr = Some FullPurge) ts1 g1 = (res, ts2, g2)" by (metis prod_cases3)
    from reserve_or_purge_inv [OF 2 i1] have i2: "inv g2" .
    from call True 1 2 i1 i2 None show ?thesis
      by (auto simp: enqueue_drop_with_handle_def Let_def full_def reject simp del: record_reject.simps
          split: if_splits prod.splits dest: accept_inv)
  next
    case (Some dropped_entry)
    obtain victim ts2 where v: "dropped_entry = (victim, ts2)" by fastforce
    obtain b g3 where b: "take_pending (entry_id victim) (clear_cancelled_marker (entry_id victim) g1) = (b, g3)" by fastforce
    from take_inv(1) [OF b] i1 have i3: "inv g3" by (simp add: clear_cancelled_marker_def cancelled)
    obtain res ts3 g4 where 3: "reserve_or_purge C clk (pr = Some FullPurge) ts2 g3 = (res, ts3, g4)" by (metis prod_cases3)
    from reserve_or_purge_inv [OF 3 i3] have i4: "inv g4" .
    from call True 1 3 b i3 i4 Some v show ?thesis
      by (auto simp: enqueue_drop_with_handle_def Let_def full_def reject split: if_splits prod.splits
          dest: accept_inv intro: evict simp del: record_reject.simps)
  qed
qed

lemma exec_inv:
  assumes "inv (shared s)"
  shows "inv (shared (snd (exec C clk e s)))"
proof (cases e)
  case (EnqueueNow t task)
  obtain r s1 where r: "enqueue_try_reject C clk t task s = (r, s1)" by fastforce
  obtain ro so where o: "enqueue_drop_with_handle C clk Oldest t task s = (ro, so)" by fastforce
  obtain rn sn where n: "enqueue_drop_with_handle C clk Newest t task s = (rn, sn)" by fastforce
  from try_reject_inv [OF r assms] drop_path_inv [OF o assms] drop_path_inv [OF n assms] assms r o n EnqueueNow
  show ?thesis
    by (cases r) (auto simp: enqueue_now_def enqueue_reject_with_handle_def reject simp del: record_reject.simps
        split: backpressure_policy.split)
next
  case (Attempt t task)
  obtain r s1 where r: "enqueue_try_reject C clk t task s = (r, s1)" by fastforce
  from try_reject_inv [OF r assms] r Attempt show ?thesis by simp
next
  case GiveUp
  with assms show ?thesis by (simp add: reject del: record_reject.simps)
next
  case LookAtClock
  with assms show ?thesis by (simp add: clock)
next
  case Dequeue
  obtain r s1 where r: "try_dequeue clk s = (r, s1)" by fastforce
  from try_dequeue_inv [OF r assms] r Dequeue show ?thesis by simp
next
  case (Cancel h)
  obtain r s1 where r: "cancel h s = (r, s1)" by fastforce
  from cancel_inv [OF r assms] r Cancel show ?thesis by simp
qed (use assms in \<open>simp_all add: control_inv\<close>)

lemma run_shared_inv:
  assumes "run C clk es = (os, s :: 'a sched)"
  shows "inv (shared s)"
proof -
  have "inv (shared (snd (fold (run_step C clk) es x)))" if "inv (shared (snd x))" for x :: "'a answer list \<times> 'a sched"
    using that
  proof (induction es arbitrary: x)
    case (Cons e es)
    obtain os s where x: "x = (os, s)" by fastforce
    from exec_inv [of s clk e] Cons x show ?case by (simp add: run_step_def split: prod.split) (metis snd_conv)
  qed simp
  moreover have "inv (shared (scheduler_new C :: 'a sched))"
    using start by (simp add: scheduler_new_def Let_def)
  ultimately show ?thesis using assms unfolding run_def by (metis snd_conv)
qed

end

subsection \<open>The rejection counters\<close>

text \<open>What rejections and evictions count, and only they.\<close>

definition drops :: "shared \<Rightarrow> nat \<times> nat \<times> nat \<times> nat \<times> nat" where
  "drops g = (dropped (stats g), rejected_global (stats g), rejected_tenant (stats g), timeout_rejected (stats g),
     dropped_policy (stats g))"

lemma drops_simps [simp]:
  "drops (g\<lparr>ticks := a\<rparr>) = drops g" "drops (g\<lparr>signal_seq := a\<rparr>) = drops g"
  "drops (g\<lparr>pending_ids := P\<rparr>) = drops g" "drops (g\<lparr>cancelled_ids := P\<rparr>) = drops g"
  "drops (g\<lparr>next_task_id := a\<rparr>) = drops g" "drops (g\<lparr>top_tenants := tt\<rparr>) = drops g"
  "drops (g\<lparr>shutdown_state := a\<rparr>) = drops g" "drops (g\<lparr>tenant_quantum := q\<rparr>) = drops g"
  "drops (g\<lparr>quantum_provider := f\<rparr>) = drops g" "drops (release_reserved_slots n g) = drops g"
  "drops (snd (try_reserve_slot C g)) = drops g" "drops (record_queue_time v g) = drops g"
  by (simp_all add: drops_def release_reserved_slots_def try_reserve_slot_def record_queue_time_def count_up_def
      split: option.split)

lemma drops_work: "c \<in> work_counters \<Longrightarrow> drops (count_up c n g) = drops g"
  by (auto simp: work_counters_def drops_def count_up_def)

text \<open>Any predicate on the rejection counters is therefore kept by what is not a rejection.\<close>

interpretation quiet: shared_invariant "\<lambda>g. P (drops g)" for P
  by unfold_locales
    (simp_all add: drops_work read_clock_def notify_all_def next_handle_def set_shutdown_mode_def Let_def)

definition drops_add_up :: "nat \<times> nat \<times> nat \<times> nat \<times> nat \<Rightarrow> bool" where
  "drops_add_up = (\<lambda>(d, rg, rt, tr, dp). d = min (rg + rt + tr + dp) u64_max)"

interpretation drop_sum: run_invariant "\<lambda>g. drops_add_up (drops g)" C for C
proof unfold_locales
  fix g r
  show "drops_add_up (drops g) \<Longrightarrow> drops_add_up (drops (record_reject r g))"
    by (cases r) (auto simp: drops_add_up_def drops_def count_up_def saturating_add_def)
  show "drops_add_up (drops g) \<Longrightarrow> drops_add_up (drops (record_policy_drop g))"
    by (auto simp: drops_add_up_def drops_def record_policy_drop_def count_up_def saturating_add_def)
  show "drops_add_up (drops (shared (scheduler_new C)))"
    by (simp add: drops_add_up_def drops_def scheduler_new_def stats_counters_new_def Let_def)
qed

text \<open>
  C33: The exported counter \<open>dropped\<close> is the sum of its four causes, tasks rejected for a full
  scheduler, for a full tenant, after a timeout, and tasks evicted by a policy, cut off at the
  largest \<open>u64\<close>. This holds after any run of any length.
\<close>

theorem drop_metrics_add_up:
  assumes "run C clk es = (os, s)"
  shows "dropped (stats (shared s)) =
    min (rejected_global (stats (shared s)) + rejected_tenant (stats (shared s)) +
      timeout_rejected (stats (shared s)) + dropped_policy (stats (shared s))) u64_max"
  using drop_sum.run_shared_inv [OF assms] by (simp add: drops_add_up_def drops_def Let_def)

theorem drop_metrics_add_up_witness:
  "\<exists>os s. demo_run [EnqueueNow tenant7 (demo_task 0), EnqueueNow tenant7 (demo_task 1), EnqueueNow tenant7 (demo_task 2),
      GiveUp] = (os, s) \<and>
    rejected_tenant (stats (shared s)) = 1 \<and> timeout_rejected (stats (shared s)) = 1 \<and> dropped (stats (shared s)) = 2"
proof -
  define r where "r = demo_run [EnqueueNow tenant7 (demo_task 0), EnqueueNow tenant7 (demo_task 1),
    EnqueueNow tenant7 (demo_task 2), GiveUp]"
  have v: "rejected_tenant (stats (shared (snd r))) = 1" "timeout_rejected (stats (shared (snd r))) = 1"
    "rejected_global (stats (shared (snd r))) = 0" "dropped_policy (stats (shared (snd r))) = 0"
    by (simp_all add: r_def eval)
  from drop_metrics_add_up [of demo_config demo_clock _ "fst r" "snd r"] v have "dropped (stats (shared (snd r))) = 2"
    by (simp add: r_def)
  with v show ?thesis by (intro exI [of _ "fst r"] exI [of _ "snd r"]) (simp add: r_def)
qed

subsection \<open>Machine integers\<close>

text \<open>Every number the model keeps as a \<open>nat\<close> fits the atomic integer that holds it.\<close>

definition counters_fit :: "shared \<Rightarrow> bool" where
  "counters_fit g \<longleftrightarrow>
     (let c = stats g in
      enqueued c \<le> u64_max \<and> dequeued c \<le> u64_max \<and> expired c \<le> u64_max \<and> dropped c \<le> u64_max \<and>
      rejected_global c \<le> u64_max \<and> rejected_tenant c \<le> u64_max \<and> timeout_rejected c \<le> u64_max \<and>
      dropped_policy c \<le> u64_max \<and> queue_len_estimate c \<le> u64_max \<and> queue_time_sum_ns c \<le> u64_max \<and>
      queue_time_samples c \<le> u64_max \<and> enqueue_purge_runs c \<le> u64_max \<and>
      length (queue_time_buckets c) = length QUEUE_TIME_BUCKETS_NS \<and> (\<forall>b \<in> set (queue_time_buckets c). b \<le> u64_max)) \<and>
     signal_seq g \<le> u64_max \<and> next_task_id g \<le> u64_max \<and> shutdown_state g \<le> SHUTDOWN_IMMEDIATE"

lemma wrapping_inc_fits: "wrapping_inc n \<le> u64_max"
proof -
  have "(n + 1) mod 2 ^ 64 < (2 :: nat) ^ 64" by (rule mod_less_divisor) simp
  then show ?thesis by (simp add: wrapping_inc_def)
qed

lemma fits_count_up:
  "counters_fit g \<Longrightarrow> c \<in> work_counters \<union> {dropped_update, rejected_global_update, rejected_tenant_update,
      timeout_rejected_update, dropped_policy_update} \<Longrightarrow> counters_fit (count_up c n g)"
  by (auto simp: counters_fit_def work_counters_def count_up_def Let_def)

lemma fits_bucket: "counters_fit g \<Longrightarrow> counters_fit (record_queue_time v g)"
  by (auto simp: counters_fit_def record_queue_time_def count_up_def Let_def split: option.split
      dest!: set_update_subset_insert [THEN subsetD])

interpretation fits: run_invariant counters_fit C for C
proof unfold_locales
  fix g and C :: config
  assume fit: "counters_fit g"
  show "counters_fit (snd (try_reserve_slot C g))"
  proof (cases "unat (max_global C) \<le> queue_len_estimate (stats g)")
    case False
    with unat_u64_le [of "max_global C"] have "Suc (queue_len_estimate (stats g)) \<le> u64_max" by linarith
    with False show ?thesis using fit by (simp add: try_reserve_slot_def counters_fit_def Let_def)
  qed (use fit in \<open>simp add: try_reserve_slot_def\<close>)
  show "counters_fit (set_shutdown_mode m g)" for m
    using fit wrapping_inc_fits
    by (cases m) (auto simp: set_shutdown_mode_def notify_all_def counters_fit_def Let_def shutdown_next_def)
  show "counters_fit (record_reject r g)" for r
    using fit by (cases r) (simp_all add: fits_count_up)
  show "counters_fit (record_policy_drop g)" using fit by (simp add: record_policy_drop_def fits_count_up)
  show "counters_fit (release_reserved_slots n g)" for n
    using fit diff_le_self [of "queue_len_estimate (stats g)" n]
    by (auto simp: release_reserved_slots_def counters_fit_def Let_def)
next
  show "counters_fit (shared (scheduler_new C))"
    by (simp add: counters_fit_def scheduler_new_def stats_counters_new_def Let_def)
qed (simp_all add: fits_count_up fits_bucket,
  simp_all add: counters_fit_def Let_def read_clock_def notify_all_def release_reserved_slots_def next_handle_def wrapping_inc_fits)

text \<open>
  In any run, of any length, every counter, the sequence number of the signal, the last
  task id and the shutdown state stay within the machine integers of the code, and the
  histogram keeps its twelve buckets: the model's natural numbers never leave the types of
  \<open>StatsCounters\<close>.
\<close>

theorem counters_are_u64:
  assumes "run C clk es = (os, s)"
  shows "counters_fit (shared s)"
  by (rule fits.run_shared_inv [OF assms])

theorem counters_are_u64_witness:
  "\<exists>os s. demo_run [EnqueueNow tenant7 (demo_task 0), Dequeue, Dequeue, Close Drain] = (os, s) \<and>
    dequeued (stats (shared s)) = 1 \<and> shutdown_state (shared s) = 1 \<and> counters_fit (shared s)"
proof -
  define r where "r = demo_run [EnqueueNow tenant7 (demo_task 0), Dequeue, Dequeue, Close Drain]"
  have v: "dequeued (stats (shared (snd r))) = 1" "shutdown_state (shared (snd r)) = 1"
    by (simp_all add: r_def eval)
  from counters_are_u64 [of demo_config demo_clock _ "fst r" "snd r"] have "counters_fit (shared (snd r))"
    by (simp add: r_def)
  with v show ?thesis by (intro exI [of _ "fst r"] exI [of _ "snd r"]) (simp add: r_def)
qed

end
