(* ===== verification/Traces.thy ===== *)
theory Traces
  imports Counters Pacing Blocking
begin

text \<open>
  What the programs built on the scheduler share: the scheduler inside a larger system has been
  through a run of its own operations, whose tasks satisfy what the program's producers
  guarantee; what that says of the tasks it holds and hands out; and the effect of one turn of
  \<open>dequeue_blocking\<close> on the run.
\<close>

subsection \<open>Nothing is invented\<close>

fun enqueues_task :: "tenant_key \<Rightarrow> 'a task \<Rightarrow> 'a op \<Rightarrow> bool" where
  "enqueues_task t task (EnqueueNow u x) \<longleftrightarrow> u = t \<and> x = task"
| "enqueues_task t task (Attempt u x) \<longleftrightarrow> u = t \<and> x = task"
| "enqueues_task t task e \<longleftrightarrow> False"

lemma sound_as_entries:
  assumes "sound_as C clk V a d c t task new s s'" and "e \<in> set (sched_queue s' u p)"
  shows "e \<in> set (sched_queue s u p) \<or> (u = t \<and> entry_task e = task \<and> new = Some (entry_id e))"
proof -
  from assms(1) obtain R where q:
    "\<And>u p. sched_queue s' u p = filter (\<lambda>e. entry_id e \<notin> R) (sched_queue s u p) @
      (if u = t \<and> p = prio task then (case new of None \<Rightarrow> [] | Some h \<Rightarrow> [\<lparr>entry_id = h, entry_task = task\<rparr>]) else [])"
    unfolding sound_as_def enqueues_def by blast
  show ?thesis
  proof (cases "u = t \<and> p = prio task")
    case True
    with assms(2) q [of u p] show ?thesis by (cases new) auto
  next
    case False
    then have "sched_queue s' u p = filter (\<lambda>e. entry_id e \<notin> R) (sched_queue s u p)" unfolding q by auto
    with assms(2) show ?thesis by simp
  qed
qed

lemma quiet_queues [simp]:
  "sched_queue (close_with_mode m s) = sched_queue s"
  "sched_queue (set_tenant_quantum C t q s) = sched_queue s"
  "sched_queue (clear_tenant_quantum C t s) = sched_queue s"
  by (simp_all add: close_with_mode_def set_tenant_quantum_def clear_tenant_quantum_def Let_def)

lemma provider_queues:
  assumes "sched_ok C s"
  shows "sched_queue (set_quantum_provider C f s) = sched_queue s"
proof (intro ext)
  fix t p
  let ?s' = "set_quantum_provider C f s"
  have n: "length (shards ?s') = length (shards s)" by (simp add: set_quantum_provider_def Let_def)
  have j: "shard_index s t < length (shards s)" using assms by (simp add: sched_ok_def shard_index_less)
  then have "same_work (shards s ! shard_index s t) (shards ?s' ! shard_index s t)"
    by (auto simp: set_quantum_provider_def Let_def same_work_def domIff)
  from same_work_squeue [OF this] show "sched_queue ?s' t p = sched_queue s t p"
    using shard_index_cong [OF n] by (simp add: sched_queue_def)
qed

lemma cancel_queues: "cancel h s = (r, s') \<Longrightarrow> sched_queue s' = sched_queue s"
  by (auto simp: cancel_def Let_def split: if_splits prod.splits)

lemma exec_entries:
  assumes ok: "sched_ok C s" and bk: "books C 0 a d c (shared s)" and a: "a < u64_max"
    and call: "exec C clk x s = (out, s')" and e: "e \<in> set (sched_queue s' t p)"
  shows "e \<in> set (sched_queue s t p) \<or> enqueues_task t (entry_task e) x"
proof (cases x)
  case (EnqueueNow u task)
  show ?thesis
  proof (cases "enqueue_now C clk u task s")
    case (Some y)
    then obtain r s1 where y: "enqueue_now C clk u task s = Some (r, s1)" by (cases y) simp
    with call EnqueueNow have "s1 = s'" by simp
    with enqueue_now_sound [OF ok bk a y] sound_as_entries [OF _ e] EnqueueNow show ?thesis by fastforce
  qed (use call EnqueueNow e in simp)
next
  case (Attempt u task)
  obtain r s1 where y: "enqueue_try_reject C clk u task s = (r, s1)" by fastforce
  with call Attempt have "s1 = s'" by simp
  with enqueue_try_reject_sound [OF ok bk a y] sound_as_entries [OF _ e] Attempt show ?thesis by fastforce
next
  case Dequeue
  obtain r s1 where y: "try_dequeue clk s = (r, s1)" by fastforce
  with call Dequeue have "s1 = s'" by simp
  with try_dequeue_sound [OF ok y] obtain R
    where "takes clk R (dequeued_of r) (sched_queue s) (shared s) (sched_queue s') (shared s')" by blast
  from takesD(1) [OF this] e show ?thesis by auto
next
  case (Cancel h)
  obtain r s1 where y: "cancel h s = (r, s1)" by fastforce
  with call Cancel cancel_queues [OF y] e show ?thesis by simp
next
  case (SetProvider f)
  with call e provider_queues [OF ok, of f] show ?thesis by auto
qed (use call e in auto)

lemma exec_delivers:
  assumes ok: "sched_ok C s" and call: "exec C clk x s = (Delivered t task, s')"
  shows "\<exists>p e. e \<in> set (sched_queue s t p) \<and> entry_task e = task"
proof -
  from call have "x = Dequeue"
    by (cases x) (auto split: option.splits prod.splits simp: Let_def elim: enqueue_output.elims attempt_output.elims cancel_output.elims)
  moreover obtain r s1 where y: "try_dequeue clk s = (r, s1)" by fastforce
  ultimately have "r = DequeuedTask t task" using call by (cases r) simp_all
  from delivered_entry [OF ok y [unfolded this]] show ?thesis by (metis in_set_conv_decomp)
qed

lemma run_entries:
  assumes "length es \<le> u64_max" and "run C clk es = (os, s)"
  shows "(\<forall>t p. \<forall>e \<in> set (sched_queue s t p). \<exists>x \<in> set es. enqueues_task t (entry_task e) x) \<and>
    (\<forall>t task. Delivered t task \<in> set os \<longrightarrow> (\<exists>x \<in> set es. enqueues_task t task x))"
  using assms
proof (induction es arbitrary: os s rule: rev_induct)
  case Nil
  then show ?case
    by (auto simp: run_def sched_queue_def squeue_def shard_index_def scheduler_new_def shard_new_def Let_def split: option.splits)
next
  case (snoc x es)
  obtain os1 s1 where r: "run C clk es = (os1, s1)" by fastforce
  obtain out s2 where c: "exec C clk x s1 = (out, s2)" by fastforce
  from snoc.prems r c have eq: "os = os1 @ [out]" "s = s2" by (simp_all add: run_def run_step_def)
  have l: "length es \<le> u64_max" using snoc.prems by simp
  note i = run_inv_run [OF l r] and IH = snoc.IH [OF l r]
  have "count_out is_accepted os1 \<le> length es"
    using i(2) r by simp
  then have "count_out is_accepted os1 < u64_max" using snoc.prems(1) by simp
  note e = exec_entries [OF i(1) i(3) this c]
  have d: "\<exists>y \<in> set (es @ [x]). enqueues_task t task y" if "out = Delivered t task" for t task
    using exec_delivers [OF i(1), of clk x t task s2] c that IH by fastforce
  show ?case using IH e d unfolding eq by fastforce
qed

subsection \<open>The run behind a scheduler\<close>

text \<open>
  The operations of a program that enqueues under a policy that does not wait, cancels nothing
  and leaves the quanta alone.
\<close>

fun allowed :: "(tenant_key \<Rightarrow> 'a task \<Rightarrow> bool) \<Rightarrow> 'a op \<Rightarrow> bool" where
  "allowed P (EnqueueNow t task) \<longleftrightarrow> P t task"
| "allowed P (Attempt t task) \<longleftrightarrow> False"
| "allowed P (Cancel h) \<longleftrightarrow> False"
| "allowed P (SetQuantum t q) \<longleftrightarrow> False"
| "allowed P (SetProvider f) \<longleftrightarrow> False"
| "allowed P e \<longleftrightarrow> True"

definition traced :: "(tenant_key \<Rightarrow> 'a task \<Rightarrow> bool) \<Rightarrow> config \<Rightarrow> clock \<Rightarrow> nat \<Rightarrow> 'a answer list \<Rightarrow> 'a sched \<Rightarrow> bool" where
  "traced P C clk k os s \<longleftrightarrow> (\<exists>es. run C clk es = (os, s) \<and> length es \<le> k \<and> (\<forall>x \<in> set es. allowed P x))"

lemma traced_new: "traced P C clk 0 [] (scheduler_new C)"
  unfolding traced_def by (intro exI [of _ "[]"]) (simp add: run_def)

lemma traced_mono: "traced P C clk k os s \<Longrightarrow> k \<le> k' \<Longrightarrow> traced P C clk k' os s"
  unfolding traced_def by (meson order_trans)

lemma traced_exec:
  assumes "traced P C clk k os s" and "exec C clk e s = (out, s')" and "allowed P e"
  shows "traced P C clk (Suc k) (os @ [out]) s'"
proof -
  from assms(1) obtain es where es: "run C clk es = (os, s)" "length es \<le> k" "\<forall>x \<in> set es. allowed P x"
    unfolding traced_def by blast
  with assms(2,3) show ?thesis
    unfolding traced_def by (intro exI [of _ "es @ [e]"]) (simp add: run_def run_step_def)
qed

lemma traced_clock:
  assumes "traced P C clk k os s" and "read_clock clk (shared s) = (now, g)"
  shows "traced P C clk (Suc k) (os @ [Done]) (s\<lparr>shared := g\<rparr>)" and "drops g = drops (shared s)"
  using traced_exec [OF assms(1), of LookAtClock Done "s\<lparr>shared := g\<rparr>"] assms(2) by (auto simp: read_clock_def)

lemma traced_books:
  assumes "traced P C clk k os s" and "k \<le> u64_max"
  shows "sched_ok C s" "books C 0 (count_out is_accepted os) (count_out is_delivered os) (count_out is_cancelled os) (shared s)"
proof -
  from assms(1) obtain es where es: "run C clk es = (os, s)" "length es \<le> k" unfolding traced_def by blast
  with assms(2) have l: "length es \<le> u64_max" by simp
  from run_inv_run(1,3) [OF l es(1)] show "sched_ok C s"
    "books C 0 (count_out is_accepted os) (count_out is_delivered os) (count_out is_cancelled os) (shared s)" .
qed

lemma count_out_le: "count_out P os \<le> length os"
  by (simp add: count_out_def)

lemma run_length: "run C clk es = (os, s) \<Longrightarrow> length os = length es"
proof (induction es arbitrary: os s rule: rev_induct)
  case (snoc e es)
  obtain os1 s1 where "run C clk es = (os1, s1)" by fastforce
  with snoc show ?case by (auto simp: run_def run_step_def split: prod.splits)
qed (simp add: run_def)

lemma traced_length: "traced P C clk k os s \<Longrightarrow> length os \<le> k"
  unfolding traced_def using run_length by metis

text \<open>What the scheduler holds and has delivered satisfies what the producers guarantee.\<close>

lemma traced_tasks:
  assumes "traced P C clk k os s" and "k \<le> u64_max"
  shows "e \<in> set (sched_queue s t p) \<Longrightarrow> P t (entry_task e)" and "Delivered t task \<in> set os \<Longrightarrow> P t task"
proof -
  from assms(1) obtain es where es: "run C clk es = (os, s)" "length es \<le> k" "\<forall>x \<in> set es. allowed P x"
    unfolding traced_def by blast
  have a: "enqueues_task u x y \<Longrightarrow> allowed P y \<Longrightarrow> P u x" for u x y by (cases y) auto
  from es(2) assms(2) have l: "length es \<le> u64_max" by simp
  note r = run_entries [OF l es(1)]
  { assume "e \<in> set (sched_queue s t p)" with r es(3) a show "P t (entry_task e)" by blast }
  { assume "Delivered t task \<in> set os" with r es(3) a show "P t task" by blast }
qed

text \<open>
  While a task is pending that does not expire under the attempts, one more attempt than the
  largest cost finds a task.
\<close>

lemma traced_polls_unexpired:
  assumes tr: "traced P C clk k os s" and k: "k \<le> u64_max" and C: "mild_config K C"
    and M: "\<And>t task. P t task \<Longrightarrow> unat (cost task) \<le> M" and b: "int M + int K \<le> i64_max"
    and e: "e \<in> set (sched_queue s t p)" "entry_id e \<in> pending_ids (shared s)"
      "unexpired clk (shared s) (shared (snd (polls (Suc M) clk s))) e"
    and "shutdown_state (shared s) \<noteq> 2"
  shows "\<exists>u task s'. polls (Suc M) clk s = (DequeuedTask u task, s')"
proof -
  from tr obtain es where es: "run C clk es = (os, s)" "length es \<le> k" "\<forall>x \<in> set es. allowed P x"
    unfolding traced_def by blast
  with k have l: "length es \<le> u64_max" by simp
  have "mild_op M K x" if "allowed P x" for x using that M by (cases x) auto
  with es(3) have "\<forall>x \<in> set es. mild_op M K x" by blast
  note i = run_inv_run [OF l es(1)] and m = run_mild [OF l this C b es(1)]
  from e(1) obtain ts where ts: "tenants (home s t) t = Some ts"
    by (cases "tenants (home s t) t") (auto simp: sched_queue_def squeue_def home_def)
  from i(1) have "shard_index s t < length (shards s)" by (simp add: sched_ok_def shard_index_less)
  with mild_nth [OF m] ts have d: "0 \<le> deficits ts p" "1 \<le> quantum ts"
    by (auto simp: home_def mild_state_def)
  then have "int M * 1 \<le> int M * quantum ts" by (intro mult_left_mono) simp_all
  then have "int M + quantum ts \<le> deficits ts p + int (Suc M) * quantum ts" using d(1) by (simp add: algebra_simps)
  then show ?thesis by (intro polls_deliver [OF i(1,3) m b e assms(9) ts]) simp_all
qed

lemma traced_polls:
  assumes "traced P C clk k os s" and "k \<le> u64_max" and "mild_config K C"
    and "\<And>t task. P t task \<Longrightarrow> unat (cost task) \<le> M" and "int M + int K \<le> i64_max"
    and e: "e \<in> set (sched_queue s t p)" "entry_id e \<in> pending_ids (shared s)" "deadline (entry_task e) = None"
    and "shutdown_state (shared s) \<noteq> 2"
  shows "\<exists>u task s'. polls (Suc M) clk s = (DequeuedTask u task, s')"
  by (rule traced_polls_unexpired [where P = P, OF assms(1-3) _ assms(5) e(1,2) unexpired_no_deadline [OF e(3)] assms(9)])
    (rule assms(4))

subsection \<open>A consumer's turn\<close>

lemma traced_dequeue_blocking:
  assumes tr: "traced P C clk k os s" and "\<forall>r. c \<noteq> Returned r" and d: "dequeue_blocking clk c s = (c', s')"
  shows "\<exists>os'. traced P C clk (Suc k) (os @ os') s' \<and> count_out is_accepted os' = 0 \<and>
    count_out is_delivered os' = (case c' of Returned (DequeuedTask t task) \<Rightarrow> 1 | _ \<Rightarrow> 0) \<and>
    (\<forall>t task. c' = Returned (DequeuedTask t task) \<longrightarrow> Delivered t task \<in> set os') \<and>
    drops (shared s') = drops (shared s)"
proof (cases "\<exists>spins observed. c = Looked spins observed")
  case True
  obtain r s1 where t: "try_dequeue clk s = (r, s1)" by fastforce
  have dr: "drops (shared s1) = drops (shared s)"
    using quiet.try_dequeue_inv [where P = "\<lambda>d. d = drops (shared s)", OF t] by simp
  have tr1: "traced P C clk (Suc k) (os @ [dequeue_output r]) s1"
    using traced_exec [OF tr, of Dequeue "dequeue_output r" s1] t by simp
  from True d t dr tr1 show ?thesis
    by (intro exI [of _ "[dequeue_output r]"], cases r) (auto simp: count_out_def)
next
  case False
  have same: "traced P C clk (Suc k) os s" using traced_mono [OF tr] by simp
  from False assms(2) d have "s' = s" "\<forall>t task. c' \<noteq> Returned (DequeuedTask t task)"
    by (cases c; auto simp: Let_def split: if_splits)+
  with same show ?thesis
    by (intro exI [of _ "[]"]) (auto simp: count_out_def split: consumer.split dequeue_result.split)
qed

lemma count_out_append: "count_out P (os @ os') = count_out P os + count_out P os'"
  by (simp add: count_out_def)

text \<open>Under the reject policy an enqueue moves \<open>dropped\<close> exactly when it is rejected.\<close>

lemma reject_enqueue_drops:
  assumes "backpressure_for C t = Reject" and "enqueue_now C clk t task s = Some (r, s')"
  shows "dropped (stats (shared s')) =
    (case r of Rejected _ \<Rightarrow> saturating_add (dropped (stats (shared s))) 1 | _ \<Rightarrow> dropped (stats (shared s)))"
proof -
  obtain a s1 where a: "enqueue_try_reject C clk t task s = (a, s1)" by fastforce
  have "drops (shared s1) = drops (shared s)"
    using quiet.try_reject_inv [where P = "\<lambda>d. d = drops (shared s)", OF a] by simp
  then have d: "dropped (stats (shared s1)) = dropped (stats (shared s))" by (simp add: drops_def)
  show ?thesis
  proof (cases a)
    case (AttemptFull x reason)
    with assms a d show ?thesis
      by (cases reason) (auto simp: enqueue_now_def enqueue_reject_with_handle_def count_up_def)
  qed (use assms a d in \<open>auto simp: enqueue_now_def enqueue_reject_with_handle_def\<close>)
qed

subsection \<open>Tasks that cannot die\<close>

text \<open>
  Without deadlines, cancellations and evictions a task leaves the scheduler only by delivery.
\<close>

definition immortal :: "'a sched \<Rightarrow> bool" where
  "immortal s \<longleftrightarrow> cancelled_ids (shared s) = {} \<and> (\<forall>t p. \<forall>e \<in> set (sched_queue s t p). deadline (entry_task e) = None)"

lemma immortal_not_gone: "immortal s \<Longrightarrow> e \<in> set (sched_queue s t p) \<Longrightarrow> \<not> gone clk (shared s) g' e"
  by (auto simp: immortal_def gone_def is_expired_def)

lemma immortal_none_gone:
  assumes "immortal s" and "R \<subseteq> view_ids (sched_queue s)" and "all_gone clk (shared s) g' (R - X) (sched_queue s)"
  shows "R \<subseteq> X"
proof
  fix j assume j: "j \<in> R"
  with assms(2) obtain t p e where e: "e \<in> set (sched_queue s t p)" "entry_id e = j" unfolding view_ids_def by auto
  show "j \<in> X"
  proof (rule ccontr)
    assume "j \<notin> X"
    with assms(3) e j have "gone clk (shared s) g' e" unfolding all_gone_def by blast
    with immortal_not_gone [OF assms(1) e(1)] show False by blast
  qed
qed

lemma immortal_enqueue:
  assumes im: "immortal s" and bk: "books C 0 a d c (shared s)" and snd: "sound_as C clk {} a d c t task new s s'"
  shows "card (pending_ids (shared s')) = card (pending_ids (shared s)) + (if new = None then 0 else 1)"
    and "cancelled_ids (shared s') = {}"
proof -
  from snd have enq: "enqueues clk {} t task new s s'" and new: "\<And>h. new = Some h \<Longrightarrow> h = Suc a"
    by (auto simp: sound_as_def split: option.splits)
  then obtain R where R: "R \<subseteq> (\<Union>p. set (ids (sched_queue s t p)))"
    and g: "\<forall>u p. \<forall>e \<in> set (sched_queue s u p). entry_id e \<in> R - {} \<longrightarrow> gone clk (shared s) (shared s') e"
    and p: "pending_ids (shared s') = (pending_ids (shared s) - R) \<union> set_option new"
    and k: "cancelled_ids (shared s') = cancelled_ids (shared s) - R" unfolding enqueues_def by blast
  have "R \<subseteq> view_ids (sched_queue s)" using R unfolding view_ids_def by blast
  moreover have "all_gone clk (shared s) (shared s') (R - {}) (sched_queue s)" using g unfolding all_gone_def by blast
  ultimately have e: "R = {}" using immortal_none_gone [OF im] by blast
  show "cancelled_ids (shared s') = {}" using k im by (simp add: immortal_def)
  from bk have "finite (pending_ids (shared s))" "\<forall>i \<in> pending_ids (shared s) \<union> cancelled_ids (shared s). i \<le> a"
    by (simp_all add: books_def)
  moreover from this(2) have "Suc a \<notin> pending_ids (shared s)" by (metis Suc_n_not_le_n UnI1)
  ultimately show "card (pending_ids (shared s')) = card (pending_ids (shared s)) + (if new = None then 0 else 1)"
    using p e new by (cases new) simp_all
qed

lemma immortal_dequeue:
  assumes im: "immortal s" and ok: "sched_ok C s" and bk: "books C 0 a d c (shared s)" and call: "try_dequeue clk s = (r, s')"
  shows "card (pending_ids (shared s')) + (case r of DequeuedTask t task \<Rightarrow> 1 | _ \<Rightarrow> 0) = card (pending_ids (shared s))"
    and "cancelled_ids (shared s') = {}"
proof -
  from try_dequeue_sound [OF ok call] obtain R where
    R: "takes clk R (dequeued_of r) (sched_queue s) (shared s) (sched_queue s') (shared s')" by blast
  from takesD(4) [OF R] have pc: "pending_ids (shared s') = pending_ids (shared s) - R"
    "cancelled_ids (shared s') = cancelled_ids (shared s) - R" by (simp_all add: tally_def)
  with im show "cancelled_ids (shared s') = {}" by (simp add: immortal_def)
  note none = immortal_none_gone [OF im takesD(3) [OF R]]
  show "card (pending_ids (shared s')) + (case r of DequeuedTask t task \<Rightarrow> 1 | _ \<Rightarrow> 0) = card (pending_ids (shared s))"
  proof (cases "dequeued_of r")
    case None
    with takesD(6) [OF R None] none [of clk "shared s'" "{}"] have "R = {}" by simp
    with None pc show ?thesis by (cases r) (simp_all add: dequeued_of_def)
  next
    case (Some x)
    obtain t task where x: "x = (t, task)" by fastforce
    from takesD(7) [OF R Some [unfolded x]] obtain p pre e where "sched_queue s t p = pre @ e # sched_queue s' t p"
      and e: "entry_id e \<in> pending_ids (shared s)" "entry_id e \<in> R"
      "all_gone clk (shared s) (shared s') (R - {entry_id e}) (sched_queue s)" unfolding delivers_def by blast
    from none [OF e(3)] e(2) have "R = {entry_id e}" by blast
    moreover have "finite (pending_ids (shared s))" using bk by (simp add: books_def)
    ultimately have "Suc (card (pending_ids (shared s'))) = card (pending_ids (shared s))"
      using pc e(1) card.remove [of "pending_ids (shared s)" "entry_id e"] by simp
    with Some show ?thesis by (cases r) (simp_all add: dequeued_of_def)
  qed
qed

lemma traced_immortal:
  assumes tr: "traced P C clk k os s" and k: "k \<le> u64_max" and P: "\<And>t task. P t task \<Longrightarrow> deadline task = None"
    and rej: "\<And>t. backpressure_for C t = Reject"
  shows "immortal s \<and> card (pending_ids (shared s)) + count_out is_delivered os = count_out is_accepted os"
proof -
  from tr obtain es where "run C clk es = (os, s)" "length es \<le> k" "\<forall>x \<in> set es. allowed P x" unfolding traced_def by blast
  with k show ?thesis
  proof (induction es arbitrary: os s k rule: rev_induct)
    case Nil
    then show ?case
      by (auto simp: run_def immortal_def count_out_def sched_queue_def squeue_def shard_index_def scheduler_new_def
          shard_new_def Let_def split: option.splits)
  next
    case (snoc x es)
    obtain os1 s1 where r: "run C clk es = (os1, s1)" by fastforce
    obtain out s2 where c: "exec C clk x s1 = (out, s2)" by fastforce
    from snoc.prems r c have eq: "os = os1 @ [out]" "s = s2" by (simp_all add: run_def run_step_def)
    have l: "length es \<le> u64_max" and x: "allowed P x" using snoc.prems by simp_all
    from snoc.IH [OF l r order_refl] snoc.prems have im: "immortal s1"
      and n: "card (pending_ids (shared s1)) + count_out is_delivered os1 = count_out is_accepted os1" by auto
    note i = run_inv_run [OF l r]
    have "traced P C clk (Suc (length es)) os s2"
      using snoc.prems eq by (auto simp: traced_def intro!: exI [of _ "es @ [x]"])
    moreover have "Suc (length es) \<le> u64_max" using snoc.prems by simp
    ultimately have dl: "deadline (entry_task e) = None" if "e \<in> set (sched_queue s2 t p)" for e t p
      using traced_tasks(1) P that by blast
    have "cancelled_ids (shared s2) = {} \<and>
        card (pending_ids (shared s2)) + tick (is_delivered out) = card (pending_ids (shared s1)) + tick (is_accepted out)"
    proof (cases x)
      case (EnqueueNow t task)
      obtain r s3 where e: "enqueue_reject_with_handle C clk t task s1 = (r, s3)" by fastforce
      with c EnqueueNow have o: "out = enqueue_output r" "s3 = s2" by (simp_all add: enqueue_now_def rej)
      have "count_out is_accepted os1 < u64_max" using i(2) snoc.prems(1,3) by simp
      from immortal_enqueue [OF im i(3) enqueue_reject_sound [OF i(1,3) this e]] o
      show ?thesis by (cases r) simp_all
    next
      case Dequeue
      obtain r s3 where e: "try_dequeue clk s1 = (r, s3)" by fastforce
      with c Dequeue have o: "out = dequeue_output r" "s3 = s2" by simp_all
      from immortal_dequeue [OF im i(1,3) e] o show ?thesis by (cases r) simp_all
    next
      case (Close mode)
      with c im show ?thesis by (auto simp: immortal_def close_with_mode_def frame_simps)
    next
      case GiveUp
      with c im show ?thesis by (auto simp: immortal_def frame_simps)
    next
      case LookAtClock
      with c im show ?thesis by (auto simp: immortal_def frame_simps)
    next
      case (ClearQuantum t)
      with c im show ?thesis by (auto simp: immortal_def clear_tenant_quantum_def Let_def)
    qed (use x in simp_all)
    with n dl show ?case unfolding eq by (auto simp: immortal_def count_out_snoc)
  qed
qed

end
