(* ===== verification/Exactly_Once.thy ===== *)
theory Exactly_Once
  imports Traces
begin

text \<open>
  The contents of deliveries: a run hands out the very tasks it was given, each under the tenant
  it was given for and at most once.
\<close>

subsection \<open>What went in and what came out\<close>

fun accepted_item :: "'a op \<Rightarrow> 'a answer \<Rightarrow> (tenant_key \<times> 'a task) list" where
  "accepted_item (EnqueueNow t task) (Accepted h) = [(t, task)]"
| "accepted_item (Attempt t task) (Accepted h) = [(t, task)]"
| "accepted_item e out = []"

definition accepted_items :: "'a op list \<Rightarrow> 'a answer list \<Rightarrow> (tenant_key \<times> 'a task) list" where
  "accepted_items es os = concat (map2 accepted_item es os)"

fun delivered_item :: "'a answer \<Rightarrow> (tenant_key \<times> 'a task) list" where
  "delivered_item (Delivered t task) = [(t, task)]"
| "delivered_item out = []"

definition delivered_items :: "'a answer list \<Rightarrow> (tenant_key \<times> 'a task) list" where
  "delivered_items os = concat (map delivered_item os)"

lemma accepted_items_snoc:
  "length es = length os \<Longrightarrow> accepted_items (es @ [x]) (os @ [out]) = accepted_items es os @ accepted_item x out"
  by (simp add: accepted_items_def)

lemma delivered_items_snoc: "delivered_items (os @ [out]) = delivered_items os @ delivered_item out"
  by (simp add: delivered_items_def)

subsection \<open>A step\<close>

text \<open>A new entry is that of the task accepted, under its handle.\<close>

lemma exec_new_entry:
  assumes ok: "sched_ok C s" and bk: "books C 0 a d c (shared s)" and a: "a < u64_max"
    and call: "exec C clk x s = (out, s')" and e: "e \<in> set (sched_queue s' t p)"
  shows "e \<in> set (sched_queue s t p) \<or>
    (accepted_item x out = [(t, entry_task e)] \<and> out = Accepted (TaskHandle (entry_id e)))"
proof (cases x)
  case (EnqueueNow u task)
  show ?thesis
  proof (cases "enqueue_now C clk u task s")
    case (Some y)
    then obtain r s1 where y: "enqueue_now C clk u task s = Some (r, s1)" by (cases y) simp
    with call EnqueueNow have s1: "s1 = s'" "out = enqueue_output r" by simp_all
    from enqueue_now_sound [OF ok bk a y] obtain V
      where "sound_as C clk V a d c u task (accepted_id r) s s'" using s1 by blast
    from sound_as_entries [OF this e] EnqueueNow s1 show ?thesis by (cases r) (auto intro: task_handle.expand)
  qed (use call EnqueueNow e in simp)
next
  case (Attempt u task)
  obtain r s1 where y: "enqueue_try_reject C clk u task s = (r, s1)" by fastforce
  with call Attempt have s1: "s1 = s'" "out = attempt_output r" by simp_all
  from enqueue_try_reject_sound [OF ok bk a y] s1 have "sound_as C clk {} a d c u task (attempt_id r) s s'" by simp
  from sound_as_entries [OF this e] Attempt s1 show ?thesis by (cases r) (auto intro: task_handle.expand)
next
  case Dequeue
  with exec_entries [OF ok bk a call e] show ?thesis by simp
next
  case (Cancel h)
  with exec_entries [OF ok bk a call e] show ?thesis by simp
next
  case (SetProvider f)
  with exec_entries [OF ok bk a call e] show ?thesis by simp
qed (use call e in auto)

lemma accepted_item_length: "exec C clk x s = (out, s') \<Longrightarrow> length (accepted_item x out) = tick (is_accepted out)"
  by (cases x; cases out)
    (auto split: option.splits prod.splits simp: Let_def elim: enqueue_output.elims attempt_output.elims cancel_output.elims
      dequeue_output.elims)

subsection \<open>Every run\<close>

definition one_each :: "(tenant_key \<times> 'a task) list \<Rightarrow> nat list \<Rightarrow> 'a answer list \<Rightarrow> 'a sched \<Rightarrow> bool" where
  "one_each its ds os s \<longleftrightarrow> length its = count_out is_accepted os \<and>
     (\<forall>t p. \<forall>e \<in> set (sched_queue s t p). entry_id e \<in> {1..length its} \<and> its ! (entry_id e - 1) = (t, entry_task e)) \<and>
     distinct ds \<and> set ds \<subseteq> {1..length its} \<and> set ds \<inter> pending_ids (shared s) = {} \<and>
     delivered_items os = map (\<lambda>i. its ! (i - 1)) ds"

lemma one_each_step:
  assumes inv: "one_each its ds os s" and ok: "sched_ok C s" and bk: "books C 0 (count_out is_accepted os) d c (shared s)"
    and a: "count_out is_accepted os < u64_max" and call: "exec C clk x s = (out, s')"
  shows "\<exists>ds'. one_each (its @ accepted_item x out) ds' (os @ [out]) s'"
proof -
  let ?n = "length its" and ?its = "its @ accepted_item x out"
  from inv have n: "?n = count_out is_accepted os" and ds: "distinct ds" "set ds \<subseteq> {1..?n}" "set ds \<inter> pending_ids (shared s) = {}"
    and del: "delivered_items os = map (\<lambda>i. its ! (i - 1)) ds"
    and q: "\<And>t p e. e \<in> set (sched_queue s t p) \<Longrightarrow> entry_id e \<in> {1..?n} \<and> its ! (entry_id e - 1) = (t, entry_task e)"
    unfolding one_each_def by blast+
  from exec_sound [OF ok bk a call] have h: "\<And>h. out = Accepted h \<Longrightarrow> h = TaskHandle (Suc ?n)"
    and pend: "pending_ids (shared s') \<subseteq> pending_ids (shared s) \<union> (if is_accepted out then {Suc ?n} else {})"
    by (auto simp: step_sound_def n)
  have len: "length ?its = count_out is_accepted (os @ [out])"
    using accepted_item_length [OF call] n by (simp add: count_out_snoc)
  have old: "?its ! (i - 1) = its ! (i - 1)" if "i \<in> {1..?n}" for i using that by (auto simp: nth_append)
  have entries: "entry_id e \<in> {1..length ?its} \<and> ?its ! (entry_id e - 1) = (t, entry_task e)"
    if e: "e \<in> set (sched_queue s' t p)" for e t p
    using exec_new_entry [OF ok bk a call e]
  proof
    assume "e \<in> set (sched_queue s t p)"
    from q [OF this] old [of "entry_id e"] show ?thesis by auto
  next
    assume new: "accepted_item x out = [(t, entry_task e)] \<and> out = Accepted (TaskHandle (entry_id e))"
    with h have "entry_id e = Suc ?n" by simp
    moreover from new have "?its = its @ [(t, entry_task e)]" by (elim conjE) (simp only:)
    ultimately show ?thesis by (simp del: append_same_eq)
  qed
  have apart: "set ds \<inter> pending_ids (shared s') = {}"
  proof -
    from ds(2) have "Suc ?n \<notin> set ds" by auto
    with ds(3) pend show ?thesis by (auto split: if_split_asm)
  qed
  have same: "map (\<lambda>i. its ! (i - 1)) ds = map (\<lambda>i. ?its ! (i - 1)) ds" using ds(2) old by (intro map_cong) auto
  have sub: "set ds \<subseteq> {1..length ?its}" using ds(2) by auto
  show ?thesis
  proof (cases "delivered_item out")
    case Nil
    with len entries apart ds(1) sub del same show ?thesis
      by (intro exI [of _ ds]) (simp add: one_each_def delivered_items_snoc)
  next
    case (Cons y ys)
    then obtain t task where out: "out = Delivered t task" by (cases out) simp_all
    then have "x = Dequeue"
      using call by (cases x) (auto split: option.splits prod.splits simp: Let_def elim: enqueue_output.elims attempt_output.elims cancel_output.elims)
    with call out obtain r where y: "try_dequeue clk s = (r, s')" "dequeue_output r = Delivered t task" by (auto split: prod.splits)
    then have "try_dequeue clk s = (DequeuedTask t task, s')" by (cases r) simp_all
    from delivered_entry [OF ok this] obtain p pre e where e: "sched_queue s t p = pre @ e # sched_queue s' t p"
      "entry_task e = task" "entry_id e \<in> pending_ids (shared s)" "entry_id e \<notin> pending_ids (shared s')" by blast
    then have i: "entry_id e \<in> {1..?n}" "its ! (entry_id e - 1) = (t, task)" using q [of e t p] by auto
    have "entry_id e \<notin> set ds" using ds(3) e(3) by blast
    with len entries apart ds(1) sub del same i e(4) out old [OF i(1)] show ?thesis
      by (intro exI [of _ "ds @ [entry_id e]"]) (auto simp: one_each_def delivered_items_snoc)
  qed
qed

lemma run_one_each:
  assumes "length es \<le> u64_max" and "run C clk es = (os, s)"
  shows "\<exists>ds. one_each (accepted_items es os) ds os s"
  using assms
proof (induction es arbitrary: os s rule: rev_induct)
  case Nil
  then show ?case
    by (auto simp: run_def one_each_def accepted_items_def delivered_items_def count_out_def sched_queue_def squeue_def
        shard_index_def scheduler_new_def shard_new_def Let_def split: option.splits)
next
  case (snoc x es)
  obtain os1 s1 where r: "run C clk es = (os1, s1)" by fastforce
  obtain out s2 where c: "exec C clk x s1 = (out, s2)" by fastforce
  from snoc.prems r c have eq: "os = os1 @ [out]" "s = s2" by (simp_all add: run_def run_step_def)
  have l: "length es \<le> u64_max" using snoc.prems by simp
  note i = run_inv_run [OF l r]
  from snoc.IH [OF l r] obtain ds where "one_each (accepted_items es os1) ds os1 s1" by blast
  moreover have "count_out is_accepted os1 < u64_max" using i(2) snoc.prems(1) by simp
  ultimately show ?case
    using one_each_step [OF _ i(1,3) _ c] run_length [OF r] by (simp add: eq accepted_items_snoc)
qed

text \<open>
  C2: What a run delivers is what it was given: the tasks delivered are, in the order of delivery,
  accepted tasks, each with its payload, deadline, priority and cost, under the tenant it was
  enqueued for, and none twice. The \<open>i\<close>-th task accepted is the one with handle \<open>i\<close>, and a task
  that was delivered is no longer pending.
\<close>

theorem delivered_once:
  assumes "length es \<le> u64_max" and "run C clk es = (os, s)"
  shows "\<exists>ds. distinct ds \<and> set ds \<subseteq> {1..length (accepted_items es os)} \<and>
    delivered_items os = map (\<lambda>i. accepted_items es os ! (i - 1)) ds \<and>
    handles os = map TaskHandle [1..<Suc (length (accepted_items es os))] \<and>
    set ds \<inter> pending_ids (shared s) = {}"
proof -
  from run_one_each [OF assms] obtain ds where "one_each (accepted_items es os) ds os s" by blast
  with run_inv_run(4) [OF assms] show ?thesis by (intro exI [of _ ds]) (auto simp: one_each_def)
qed

theorem delivered_once_witness:
  "\<exists>os s ds. demo_run [EnqueueNow tenant7 (demo_task 0), EnqueueNow tenant7 (demo_task 1), Dequeue, Dequeue] = (os, s) \<and>
    delivered_items os = [(tenant7, demo_task 0)] \<and> accepted_items [EnqueueNow tenant7 (demo_task 0),
      EnqueueNow tenant7 (demo_task 1), Dequeue, Dequeue] os = [(tenant7, demo_task 0), (tenant7, demo_task 1)] \<and>
    distinct ds \<and> set ds \<subseteq> {1..2} \<and> set ds \<inter> pending_ids (shared s) = {}"
proof -
  let ?es = "[EnqueueNow tenant7 (demo_task 0), EnqueueNow tenant7 (demo_task 1), Dequeue, Dequeue]"
  obtain os s where r: "demo_run ?es = (os, s)" by fastforce
  then have o: "delivered_items os = [(tenant7, demo_task 0)]"
    "accepted_items ?es os = [(tenant7, demo_task 0), (tenant7, demo_task 1)]"
    by (auto simp: eval delivered_items_def accepted_items_def)
  from delivered_once [OF _ r] obtain ds where "distinct ds" "set ds \<subseteq> {1..length (accepted_items ?es os)}"
    "set ds \<inter> pending_ids (shared s) = {}" by auto
  with o r show ?thesis by (intro exI [of _ os] exI [of _ s] exI [of _ ds]) (auto simp: numeral_2_eq_2)
qed

end
