(* ===== verification/Bench_Fifo.thy ===== *)
theory Bench_Fifo
  imports Api
begin

text \<open>
  \<open>FifoQueue\<close> of \<open>firq-bench\<close>, the queue the benchmark compares the scheduler with: a mutex, a
  condition variable and an atomic flag. The threads are modelled step by step between their
  accesses to these three, any number of consumers, producers and closers; \<open>pushed\<close> and
  \<open>popped\<close> record, for the statements only, what entered and left the queue.
\<close>

subsection \<open>The threads\<close>

text \<open>
  \<open>dequeue_blocking\<close>: before the lock, at the top of the loop with the lock, after it found the
  queue empty and not closed, inside \<open>wait\<close>, woken but without the lock, returned.
\<close>

datatype 'a fifo_consumer =
    CStart
  | CLocked
  | CChecked
  | CAsleep
  | CWoken
  | CReturned "'a task option"

text \<open>\<open>enqueue\<close>: before the flag, before the lock, with the lock, before \<open>notify_one\<close>, returned.\<close>

datatype 'a fifo_producer =
    PStart "'a task"
  | POpen "'a task"
  | PLocked "'a task"
  | PNotify
  | PReturned bool

text \<open>\<open>close\<close>: before the swap, before \<open>notify_all\<close>, returned.\<close>

datatype fifo_closer = KStart | KNotify | KReturned

record 'a fifo_queue =
  fifo_items :: "'a task list"
  fifo_locked :: bool
  fifo_closed :: bool
  fifo_max_global :: usize
  fifo_dropped :: nat
  fifo_consumers :: "'a fifo_consumer list"
  fifo_producers :: "'a fifo_producer list"
  fifo_closers :: "fifo_closer list"
  pushed :: "'a task list"
  popped :: "'a task list"

text \<open>\<open>FifoQueue::new\<close>, with the threads that will use it: none has called yet.\<close>

definition fifo_new :: "usize \<Rightarrow> nat \<Rightarrow> nat \<Rightarrow> nat \<Rightarrow> 'a fifo_queue" where
  "fifo_new limit nc np nk =
    \<lparr>fifo_items = [], fifo_locked = False, fifo_closed = False, fifo_max_global = limit, fifo_dropped = 0,
     fifo_consumers = replicate nc (CReturned None), fifo_producers = replicate np (PReturned False),
     fifo_closers = replicate nk KReturned, pushed = [], popped = []\<rparr>"

text \<open>A turn of a consumer; a consumer that waits for the lock stays where it is.\<close>

fun fifo_dequeue :: "'a fifo_consumer \<Rightarrow> 'a fifo_queue \<Rightarrow> 'a fifo_consumer \<times> 'a fifo_queue" where
  "fifo_dequeue CStart q = (if fifo_locked q then (CStart, q) else (CLocked, q\<lparr>fifo_locked := True\<rparr>))"
| "fifo_dequeue CLocked q =
    (case fifo_items q of
       task # rest \<Rightarrow>
         (CReturned (Some task), q\<lparr>fifo_items := rest, fifo_locked := False, popped := popped q @ [task]\<rparr>)
     | [] \<Rightarrow> if fifo_closed q then (CReturned None, q\<lparr>fifo_locked := False\<rparr>) else (CChecked, q))"
| "fifo_dequeue CChecked q = (CAsleep, q\<lparr>fifo_locked := False\<rparr>)"
| "fifo_dequeue CAsleep q = (CAsleep, q)"
| "fifo_dequeue CWoken q = (if fifo_locked q then (CWoken, q) else (CLocked, q\<lparr>fifo_locked := True\<rparr>))"
| "fifo_dequeue (CReturned r) q = (CReturned r, q)"

text \<open>
  \<open>notify_one\<close> wakes one of the waiting threads, the one preferred if it waits; \<open>notify_all\<close>
  wakes them all.
\<close>

fun wake_first :: "'a fifo_consumer list \<Rightarrow> 'a fifo_consumer list" where
  "wake_first [] = []"
| "wake_first (c # cs) = (case c of CAsleep \<Rightarrow> CWoken # cs | _ \<Rightarrow> c # wake_first cs)"

fun asleep :: "'a fifo_consumer \<Rightarrow> bool" where
  "asleep CAsleep = True"
| "asleep c = False"

definition fifo_wake :: "nat \<Rightarrow> 'a fifo_consumer list \<Rightarrow> 'a fifo_consumer list" where
  "fifo_wake w cs = (if w < length cs \<and> asleep (cs ! w) then cs[w := CWoken] else cs)"

definition notify_one :: "nat \<Rightarrow> 'a fifo_consumer list \<Rightarrow> 'a fifo_consumer list" where
  "notify_one w cs = (if w < length cs \<and> asleep (cs ! w) then fifo_wake w cs else wake_first cs)"

definition notify_waiting :: "'a fifo_consumer list \<Rightarrow> 'a fifo_consumer list" where
  "notify_waiting cs = map (\<lambda>c. if asleep c then CWoken else c) cs"

fun fifo_enqueue :: "nat \<Rightarrow> 'a fifo_producer \<Rightarrow> 'a fifo_queue \<Rightarrow> 'a fifo_producer \<times> 'a fifo_queue" where
  "fifo_enqueue w (PStart task) q = (if fifo_closed q then (PReturned False, q) else (POpen task, q))"
| "fifo_enqueue w (POpen task) q =
    (if fifo_locked q then (POpen task, q) else (PLocked task, q\<lparr>fifo_locked := True\<rparr>))"
| "fifo_enqueue w (PLocked task) q =
    (if unat (fifo_max_global q) \<le> length (fifo_items q) then
       (PReturned False, q\<lparr>fifo_dropped := (fifo_dropped q + 1) mod 2 ^ 64, fifo_locked := False\<rparr>)
     else (PNotify, q\<lparr>fifo_items := fifo_items q @ [task], fifo_locked := False, pushed := pushed q @ [task]\<rparr>))"
| "fifo_enqueue w PNotify q = (PReturned True, q\<lparr>fifo_consumers := notify_one w (fifo_consumers q)\<rparr>)"
| "fifo_enqueue w (PReturned r) q = (PReturned r, q)"

fun fifo_close :: "fifo_closer \<Rightarrow> 'a fifo_queue \<Rightarrow> fifo_closer \<times> 'a fifo_queue" where
  "fifo_close KStart q = (if fifo_closed q then KReturned else KNotify, q\<lparr>fifo_closed := True\<rparr>)"
| "fifo_close KNotify q = (KReturned, q\<lparr>fifo_consumers := notify_waiting (fifo_consumers q)\<rparr>)"
| "fifo_close KReturned q = (KReturned, q)"

text \<open>
  What can happen: a thread that has returned calls again, a thread takes a turn (a notifying
  producer with its choice of whom to wake), or a wait ends without a notification.
\<close>

datatype 'a fifo_event =
    CallDequeue nat
  | CallEnqueue nat "'a task"
  | CallClose nat
  | ConsumerTurn nat
  | ProducerTurn nat nat
  | CloserTurn nat
  | SpuriousWakeup nat

fun fifo_step :: "'a fifo_event \<Rightarrow> 'a fifo_queue \<Rightarrow> 'a fifo_queue" where
  "fifo_step (CallDequeue i) q =
    (if i < length (fifo_consumers q) then
       case fifo_consumers q ! i of
         CReturned r \<Rightarrow> q\<lparr>fifo_consumers := (fifo_consumers q)[i := CStart]\<rparr>
       | _ \<Rightarrow> q
     else q)"
| "fifo_step (CallEnqueue i task) q =
    (if i < length (fifo_producers q) then
       case fifo_producers q ! i of
         PReturned r \<Rightarrow> q\<lparr>fifo_producers := (fifo_producers q)[i := PStart task]\<rparr>
       | _ \<Rightarrow> q
     else q)"
| "fifo_step (CallClose i) q =
    (if i < length (fifo_closers q) \<and> fifo_closers q ! i = KReturned
     then q\<lparr>fifo_closers := (fifo_closers q)[i := KStart]\<rparr> else q)"
| "fifo_step (ConsumerTurn i) q =
    (if i < length (fifo_consumers q) then
       let (c, q') = fifo_dequeue (fifo_consumers q ! i) q
       in q'\<lparr>fifo_consumers := (fifo_consumers q')[i := c]\<rparr>
     else q)"
| "fifo_step (ProducerTurn i w) q =
    (if i < length (fifo_producers q) then
       let (p, q') = fifo_enqueue w (fifo_producers q ! i) q
       in q'\<lparr>fifo_producers := (fifo_producers q')[i := p]\<rparr>
     else q)"
| "fifo_step (CloserTurn i) q =
    (if i < length (fifo_closers q) then
       let (k, q') = fifo_close (fifo_closers q ! i) q
       in q'\<lparr>fifo_closers := (fifo_closers q')[i := k]\<rparr>
     else q)"
| "fifo_step (SpuriousWakeup i) q = q\<lparr>fifo_consumers := fifo_wake i (fifo_consumers q)\<rparr>"

definition fifo_run :: "'a fifo_event list \<Rightarrow> 'a fifo_queue \<Rightarrow> 'a fifo_queue" where
  "fifo_run evs q = fold fifo_step evs q"

subsection \<open>Order, bound and wake-ups\<close>

fun holds_lock :: "'a fifo_consumer \<Rightarrow> bool" where
  "holds_lock CLocked = True"
| "holds_lock CChecked = True"
| "holds_lock c = False"

text \<open>Will look at the queue before it can fall asleep.\<close>

fun about_to_look :: "'a fifo_consumer \<Rightarrow> bool" where
  "about_to_look CStart = True"
| "about_to_look CLocked = True"
| "about_to_look CWoken = True"
| "about_to_look c = False"

fun checked :: "'a fifo_consumer \<Rightarrow> bool" where
  "checked CChecked = True"
| "checked c = False"

fun producer_locked :: "'a fifo_producer \<Rightarrow> bool" where
  "producer_locked (PLocked task) = True"
| "producer_locked p = False"

fun notifying :: "'a fifo_producer \<Rightarrow> bool" where
  "notifying PNotify = True"
| "notifying p = False"

definition fifo_inv :: "'a fifo_queue \<Rightarrow> bool" where
  "fifo_inv q \<longleftrightarrow> pushed q = popped q @ fifo_items q \<and> length (fifo_items q) \<le> unat (fifo_max_global q) \<and>
     number holds_lock (fifo_consumers q) + number producer_locked (fifo_producers q) = (if fifo_locked q then 1 else 0) \<and>
     (0 < number checked (fifo_consumers q) \<longrightarrow> fifo_items q = []) \<and>
     (0 < number asleep (fifo_consumers q) \<longrightarrow>
        length (fifo_items q) \<le> number about_to_look (fifo_consumers q) + number notifying (fifo_producers q))"

lemma checked_holds_lock: "number checked cs \<le> number holds_lock cs"
proof (induction cs)
  case (Cons c cs)
  then show ?case by (cases c) simp_all
qed simp

lemma wake_first_numbers:
  "0 < number asleep cs \<Longrightarrow> number about_to_look (wake_first cs) = Suc (number about_to_look cs)"
  "number holds_lock (wake_first cs) = number holds_lock cs"
  "number checked (wake_first cs) = number checked cs"
  "number asleep (wake_first cs) = number asleep cs - 1"
  by (induction cs) (auto split: fifo_consumer.split)

lemma fifo_wake_numbers:
  "number about_to_look (fifo_wake w cs) = number about_to_look cs + (if w < length cs \<and> asleep (cs ! w) then 1 else 0)"
  "number holds_lock (fifo_wake w cs) = number holds_lock cs"
  "number checked (fifo_wake w cs) = number checked cs"
  "number asleep (fifo_wake w cs) \<le> number asleep cs"
proof -
  have a: "asleep c \<longleftrightarrow> c = CAsleep" for c :: "'a fifo_consumer" by (cases c) simp_all
  note n = number_update [of w cs _ CWoken]
  show "number about_to_look (fifo_wake w cs) = number about_to_look cs + (if w < length cs \<and> asleep (cs ! w) then 1 else 0)"
    using n [of about_to_look] by (auto simp: fifo_wake_def a)
  show "number holds_lock (fifo_wake w cs) = number holds_lock cs"
    using n [of holds_lock] by (auto simp: fifo_wake_def a)
  show "number checked (fifo_wake w cs) = number checked cs"
    using n [of checked] by (auto simp: fifo_wake_def a)
  show "number asleep (fifo_wake w cs) \<le> number asleep cs"
    using n [of asleep] by (auto simp: fifo_wake_def a)
qed

lemma notify_one_numbers:
  "0 < number asleep cs \<Longrightarrow> number about_to_look (notify_one w cs) = Suc (number about_to_look cs)"
  "number holds_lock (notify_one w cs) = number holds_lock cs"
  "number checked (notify_one w cs) = number checked cs"
  "number asleep (notify_one w cs) \<le> number asleep cs"
  using wake_first_numbers [of cs] fifo_wake_numbers [of w cs] by (auto simp: notify_one_def)

lemma notify_waiting_numbers:
  "number holds_lock (notify_waiting cs) = number holds_lock cs"
  "number checked (notify_waiting cs) = number checked cs"
  "number asleep (notify_waiting cs) = 0"
proof (induction cs)
  case (Cons c cs)
  {
    case 1
    with Cons show ?case by (cases c) (simp_all add: notify_waiting_def)
  next
    case 2
    with Cons show ?case by (cases c) (simp_all add: notify_waiting_def)
  next
    case 3
    with Cons show ?case by (cases c) (simp_all add: notify_waiting_def)
  }
qed (simp_all add: notify_waiting_def)

lemma consumer_turn_inv:
  assumes inv: "fifo_inv q" and i: "i < length (fifo_consumers q)"
  shows "fifo_inv (fifo_step (ConsumerTurn i) q)"
proof -
  let ?c = "fifo_consumers q ! i"
  note n = number_update [OF i]
  have lock: "number checked (fifo_consumers q) \<le> number holds_lock (fifo_consumers q)"
    by (rule checked_holds_lock)
  have in_set: "P ?c \<Longrightarrow> 0 < number P (fifo_consumers q)" for P
    using i by (rule number_pos [OF nth_mem])
  show ?thesis
  proof (cases ?c)
    case CStart
    then have "(fifo_consumers q)[i := CStart] = fifo_consumers q" using list_update_id [of "fifo_consumers q" i] by simp
    with CStart inv i n [of holds_lock CLocked] n [of about_to_look CLocked] n [of asleep CLocked] n [of checked CLocked] lock
    show ?thesis by (auto simp: fifo_inv_def)
  next
    case CWoken
    then have "(fifo_consumers q)[i := CWoken] = fifo_consumers q" using list_update_id [of "fifo_consumers q" i] by simp
    with CWoken inv i n [of holds_lock CLocked] n [of about_to_look CLocked] n [of asleep CLocked] n [of checked CLocked] lock
    show ?thesis by (auto simp: fifo_inv_def)
  next
    case CLocked
    from inv in_set [of holds_lock] CLocked have lk: "fifo_locked q" by (auto simp: fifo_inv_def split: if_splits)
    show ?thesis
    proof (cases "fifo_items q")
      case Nil
      with inv i CLocked lk lock n [of holds_lock CChecked] n [of about_to_look CChecked] n [of asleep CChecked]
        n [of holds_lock "CReturned None"] n [of about_to_look "CReturned None"] n [of asleep "CReturned None"]
      show ?thesis by (simp add: fifo_inv_def)
    next
      case (Cons task rest)
      let ?r = "CReturned (Some task)"
      from inv i CLocked Cons lk lock n [of holds_lock ?r] n [of about_to_look ?r] n [of asleep ?r] n [of checked ?r]
      show ?thesis by (auto simp: fifo_inv_def)
    qed
  next
    case CChecked
    from inv in_set [of holds_lock] CChecked have lk: "fifo_locked q" by (auto simp: fifo_inv_def split: if_splits)
    from inv in_set [of checked] CChecked have "fifo_items q = []" by (auto simp: fifo_inv_def)
    with inv i CChecked lk n [of holds_lock CAsleep]
    show ?thesis by (simp add: fifo_inv_def)
  next
    case CAsleep
    with inv i show ?thesis using list_update_id [of "fifo_consumers q" i] by simp
  next
    case (CReturned r)
    with inv i show ?thesis using list_update_id [of "fifo_consumers q" i] by simp
  qed
qed

lemma producer_turn_inv:
  assumes inv: "fifo_inv q" and i: "i < length (fifo_producers q)"
  shows "fifo_inv (fifo_step (ProducerTurn i w) q)"
proof -
  let ?p = "fifo_producers q ! i"
  note n = number_update [OF i]
  have lock: "number checked (fifo_consumers q) \<le> number holds_lock (fifo_consumers q)"
    by (rule checked_holds_lock)
  have in_set: "P ?p \<Longrightarrow> 0 < number P (fifo_producers q)" for P
    using i by (rule number_pos [OF nth_mem])
  show ?thesis
  proof (cases ?p)
    case (PStart task)
    with inv i n [of producer_locked "PReturned False"] n [of notifying "PReturned False"]
      n [of producer_locked "POpen task"] n [of notifying "POpen task"]
    show ?thesis by (auto simp: fifo_inv_def split: if_splits)
  next
    case (POpen task)
    with inv i n [of producer_locked "PLocked task"] n [of notifying "PLocked task"]
      n [of producer_locked "POpen task"] n [of notifying "POpen task"]
    show ?thesis by (auto simp: fifo_inv_def split: if_splits)
  next
    case (PLocked task)
    from inv in_set [of producer_locked] PLocked have "fifo_locked q" by (auto simp: fifo_inv_def split: if_splits)
    with inv i PLocked n [of producer_locked "PReturned False"] n [of notifying "PReturned False"]
      n [of producer_locked PNotify] n [of notifying PNotify] in_set [of producer_locked] lock
    show ?thesis by (auto simp: fifo_inv_def)
  next
    case PNotify
    with inv i n [of producer_locked "PReturned True"] n [of notifying "PReturned True"] notify_one_numbers [where cs = "fifo_consumers q" and w = w]
    show ?thesis by (auto simp: fifo_inv_def)
  next
    case (PReturned r)
    with inv i show ?thesis using list_update_id [of "fifo_producers q" i] by simp
  qed
qed

lemma fifo_step_inv:
  assumes inv: "fifo_inv q"
  shows "fifo_inv (fifo_step ev q)"
proof (cases ev)
  case (CallDequeue i)
  show ?thesis
  proof (cases "i < length (fifo_consumers q) \<and> (\<exists>r. fifo_consumers q ! i = CReturned r)")
    case True
    with inv CallDequeue number_update [of i "fifo_consumers q" holds_lock CStart] number_update [of i "fifo_consumers q" asleep CStart]
      number_update [of i "fifo_consumers q" about_to_look CStart] number_update [of i "fifo_consumers q" checked CStart]
    show ?thesis by (auto simp: fifo_inv_def)
  next
    case False
    with inv CallDequeue show ?thesis by (auto split: fifo_consumer.split)
  qed
next
  case (CallEnqueue i task)
  show ?thesis
  proof (cases "i < length (fifo_producers q) \<and> (\<exists>r. fifo_producers q ! i = PReturned r)")
    case True
    with inv CallEnqueue number_update [of i "fifo_producers q" producer_locked "PStart task"]
      number_update [of i "fifo_producers q" notifying "PStart task"]
    show ?thesis by (auto simp: fifo_inv_def)
  next
    case False
    with inv CallEnqueue show ?thesis by (auto split: fifo_producer.split)
  qed
next
  case (CallClose i)
  with inv show ?thesis by (simp add: fifo_inv_def)
next
  case (ConsumerTurn i)
  with inv consumer_turn_inv [of q i] show ?thesis by (cases "i < length (fifo_consumers q)") simp_all
next
  case (ProducerTurn i w)
  with inv producer_turn_inv [of q i w] show ?thesis by (cases "i < length (fifo_producers q)") simp_all
next
  case (CloserTurn i)
  with inv notify_waiting_numbers [of "fifo_consumers q"] show ?thesis
    by (cases "i < length (fifo_closers q)"; cases "fifo_closers q ! i") (auto simp: fifo_inv_def)
next
  case (SpuriousWakeup i)
  with inv fifo_wake_numbers [of i "fifo_consumers q"] show ?thesis by (auto simp: fifo_inv_def)
qed

lemma fifo_run_inv: "fifo_inv q \<Longrightarrow> fifo_inv (fifo_run evs q)"
  by (induction evs arbitrary: q) (simp_all add: fifo_run_def fifo_step_inv)


text \<open>
  C35: The benchmark's FIFO queue hands tasks out in the order they came in, each to one
  consumer, and never holds more than its limit. No task waits beside a sleeping consumer
  unattended: while one sleeps, there are at least as many consumers about to look at the queue
  or producers about to notify as tasks in it.
\<close>

theorem fifo_queue_sound:
  assumes "fifo_run evs (fifo_new limit nc np nk) = q"
  shows "pushed q = popped q @ fifo_items q \<and> length (fifo_items q) \<le> unat limit \<and>
    (CAsleep \<in> set (fifo_consumers q) \<longrightarrow>
       length (fifo_items q) \<le> number about_to_look (fifo_consumers q) + number notifying (fifo_producers q))"
proof -
  have "fifo_inv (fifo_new limit nc np nk)" by (simp add: fifo_inv_def fifo_new_def number_replicate)
  from fifo_run_inv [OF this, of evs] assms have inv: "fifo_inv q" by simp
  have "fifo_max_global (fifo_step ev p) = fifo_max_global p" for ev and p :: "'a fifo_queue"
  proof (cases ev)
    case (ConsumerTurn i)
    then show ?thesis
      by (cases "fifo_consumers p ! i") (auto split: list.split)
  next
    case (ProducerTurn i w)
    then show ?thesis by (cases "fifo_producers p ! i") auto
  next
    case (CloserTurn i)
    then show ?thesis by (cases "fifo_closers p ! i") auto
  qed (auto split: fifo_consumer.split fifo_producer.split)
  then have "fifo_max_global (fifo_run evs p) = fifo_max_global p" for p :: "'a fifo_queue"
    by (induction evs arbitrary: p) (simp_all add: fifo_run_def)
  with assms have "fifo_max_global q = limit" by (auto simp: fifo_new_def)
  with inv number_pos [of CAsleep "fifo_consumers q" asleep] show ?thesis by (auto simp: fifo_inv_def)
qed

definition sample_task :: "nat task" where
  "sample_task = \<lparr>payload = 0, enqueue_ts = 0, deadline = None, prio = Normal, cost = 1\<rparr>"

theorem fifo_queue_sound_witness:
  "\<exists>q. fifo_run [CallDequeue 0, ConsumerTurn 0, ConsumerTurn 0, ConsumerTurn 0, CallEnqueue 0 sample_task,
      ProducerTurn 0 0, ProducerTurn 0 0, ProducerTurn 0 0] (fifo_new 2 1 1 0) = q \<and>
    CAsleep \<in> set (fifo_consumers q) \<and> fifo_items q = [sample_task] \<and>
    1 \<le> number about_to_look (fifo_consumers q) + number notifying (fifo_producers q)"
proof -
  let ?evs = "[CallDequeue 0, ConsumerTurn 0, ConsumerTurn 0, ConsumerTurn 0, CallEnqueue 0 sample_task,
      ProducerTurn 0 0, ProducerTurn 0 0, ProducerTurn 0 0]"
  define q where "q = fifo_run ?evs (fifo_new 2 1 1 0)"
  have "CAsleep \<in> set (fifo_consumers q)" "fifo_items q = [sample_task]" by (simp_all add: q_def fifo_run_def fifo_new_def)
  with fifo_queue_sound [OF q_def [symmetric]] show ?thesis by (intro exI [of _ q]) (simp add: q_def)
qed

text \<open>
  \<open>close\<close> does not take the mutex. If it swaps the flag and notifies after a consumer has found
  the queue empty and open, but before that consumer waits, the consumer sleeps for ever: no
  later call wakes it, since a closed queue takes no task and only the first \<open>close\<close> notifies.
\<close>

theorem fifo_close_loses_wakeup:
  "\<exists>evs q. fifo_run evs (fifo_new limit 1 1 1) = q \<and> fifo_closed q \<and> fifo_closers q = [KReturned] \<and>
    (\<forall>later. SpuriousWakeup 0 \<notin> set later \<longrightarrow> fifo_consumers (fifo_run later q) = [CAsleep])"
proof -
  let ?evs = "[CallDequeue 0, ConsumerTurn 0, ConsumerTurn 0, CallClose 0, CloserTurn 0, CloserTurn 0, ConsumerTurn 0]"
  define stuck where "stuck q \<longleftrightarrow> fifo_closed q \<and> fifo_consumers q = [CAsleep] \<and>
    (\<exists>p. fifo_producers q = [p] \<and> ((\<exists>r. p = PReturned r) \<or> (\<exists>t. p = PStart t))) \<and>
    (fifo_closers q = [KStart] \<or> fifo_closers q = [KReturned])" for q :: "'a fifo_queue"
  have step: "stuck (fifo_step ev q)" if "stuck q" "ev \<noteq> SpuriousWakeup 0" for ev q
    using that by (cases ev) (auto simp: stuck_def fifo_wake_def less_Suc_eq)
  have stay: "stuck q \<Longrightarrow> SpuriousWakeup 0 \<notin> set later \<Longrightarrow> stuck (fifo_run later q)" for later q
    by (induction later arbitrary: q) (auto simp: fifo_run_def step)
  have q: "stuck (fifo_run ?evs (fifo_new limit 1 1 1))" "fifo_closers (fifo_run ?evs (fifo_new limit 1 1 1)) = [KReturned]"
    by (simp_all add: stuck_def fifo_run_def fifo_new_def notify_waiting_def ex_bool_eq)
  with stay [OF q(1)] show ?thesis
    by (intro exI [of _ ?evs] exI [of _ "fifo_run ?evs (fifo_new limit 1 1 1)"]) (simp add: stuck_def)
qed

end
