(* ===== verification/Bench.thy ===== *)
theory Bench
  imports Traces Stats Bench_Fifo
begin

text \<open>
  The benchmark \<open>firq-bench\<close>: its scenarios, the run of a scenario against the scheduler
  (producers, workers, the atomics they share) and its histogram. The run against \<open>FifoQueue\<close>
  is in \<open>Bench_Fifo_Run\<close>; the text that compares the two is not modelled.
\<close>

subsection \<open>Configuration and scenarios\<close>

definition BENCH_BUCKETS_NS :: "nat list" where
  "BENCH_BUCKETS_NS =
    [10000, 50000, 100000, 500000, 1000000, 5000000, 10000000, 50000000, 100000000, 500000000,
     1000000000, 5000000000, 10000000000, 30000000000, 60000000000, 120000000000]"

record bench_config =
  default_run_seconds :: u64
  worker_count :: usize
  bench_max_global :: usize
  bench_max_per_tenant :: usize
  bench_quantum :: u64

definition default_bench_config :: bench_config where
  "default_bench_config =
    \<lparr>default_run_seconds = 8, worker_count = 2, bench_max_global = 10000, bench_max_per_tenant = 1000,
     bench_quantum = 2\<rparr>"

datatype producer_class = Hot | Cold

record producer_profile =
  prof_tenant :: tenant_key
  prof_class :: producer_class
  interval_ms :: u64
  prof_priority :: priority
  prof_cost :: u64
  deadline_ms :: "u64 option"

record bench_scenario =
  scenario_name :: string
  description :: string
  run_seconds :: "u64 option"
  work_ms :: u64
  scenario_max_global :: "usize option"
  scenario_max_per_tenant :: "usize option"
  scenario_producers :: "producer_profile list"
  report_cold_tail :: bool

text \<open>The loops over ranges of tenant ids, with what their profiles share.\<close>

definition profiles :: "nat \<Rightarrow> nat \<Rightarrow> producer_class \<Rightarrow> u64 \<Rightarrow> priority \<Rightarrow> u64 option \<Rightarrow> producer_profile list" where
  "profiles from until class interval p dl =
    map (\<lambda>tenant_id. \<lparr>prof_tenant = TenantKey (of_nat tenant_id), prof_class = class, interval_ms = interval,
                  prof_priority = p, prof_cost = 1, deadline_ms = dl\<rparr>) [from..<until]"

definition hot_tenant_sustained :: bench_scenario where
  "hot_tenant_sustained =
    \<lparr>scenario_name = ''hot_tenant_sustained'',
     description = ''A sustained hot tenant competes with many cold tenants'',
     run_seconds = Some 6, work_ms = 1, scenario_max_global = Some 50000, scenario_max_per_tenant = Some 1000,
     scenario_producers = \<lparr>prof_tenant = TenantKey 1, prof_class = Hot, interval_ms = 0, prof_priority = High,
         prof_cost = 1, deadline_ms = None\<rparr> # profiles 2 22 Cold 15 Low None,
     report_cold_tail = True\<rparr>"

definition burst_massive :: bench_scenario where
  "burst_massive =
    \<lparr>scenario_name = ''burst_massive'', description = ''Massive burst of simultaneous producers'',
     run_seconds = Some 4, work_ms = 2, scenario_max_global = Some 6000, scenario_max_per_tenant = Some 200,
     scenario_producers = profiles 1 161 Cold 0 Normal None, report_cold_tail = False\<rparr>"

definition mixed_priorities :: bench_scenario where
  "mixed_priorities =
    \<lparr>scenario_name = ''mixed_priorities'', description = ''Mixed High/Normal/Low priorities under load'',
     run_seconds = None, work_ms = 2, scenario_max_global = None, scenario_max_per_tenant = None,
     scenario_producers = profiles 1 21 Hot 2 High None @ profiles 21 81 Cold 4 Normal None @
       profiles 81 141 Cold 7 Low None,
     report_cold_tail = False\<rparr>"

definition deadline_expiration :: bench_scenario where
  "deadline_expiration =
    \<lparr>scenario_name = ''deadline_expiration'', description = ''Short deadlines to force dequeue expirations'',
     run_seconds = Some 5, work_ms = 6, scenario_max_global = Some 4000, scenario_max_per_tenant = Some 128,
     scenario_producers = profiles 1 81 Cold 1 Normal (Some 5), report_cold_tail = False\<rparr>"

definition capacity_pressure :: bench_scenario where
  "capacity_pressure =
    \<lparr>scenario_name = ''capacity_pressure'', description = ''Global and per-tenant capacity pressure'',
     run_seconds = Some 5, work_ms = 3, scenario_max_global = Some 2000, scenario_max_per_tenant = Some 40,
     scenario_producers = profiles 1 121 Cold 0 Normal None, report_cold_tail = False\<rparr>"

definition scenarios :: "bench_scenario list" where
  "scenarios = [hot_tenant_sustained, burst_massive, mixed_priorities, deadline_expiration, capacity_pressure]"

text \<open>The scheduler's configuration in \<open>run_firq\<close>.\<close>

definition bench_scheduler_config :: "bench_config \<Rightarrow> bench_scenario \<Rightarrow> config" where
  "bench_scheduler_config B sc =
    \<lparr>cfg_shards = 4,
     max_global = (case scenario_max_global sc of Some n \<Rightarrow> n | None \<Rightarrow> bench_max_global B),
     max_per_tenant = (case scenario_max_per_tenant sc of Some n \<Rightarrow> n | None \<Rightarrow> bench_max_per_tenant B),
     cfg_quantum = bench_quantum B, quantum_by_tenant = Map.empty, cfg_quantum_provider = None,
     backpressure = Reject, backpressure_by_tenant = Map.empty, top_tenants_capacity = 64\<rparr>"

subsection \<open>The histogram\<close>

text \<open>\<open>ConcurrentHistogram::observe\<close>: a value above the last bound is not counted.\<close>

definition observe :: "nat \<Rightarrow> nat list \<Rightarrow> nat list" where
  "observe value_ns buckets =
    (case bucket_index BENCH_BUCKETS_NS value_ns of
       None \<Rightarrow> buckets
     | Some idx \<Rightarrow> buckets[idx := wrapping_inc (buckets ! idx)])"

fun reached_bucket :: "nat \<Rightarrow> nat \<Rightarrow> nat \<Rightarrow> nat list \<Rightarrow> nat option" where
  "reached_bucket target cumulative idx [] = None"
| "reached_bucket target cumulative idx (bucket # counts) =
    (let cumulative' = saturating_add cumulative bucket
     in if target \<le> cumulative' then Some idx else reached_bucket target cumulative' (Suc idx) counts)"

definition percentile_from_counts :: "nat list \<Rightarrow> f64 \<Rightarrow> nat" where
  "percentile_from_counts counts pct =
    (let n = sum_list counts mod 2 ^ 64 in
     if n = 0 then 0
     else case reached_bucket (percentile_target n pct) 0 0 counts of
            Some idx \<Rightarrow> BENCH_BUCKETS_NS ! idx
          | None \<Rightarrow> last BENCH_BUCKETS_NS)"

definition rate :: "nat \<Rightarrow> nat \<Rightarrow> f64" where
  "rate part n = (if n = 0 then F64 0 0 else f64_div (as_f64 part) (as_f64 n))"

definition ns_to_ms :: "nat \<Rightarrow> f64" where
  "ns_to_ms value_ns = f64_div (as_f64 value_ns) (as_f64 1000000)"

subsection \<open>A run against the scheduler\<close>

text \<open>
  Where a producer is: at the top of its loop, with a task it has counted, with a rejection it
  has to count, or left. Where a worker is: at the top, in \<open>dequeue_blocking\<close>, with a task,
  or left. Sleeping changes nothing but the time.
\<close>

datatype producer_at =
    ProducerTop
  | Enqueueing "producer_class task"
  | Rejecting
  | ProducerLeft

datatype worker_at =
    WorkerTop
  | InDequeue "producer_class consumer"
  | Serving "producer_class task"
  | WorkerLeft

text \<open>
  \<open>refused\<close> and \<open>served\<close> are for the statements only: the enqueues answered \<open>Closed\<close>, and the
  queue times of the tasks the workers took.
\<close>

record bench =
  bench_sched :: "producer_class sched"
  bench_running :: bool
  produced_total :: nat
  dropped_total :: nat
  latencies :: "nat list"
  cold_latencies :: "nat list"
  bench_producers :: "(producer_profile \<times> producer_at) list"
  bench_workers :: "worker_at list"
  refused :: nat
  served :: "nat list"

definition bench_start :: "bench_config \<Rightarrow> bench_scenario \<Rightarrow> bench" where
  "bench_start B sc =
    \<lparr>bench_sched = scheduler_new (bench_scheduler_config B sc), bench_running = True, produced_total = 0,
     dropped_total = 0, latencies = replicate (length BENCH_BUCKETS_NS) 0,
     cold_latencies = replicate (length BENCH_BUCKETS_NS) 0,
     bench_producers = map (\<lambda>p. (p, ProducerTop)) (scenario_producers sc),
     bench_workers = replicate (unat (worker_count B)) WorkerTop, refused = 0, served = []\<rparr>"

text \<open>The task of an iteration: two reads of the clock when the profile has a deadline.\<close>

definition make_task :: "clock \<Rightarrow> producer_profile \<Rightarrow> shared \<Rightarrow> producer_class task \<times> shared" where
  "make_task clk p g =
    (let (dl, g1) = (case deadline_ms p of
           None \<Rightarrow> (None, g)
         | Some ms \<Rightarrow> let (now, g') = read_clock clk g in (Some (now + unat ms * 1000000), g'));
         (now, g2) = read_clock clk g1
     in (\<lparr>payload = prof_class p, enqueue_ts = now, deadline = dl, prio = prof_priority p, cost = prof_cost p\<rparr>, g2))"

fun firq_producer :: "config \<Rightarrow> clock \<Rightarrow> producer_profile \<Rightarrow> producer_at \<Rightarrow> bench \<Rightarrow> producer_at \<times> bench" where
  "firq_producer C clk p ProducerTop b =
    (if bench_running b then
       let (task, g) = make_task clk p (shared (bench_sched b))
       in (Enqueueing task,
           b\<lparr>bench_sched := (bench_sched b)\<lparr>shared := g\<rparr>, produced_total := wrapping_inc (produced_total b)\<rparr>)
     else (ProducerLeft, b))"
| "firq_producer C clk p (Enqueueing task) b =
    (case enqueue_now C clk (prof_tenant p) task (bench_sched b) of
       None \<Rightarrow> (Enqueueing task, b)
     | Some (Enqueued h, s) \<Rightarrow> (ProducerTop, b\<lparr>bench_sched := s\<rparr>)
     | Some (Rejected r, s) \<Rightarrow> (Rejecting, b\<lparr>bench_sched := s\<rparr>)
     | Some (EnqueueClosed, s) \<Rightarrow> (ProducerLeft, b\<lparr>bench_sched := s, refused := Suc (refused b)\<rparr>))"
| "firq_producer C clk p Rejecting b = (ProducerTop, b\<lparr>dropped_total := wrapping_inc (dropped_total b)\<rparr>)"
| "firq_producer C clk p ProducerLeft b = (ProducerLeft, b)"

fun firq_worker :: "clock \<Rightarrow> worker_at \<Rightarrow> bench \<Rightarrow> worker_at \<times> bench" where
  "firq_worker clk WorkerTop b = (if bench_running b then InDequeue (Begin 0) else WorkerLeft, b)"
| "firq_worker clk (InDequeue c) b =
    (let (c', s) = dequeue_blocking clk c (bench_sched b); b1 = b\<lparr>bench_sched := s\<rparr>
     in (case c' of
           Returned (DequeuedTask t task) \<Rightarrow> Serving task
         | Returned Closed \<Rightarrow> WorkerLeft
         | Returned Empty \<Rightarrow> WorkerTop
         | _ \<Rightarrow> InDequeue c', b1))"
| "firq_worker clk (Serving task) b =
    (let (now, g) = read_clock clk (shared (bench_sched b));
         queue_time_ns = min (now - enqueue_ts task) u64_max
     in (WorkerTop,
         b\<lparr>bench_sched := (bench_sched b)\<lparr>shared := g\<rparr>, latencies := observe queue_time_ns (latencies b),
           cold_latencies := (if payload task = Cold then observe queue_time_ns (cold_latencies b) else cold_latencies b),
           served := served b @ [queue_time_ns]\<rparr>))"
| "firq_worker clk WorkerLeft b = (WorkerLeft, b)"

datatype bench_event = BenchProducer nat | BenchWorker nat | BenchStop | BenchClose

fun bench_step :: "config \<Rightarrow> clock \<Rightarrow> bench_event \<Rightarrow> bench \<Rightarrow> bench" where
  "bench_step C clk (BenchProducer i) b =
    (if i < length (bench_producers b) then
       let (p, a) = bench_producers b ! i; (a', b') = firq_producer C clk p a b
       in b'\<lparr>bench_producers := (bench_producers b')[i := (p, a')]\<rparr>
     else b)"
| "bench_step C clk (BenchWorker i) b =
    (if i < length (bench_workers b) then
       let (w, b') = firq_worker clk (bench_workers b ! i) b
       in b'\<lparr>bench_workers := (bench_workers b')[i := w]\<rparr>
     else b)"
| "bench_step C clk BenchStop b = b\<lparr>bench_running := False\<rparr>"
| "bench_step C clk BenchClose b = b\<lparr>bench_sched := close_drain (bench_sched b)\<rparr>"

definition run_firq :: "bench_config \<Rightarrow> bench_scenario \<Rightarrow> clock \<Rightarrow> bench_event list \<Rightarrow> bench" where
  "run_firq B sc clk evs = fold (bench_step (bench_scheduler_config B sc) clk) evs (bench_start B sc)"


subsection \<open>The percentile is the scheduler's\<close>

lemma reached_bucket_first:
  "idx + length counts = length bounds \<Longrightarrow>
    first_reaching target cumulative (map2 (\<lambda>b n. \<lparr>le_ns = b, bucket_count = n\<rparr>) (drop idx bounds) counts) =
    map_option ((!) bounds) (reached_bucket target cumulative idx counts)"
proof (induction counts arbitrary: idx cumulative)
  case (Cons n counts)
  then have "drop idx bounds = bounds ! idx # drop (Suc idx) bounds" by (intro Cons_nth_drop_Suc [symmetric]) simp
  with Cons show ?case by (simp add: Let_def)
qed simp

lemma bench_percentile:
  assumes "length counts = length BENCH_BUCKETS_NS"
  shows "percentile_from_counts counts pct =
    percentile (map2 (\<lambda>b n. \<lparr>le_ns = b, bucket_count = n\<rparr>) BENCH_BUCKETS_NS counts) pct"
proof -
  let ?h = "map2 (\<lambda>b n. \<lparr>le_ns = b, bucket_count = n\<rparr>) BENCH_BUCKETS_NS counts"
  have m: "map bucket_count ?h = counts" "map le_ns ?h = BENCH_BUCKETS_NS"
    using assms by (auto intro!: nth_equalityI)
  have h: "?h \<noteq> []" using m(2) by (auto simp: BENCH_BUCKETS_NS_def)
  have "last BENCH_BUCKETS_NS = le_ns (last ?h)" using h last_map [OF h, of le_ns] by (simp only: m(2))
  with reached_bucket_first [of 0 counts BENCH_BUCKETS_NS] assms h m(1) show ?thesis
    by (simp add: percentile_def percentile_from_counts_def total_samples_def Let_def split: option.split)
qed

subsection \<open>The run as a run of the scheduler\<close>

text \<open>The tasks of the benchmark cost at most 1.\<close>

abbreviation cheap_task :: "tenant_key \<Rightarrow> 'a task \<Rightarrow> bool" where
  "cheap_task t task \<equiv> unat (cost task) \<le> 1"

lemma traced_make_task:
  assumes "traced cheap_task C clk k os s" and "make_task clk p (shared s) = (task, g)"
  shows "\<exists>os'. traced cheap_task C clk (k + 2) os' (s\<lparr>shared := g\<rparr>) \<and> count_out is_accepted os' = count_out is_accepted os \<and>
    count_out is_delivered os' = count_out is_delivered os \<and> drops g = drops (shared s) \<and> cost task = prof_cost p"
proof -
  obtain dl g1 where d: "(case deadline_ms p of None \<Rightarrow> (None, shared s)
      | Some ms \<Rightarrow> let (now, g') = read_clock clk (shared s) in (Some (now + unat ms * 1000000), g')) = (dl, g1)"
    by fastforce
  obtain now g2 where c: "read_clock clk g1 = (now, g2)" by fastforce
  from d have "\<exists>os1. traced cheap_task C clk (Suc k) os1 (s\<lparr>shared := g1\<rparr>) \<and> count_out is_accepted os1 = count_out is_accepted os \<and>
      count_out is_delivered os1 = count_out is_delivered os \<and> drops g1 = drops (shared s)"
  proof (cases "deadline_ms p")
    case None
    with d traced_mono [OF assms(1), of "Suc k"] show ?thesis by (intro exI [of _ os]) auto
  next
    case (Some ms)
    obtain t g' where t: "read_clock clk (shared s) = (t, g')" by fastforce
    from d Some t traced_clock [OF assms(1) t] show ?thesis
      by (intro exI [of _ "os @ [Done]"]) (simp add: count_out_snoc)
  qed
  then obtain os1 where o: "traced cheap_task C clk (Suc k) os1 (s\<lparr>shared := g1\<rparr>)" "count_out is_accepted os1 = count_out is_accepted os"
    "count_out is_delivered os1 = count_out is_delivered os" "drops g1 = drops (shared s)" by blast
  from c have c': "read_clock clk (shared (s\<lparr>shared := g1\<rparr>)) = (now, g2)" by simp
  from assms(2) d c have "g = g2" "cost task = prof_cost p" by (auto simp: make_task_def Let_def)
  with traced_clock [OF o(1) c'] o show ?thesis by (intro exI [of _ "os1 @ [Done]"]) (simp add: count_out_snoc)
qed

lemma bench_rejects: "backpressure_for (bench_scheduler_config B sc) t = Reject"
  by (simp add: backpressure_for_def bench_scheduler_config_def)

subsection \<open>The invariant of a run\<close>

fun at_enqueue :: "producer_profile \<times> producer_at \<Rightarrow> bool" where
  "at_enqueue (p, Enqueueing task) = True"
| "at_enqueue x = False"

fun at_reject :: "producer_profile \<times> producer_at \<Rightarrow> bool" where
  "at_reject (p, Rejecting) = True"
| "at_reject x = False"

fun at_task :: "worker_at \<Rightarrow> bool" where
  "at_task (Serving task) = True"
| "at_task w = False"

fun cheap :: "producer_profile \<times> producer_at \<Rightarrow> bool" where
  "cheap (p, Enqueueing task) \<longleftrightarrow> unat (prof_cost p) \<le> 1 \<and> unat (cost task) \<le> 1"
| "cheap (p, a) \<longleftrightarrow> unat (prof_cost p) \<le> 1"

definition bench_ok :: "config \<Rightarrow> clock \<Rightarrow> nat \<Rightarrow> producer_class answer list \<Rightarrow> bench \<Rightarrow> bool" where
  "bench_ok C clk n os b \<longleftrightarrow> traced cheap_task C clk (2 * n) os (bench_sched b) \<and> produced_total b \<le> n \<and>
     produced_total b = count_out is_accepted os + dropped (stats (shared (bench_sched b))) + refused b +
       number at_enqueue (bench_producers b) \<and>
     dropped (stats (shared (bench_sched b))) = dropped_total b + number at_reject (bench_producers b) \<and>
     count_out is_delivered os = length (served b) + number at_task (bench_workers b) \<and>
     (\<forall>r. InDequeue (Returned r) \<notin> set (bench_workers b)) \<and> list_all cheap (bench_producers b) \<and>
     length (latencies b) = length BENCH_BUCKETS_NS \<and>
     sum_list (latencies b) = number (\<lambda>v. v \<le> last BENCH_BUCKETS_NS) (served b) \<and> length (served b) \<le> n"

lemma bench_bucket:
  "case bucket_index BENCH_BUCKETS_NS v of
     None \<Rightarrow> \<not> v \<le> last BENCH_BUCKETS_NS
   | Some i \<Rightarrow> v \<le> last BENCH_BUCKETS_NS \<and> i < length BENCH_BUCKETS_NS"
  by (simp add: BENCH_BUCKETS_NS_def)

lemma observe_sum:
  assumes "length bs = length BENCH_BUCKETS_NS" and "sum_list bs < u64_max"
  shows "length (observe v bs) = length BENCH_BUCKETS_NS"
    and "sum_list (observe v bs) = sum_list bs + (if v \<le> last BENCH_BUCKETS_NS then 1 else 0)"
proof -
  show "length (observe v bs) = length BENCH_BUCKETS_NS" using assms by (simp add: observe_def split: option.split)
  show "sum_list (observe v bs) = sum_list bs + (if v \<le> last BENCH_BUCKETS_NS then 1 else 0)"
  proof (cases "bucket_index BENCH_BUCKETS_NS v")
    case None
    with bench_bucket [of v] show ?thesis by (simp add: observe_def)
  next
    case (Some i)
    with bench_bucket [of v] assms(1) have i: "i < length bs" "v \<le> last BENCH_BUCKETS_NS" by simp_all
    with elem_le_sum_list [of i bs] assms(2) have "wrapping_inc (bs ! i) = Suc (bs ! i)"
      by (intro wrapping_inc_exact) linarith
    moreover have "bs ! i \<le> sum_list bs" using i(1) by (rule elem_le_sum_list)
    ultimately show ?thesis using Some i by (simp add: observe_def sum_list_update)
  qed
qed

lemma list_all_update: "list_all P xs \<Longrightarrow> P v \<Longrightarrow> list_all P (xs[i := v])"
  by (auto simp: list_all_iff dest!: set_update_subset_insert [THEN subsetD])

lemma producer_step_ok:
  assumes C: "C = bench_scheduler_config B sc" and ok: "bench_ok C clk n os b" and n: "n < u64_max"
    and i: "i < length (bench_producers b)"
  shows "\<exists>os'. bench_ok C clk (Suc n) os' (bench_step C clk (BenchProducer i) b)"
proof -
  obtain p a where pa: "bench_producers b ! i = (p, a)" by fastforce
  note u = number_update [OF i]
  from ok i pa have cheap: "cheap (p, a)" by (metis bench_ok_def list_all_length)
  have later: "traced cheap_task C clk (2 * Suc n) os (bench_sched b)"
    using ok traced_mono by (fastforce simp: bench_ok_def)
  show ?thesis
  proof (cases a)
    case ProducerTop
    show ?thesis
    proof (cases "bench_running b")
      case False
      from ok later cheap pa ProducerTop i False u [of at_enqueue "(p, ProducerLeft)"] u [of at_reject "(p, ProducerLeft)"]
      show ?thesis by (intro exI [of _ os]) (simp add: bench_ok_def list_all_update)
    next
      case True
      obtain task g where m: "make_task clk p (shared (bench_sched b)) = (task, g)" by fastforce
      from ok have "traced cheap_task C clk (2 * n) os (bench_sched b)" by (simp add: bench_ok_def)
      from traced_make_task [OF this m] obtain os' where o: "traced cheap_task C clk (2 * n + 2) os' ((bench_sched b)\<lparr>shared := g\<rparr>)"
        "count_out is_accepted os' = count_out is_accepted os" "count_out is_delivered os' = count_out is_delivered os"
        "drops g = drops (shared (bench_sched b))" "cost task = prof_cost p" by blast
      have w: "wrapping_inc (produced_total b) = Suc (produced_total b)"
        using ok n by (intro wrapping_inc_exact) (simp add: bench_ok_def)
      have "dropped (stats g) = dropped (stats (shared (bench_sched b)))" using o(4) by (simp add: drops_def)
      with ok o cheap pa ProducerTop i True m w u [of at_enqueue "(p, Enqueueing task)"] u [of at_reject "(p, Enqueueing task)"]
      show ?thesis by (intro exI [of _ os']) (simp add: bench_ok_def list_all_update)
    qed
  next
    case (Enqueueing task)
    show ?thesis
    proof (cases "enqueue_now C clk (prof_tenant p) task (bench_sched b)")
      case None
      then show ?thesis using C by (simp add: enqueue_now_def bench_rejects)
    next
      case (Some rs)
      obtain r s where rs: "rs = (r, s)" by fastforce
      note d = reject_enqueue_drops [of C "prof_tenant p" clk task "bench_sched b" r s]
      have tr: "traced cheap_task C clk (Suc (2 * n)) (os @ [enqueue_output r]) s"
        using ok cheap Enqueueing Some rs
        by (intro traced_exec [of cheap_task C clk "2 * n" os "bench_sched b" "EnqueueNow (prof_tenant p) task"]) (simp_all add: bench_ok_def)
      from traced_mono [OF this] have tr: "traced cheap_task C clk (2 * Suc n) (os @ [enqueue_output r]) s" by simp
      have lt: "dropped (stats (shared (bench_sched b))) < u64_max"
        using ok n u [of at_enqueue "(p, ProducerTop)"] pa Enqueueing by (auto simp: bench_ok_def)
      from ok tr d cheap pa Enqueueing i Some rs lt C bench_rejects
        u [of at_enqueue "(p, ProducerTop)"] u [of at_reject "(p, ProducerTop)"]
        u [of at_enqueue "(p, Rejecting)"] u [of at_reject "(p, Rejecting)"]
        u [of at_enqueue "(p, ProducerLeft)"] u [of at_reject "(p, ProducerLeft)"]
      show ?thesis
        by (intro exI [of _ "os @ [enqueue_output r]"], cases r)
          (simp_all add: bench_ok_def list_all_update count_out_snoc saturating_add_exact)
    qed
  next
    case Rejecting
    have w: "wrapping_inc (dropped_total b) = Suc (dropped_total b)"
      using ok n by (intro wrapping_inc_exact) (auto simp: bench_ok_def)
    from ok later cheap pa Rejecting i w u [of at_enqueue "(p, ProducerTop)"] u [of at_reject "(p, ProducerTop)"]
    show ?thesis by (intro exI [of _ os]) (simp add: bench_ok_def list_all_update)
  next
    case ProducerLeft
    from ok later cheap pa ProducerLeft i u [of at_enqueue "(p, ProducerLeft)"] u [of at_reject "(p, ProducerLeft)"]
    show ?thesis by (intro exI [of _ os]) (simp add: bench_ok_def list_all_update)
  qed
qed

lemma worker_step_ok:
  assumes ok: "bench_ok C clk n os b" and n: "n < u64_max" and i: "i < length (bench_workers b)"
  shows "\<exists>os'. bench_ok C clk (Suc n) os' (bench_step C clk (BenchWorker i) b)"
proof -
  note u = number_update [OF i]
  have later: "traced cheap_task C clk (2 * Suc n) os (bench_sched b)" "traced cheap_task C clk (2 * n) os (bench_sched b)"
    using ok traced_mono by (fastforce simp: bench_ok_def)+
  have kept: "\<forall>r. InDequeue (Returned r) \<notin> set ((bench_workers b)[i := w])" if "\<forall>r. w \<noteq> InDequeue (Returned r)" for w
    using ok that set_update_subset_insert [of "bench_workers b" i w] by (fastforce simp: bench_ok_def)
  show ?thesis
  proof (cases "bench_workers b ! i")
    case WorkerTop
    from ok later kept WorkerTop i u [of at_task WorkerLeft] u [of at_task "InDequeue (Begin 0)"]
    show ?thesis by (intro exI [of _ os]) (simp add: bench_ok_def)
  next
    case (InDequeue c)
    have c: "\<forall>r. c \<noteq> Returned r" using ok i InDequeue nth_mem [OF i] by (auto simp: bench_ok_def)
    obtain c' s' where d: "dequeue_blocking clk c (bench_sched b) = (c', s')" by fastforce
    from traced_dequeue_blocking [OF later(2) c d] obtain os1 where o1: "traced cheap_task C clk (Suc (2 * n)) (os @ os1) s'"
      "count_out is_accepted os1 = 0"
      "count_out is_delivered os1 = (case c' of Returned (DequeuedTask t task) \<Rightarrow> 1 | _ \<Rightarrow> 0)"
      "drops (shared s') = drops (shared (bench_sched b))" by blast
    define os' where "os' = os @ os1"
    note o = o1 [folded os'_def]
    have "count_out is_accepted os' = count_out is_accepted os"
      "count_out is_delivered os' = count_out is_delivered os + (case c' of Returned (DequeuedTask t task) \<Rightarrow> 1 | _ \<Rightarrow> 0)"
      using o(2,3) by (simp_all add: os'_def count_out_append)
    note o = o(1) this o(4)
    from o(4) have dr: "dropped (stats (shared s')) = dropped (stats (shared (bench_sched b)))" by (simp add: drops_def)
    have o1: "traced cheap_task C clk (2 * Suc n) os' s'" using traced_mono [OF o(1)] by simp
    define w where "w = (case c' of Returned (DequeuedTask t task) \<Rightarrow> Serving task | Returned Closed \<Rightarrow> WorkerLeft
      | Returned Empty \<Rightarrow> WorkerTop | _ \<Rightarrow> InDequeue c')"
    have w: "\<forall>r. w \<noteq> InDequeue (Returned r)" "(if at_task w then 1 else 0) = (case c' of Returned (DequeuedTask t task) \<Rightarrow> 1 | _ \<Rightarrow> (0 :: nat))"
      by (auto simp: w_def split: consumer.split dequeue_result.split)
    from ok o1 o(2,3) dr kept [OF w(1)] w(2) InDequeue i u [of at_task w] d
    show ?thesis by (intro exI [of _ os']) (simp add: bench_ok_def Let_def flip: w_def)
  next
    case (Serving task)
    obtain now g where c: "read_clock clk (shared (bench_sched b)) = (now, g)" by fastforce
    let ?v = "min (now - enqueue_ts task) u64_max"
    from traced_clock [OF later(2) c] have tr: "traced cheap_task C clk (Suc (2 * n)) (os @ [Done]) ((bench_sched b)\<lparr>shared := g\<rparr>)"
      and dr: "drops g = drops (shared (bench_sched b))" .
    have tr: "traced cheap_task C clk (2 * Suc n) (os @ [Done]) ((bench_sched b)\<lparr>shared := g\<rparr>)" using traced_mono [OF tr] by simp
    from dr have dr: "dropped (stats g) = dropped (stats (shared (bench_sched b)))" by (simp add: drops_def)
    have "sum_list (latencies b) \<le> length (served b)" using ok by (simp add: bench_ok_def number_def)
    with ok n have lt: "sum_list (latencies b) < u64_max" by (simp add: bench_ok_def)
    have ln: "length (latencies b) = length BENCH_BUCKETS_NS" using ok by (simp add: bench_ok_def)
    have app: "number P (xs @ [x]) = number P xs + (if P x then 1 else 0)" for P xs and x :: nat by (simp add: number_def)
    from ok tr dr kept [of WorkerTop] Serving i c u [of at_task WorkerTop] observe_sum [OF ln lt, of ?v]
    show ?thesis by (intro exI [of _ "os @ [Done]"]) (simp add: bench_ok_def Let_def count_out_snoc app)
  next
    case WorkerLeft
    from ok later kept [of WorkerLeft] WorkerLeft i u [of at_task WorkerLeft]
    show ?thesis by (intro exI [of _ os]) (simp add: bench_ok_def)
  qed
qed

lemma bench_step_ok:
  assumes C: "C = bench_scheduler_config B sc" and ok: "bench_ok C clk n os b" and n: "n < u64_max"
  shows "\<exists>os'. bench_ok C clk (Suc n) os' (bench_step C clk ev b)"
proof -
  have later: "traced cheap_task C clk (2 * Suc n) os (bench_sched b)" "traced cheap_task C clk (2 * n) os (bench_sched b)"
    using ok traced_mono by (fastforce simp: bench_ok_def)+
  have stay: "bench_ok C clk (Suc n) os b" using ok later by (simp add: bench_ok_def)
  show ?thesis
  proof (cases ev)
    case (BenchProducer i)
    with stay producer_step_ok [OF C ok n, of i] show ?thesis by (cases "i < length (bench_producers b)") auto
  next
    case (BenchWorker i)
    with stay worker_step_ok [OF ok n, of i] show ?thesis by (cases "i < length (bench_workers b)") auto
  next
    case BenchStop
    with stay show ?thesis by (intro exI [of _ os]) (simp add: bench_ok_def)
  next
    case BenchClose
    let ?s = "close_with_mode Drain (bench_sched b)"
    have "drops (shared ?s) = drops (shared (bench_sched b))"
      by (rule quiet.control_inv(1) [where P = "\<lambda>d. d = drops (shared (bench_sched b))"]) (rule refl)
    then have dr: "dropped (stats (shared ?s)) = dropped (stats (shared (bench_sched b)))" by (simp add: drops_def)
    have tr: "traced cheap_task C clk (2 * Suc n) (os @ [Done]) ?s"
      by (rule traced_mono [OF traced_exec [OF later(2), of "Close Drain"]]) simp_all
    from ok dr tr BenchClose show ?thesis
      by (intro exI [of _ "os @ [Done]"]) (simp add: bench_ok_def close_drain_def count_out_snoc)
  qed
qed

lemma bench_start_ok:
  assumes "\<forall>p \<in> set (scenario_producers sc). unat (prof_cost p) \<le> 1"
  shows "bench_ok (bench_scheduler_config B sc) clk 0 [] (bench_start B sc)"
proof -
  let ?C = "bench_scheduler_config B sc"
  have "traced cheap_task ?C clk 0 [] (scheduler_new ?C)" unfolding traced_def by (intro exI [of _ "[]"]) (simp add: run_def)
  moreover have "number at_enqueue (map (\<lambda>p. (p, ProducerTop)) ps) = 0" "number at_reject (map (\<lambda>p. (p, ProducerTop)) ps) = 0"
    for ps by (induction ps) simp_all
  ultimately show ?thesis using assms
    by (auto simp: bench_ok_def bench_start_def count_out_def number_replicate list_all_iff sum_list_replicate
        scheduler_new_def stats_counters_new_def Let_def)
qed

lemma run_firq_ok:
  assumes "\<forall>p \<in> set (scenario_producers sc). unat (prof_cost p) \<le> 1" and "length evs \<le> u64_max"
  shows "\<exists>os. bench_ok (bench_scheduler_config B sc) clk (length evs) os (run_firq B sc clk evs)"
  using assms(2)
proof (induction evs rule: rev_induct)
  case Nil
  from bench_start_ok [OF assms(1)] show ?case by (auto simp: run_firq_def)
next
  case (snoc ev evs)
  then obtain os where "bench_ok (bench_scheduler_config B sc) clk (length evs) os (run_firq B sc clk evs)" by auto
  from bench_step_ok [OF refl this, of ev] snoc.prems show ?case by (auto simp: run_firq_def)
qed

lemma scenarios_cheap: "sc \<in> set scenarios \<Longrightarrow> p \<in> set (scenario_producers sc) \<Longrightarrow> unat (prof_cost p) \<le> 1"
  by (auto simp: scenarios_def hot_tenant_sustained_def burst_massive_def mixed_priorities_def deadline_expiration_def
      capacity_pressure_def profiles_def)

text \<open>
  C34: In every scenario of the benchmark, under any schedule of its threads, the counters it
  prints balance: every task produced is enqueued, dropped, refused by the closed scheduler or
  still with its producer; the scheduler's \<open>dropped\<close> is the producers' own count but for
  rejections not yet counted; every task dequeued was served or is with a worker; the histogram
  holds the served tasks that waited at most two minutes. And in every state such a run can
  reach, before an immediate close, two calls of \<open>try_dequeue\<close> in a row, with no other operation
  between them, find a task, provided one is pending that is not expired at any clock reading
  of the two calls, as a task without deadline never is.
\<close>

theorem bench_accounts:
  assumes "sc \<in> set scenarios" and "2 * length evs \<le> u64_max"
    and "run_firq default_bench_config sc clk evs = b" and "bench_sched b = s" and "stats (shared s) = c"
  shows "produced_total b = enqueued c + dropped c + refused b + number at_enqueue (bench_producers b) \<and>
    dropped c = dropped_total b + number at_reject (bench_producers b) \<and>
    dequeued c = length (served b) + number at_task (bench_workers b) \<and>
    sum_list (latencies b) = number (\<lambda>v. v \<le> 120000000000) (served b) \<and>
    (\<forall>t p. \<forall>e \<in> set (sched_queue s t p). entry_id e \<in> pending_ids (shared s) \<and> shutdown_state (shared s) \<noteq> 2 \<and>
       unexpired clk (shared s) (shared (snd (polls 2 clk s))) e \<longrightarrow>
       (\<exists>u task s'. polls 2 clk s = (DequeuedTask u task, s')))"
proof -
  let ?C = "bench_scheduler_config default_bench_config sc"
  from run_firq_ok [of sc evs default_bench_config clk] scenarios_cheap [OF assms(1)] assms(2,3)
  obtain os where ok: "bench_ok ?C clk (length evs) os b" by auto
  then have tr: "traced cheap_task ?C clk (2 * length evs) os s" using assms(4) by (simp add: bench_ok_def)
  then obtain es where es: "run ?C clk es = (os, s)" "length es \<le> 2 * length evs" unfolding traced_def by blast
  with assms(2) have "length es \<le> u64_max" by simp
  from run_inv_run(3) [OF this es(1)] assms(5)
  have "enqueued c = count_out is_accepted os" "dequeued c = count_out is_delivered os" by (auto simp: books_def)
  moreover have "mild_config 2 ?C"
    by (simp add: mild_config_def mild_rates_def bench_scheduler_config_def default_bench_config_def)
  note traced_polls_unexpired [OF tr assms(2) this, where M = 1, unfolded Suc_1]
  moreover have "last BENCH_BUCKETS_NS = 120000000000" by (simp add: BENCH_BUCKETS_NS_def)
  ultimately show ?thesis using ok assms(4,5) by (auto simp: bench_ok_def)
qed

text \<open>Every task of the scenario of deadlines has one; here it is still to come.\<close>

theorem bench_accounts_witness:
  "\<exists>b e u task s'. run_firq default_bench_config deadline_expiration demo_clock [BenchProducer 0, BenchProducer 0] = b \<and>
    produced_total b = 1 \<and> enqueued (stats (shared (bench_sched b))) = 1 \<and>
    e \<in> set (sched_queue (bench_sched b) (TenantKey 1) Normal) \<and> deadline (entry_task e) \<noteq> None \<and>
    polls 2 demo_clock (bench_sched b) = (DequeuedTask u task, s')"
proof -
  let ?evs = "[BenchProducer 0, BenchProducer 0]"
  define b where "b = run_firq default_bench_config deadline_expiration demo_clock ?evs"
  define q where "q = sched_queue (bench_sched b) (TenantKey 1) Normal"
  let ?e = "hd q"
  note run = run_firq_def bench_start_def deadline_expiration_def profiles_def default_bench_config_def
    bench_scheduler_config_def make_task_def eval
  have q: "\<exists>d. q \<noteq> [] \<and> deadline (entry_task (hd q)) = Some d \<and> 5000000 \<le> d" "entry_id (hd q) \<in> pending_ids (shared (bench_sched b))"
    "shutdown_state (shared (bench_sched b)) \<noteq> 2" "produced_total b = 1" "enqueued (stats (shared (bench_sched b))) = 1"
    by (simp_all add: q_def b_def run sched_queue_def squeue_def)
  define s1 where "s1 = snd (try_dequeue demo_clock (bench_sched b))"
  define s2 where "s2 = snd (try_dequeue demo_clock s1)"
  have "fst (try_dequeue demo_clock (bench_sched b)) = Empty" by (simp add: b_def run)
  then have td: "try_dequeue demo_clock (bench_sched b) = (Empty, s1)" by (simp add: s1_def prod_eq_iff)
  have "snd (polls 2 demo_clock (bench_sched b)) = s2"
    by (simp add: numeral_2_eq_2 td s2_def split: prod.split dequeue_result.split)
  moreover have "ticks (shared s2) \<le> 100" by (simp add: s2_def s1_def b_def run)
  ultimately have "ticks (shared (snd (polls 2 demo_clock (bench_sched b)))) \<le> 100" by simp
  with q(1) have un: "unexpired demo_clock (shared (bench_sched b)) (shared (snd (polls 2 demo_clock (bench_sched b)))) ?e"
    by (auto simp: unexpired_def is_expired_def demo_clock_def)
  from q(1) have e: "?e \<in> set (sched_queue (bench_sched b) (TenantKey 1) Normal)" by (auto simp: q_def)
  have "deadline_expiration \<in> set scenarios" by (simp add: scenarios_def)
  moreover have "2 * length ?evs \<le> u64_max" by simp
  moreover note bench_accounts [OF calculation b_def [symmetric] refl refl]
  ultimately
  have "\<exists>u task s'. polls 2 demo_clock (bench_sched b) = (DequeuedTask u task, s')" using e q(2,3) un by blast
  with e q show ?thesis by (intro exI [of _ b] exI [of _ ?e]) (auto simp: b_def)
qed

end
