(* ===== verification/Parse.thy ===== *)
theory Parse
  imports Prometheus
begin

text \<open>
  What the programs use of the standard library to read numbers from text: environment variables
  of \<open>firq-bench\<close>, request headers in \<open>firq-examples\<close>.
\<close>

text \<open>\<open>str::parse::<u64>\<close>: an optional plus sign, then digits, with the overflow checked.\<close>

fun parse_digits :: "nat \<Rightarrow> string \<Rightarrow> nat option" where
  "parse_digits acc [] = Some acc"
| "parse_digits acc (c # cs) =
    (if is_digit c \<and> acc * 10 + digit_value c \<le> u64_max then parse_digits (acc * 10 + digit_value c) cs else None)"

definition parse_u64 :: "string \<Rightarrow> u64 option" where
  "parse_u64 s =
    (let ds = (case s of c # rest \<Rightarrow> if c = CHR ''+'' then rest else s | [] \<Rightarrow> [])
     in if ds = [] then None else map_option of_nat (parse_digits 0 ds))"

definition strip_prefix :: "string \<Rightarrow> string \<Rightarrow> string option" where
  "strip_prefix pre s = (if take (length pre) s = pre then Some (drop (length pre) s) else None)"

lemma parse_digits_value:
  "parse_digits acc s =
    (if list_all is_digit s \<and> foldl (\<lambda>n c. n * 10 + digit_value c) acc s \<le> u64_max
     then Some (foldl (\<lambda>n c. n * 10 + digit_value c) acc s) else None)" if "acc \<le> u64_max"
  using that
proof (induction s arbitrary: acc)
  case (Cons c cs)
  have grow: "n \<le> foldl (\<lambda>n c. n * 10 + digit_value c) n cs" for n
  proof (induction cs arbitrary: n)
    case (Cons d ds)
    from Cons [of "n * 10 + digit_value d"] show ?case by simp
  qed simp
  show ?case
  proof (cases "acc * 10 + digit_value c \<le> u64_max")
    case True
    from Cons.IH [OF this] True show ?thesis by simp
  next
    case False
    with grow [of "acc * 10 + digit_value c"] show ?thesis by auto
  qed
qed simp

lemma dec_nonempty [simp]: "dec n \<noteq> []"
  by (subst dec.simps) simp

lemma dec_first: "dec n = c # cs \<Longrightarrow> c \<noteq> CHR ''+''"
  using digit_code [OF dec_digits, of c n] by auto

lemma parse_u64_dec [simp]: "parse_u64 (dec n) = (if n \<le> u64_max then Some (of_nat n) else None)"
proof -
  obtain c cs where d: "dec n = c # cs" using dec_nonempty by (cases "dec n") blast+
  have "parse_digits 0 (dec n) = (if n \<le> u64_max then Some n else None)"
    using parse_digits_value [of 0 "dec n"] read_dec_dec [of n] dec_digits [of _ n]
    by (simp add: read_dec_def list_all_iff)
  with d dec_first [OF d] show ?thesis by (simp add: parse_u64_def)
qed

text \<open>Exactly the numerals of \<open>u64\<close> are read, with or without a plus sign, and to their value.\<close>

lemma parse_u64_iff:
  "parse_u64 s = Some v \<longleftrightarrow>
    (\<exists>ds. ds \<noteq> [] \<and> list_all is_digit ds \<and> read_dec ds = unat v \<and> (s = ds \<or> s = CHR ''+'' # ds))"
proof
  assume "parse_u64 s = Some v"
  moreover define ds where "ds = (case s of c # rest \<Rightarrow> if c = CHR ''+'' then rest else s | [] \<Rightarrow> [])"
  ultimately obtain n where "ds \<noteq> []" "parse_digits 0 ds = Some n" "v = of_nat n"
    by (auto simp: parse_u64_def Let_def split: if_split_asm)
  moreover from this(1) have "s = ds \<or> s = CHR ''+'' # ds" by (cases s) (auto simp: ds_def)
  moreover from calculation(2) have "list_all is_digit ds" "n = read_dec ds" "n \<le> u64_max"
    using parse_digits_value [of 0 ds] by (simp_all add: read_dec_def split: if_splits)
  ultimately show "\<exists>ds. ds \<noteq> [] \<and> list_all is_digit ds \<and> read_dec ds = unat v \<and> (s = ds \<or> s = CHR ''+'' # ds)"
    by (auto simp: unsigned_of_nat take_bit_nat_eq_self)
next
  assume "\<exists>ds. ds \<noteq> [] \<and> list_all is_digit ds \<and> read_dec ds = unat v \<and> (s = ds \<or> s = CHR ''+'' # ds)"
  then obtain ds where ds: "ds \<noteq> []" "list_all is_digit ds" "read_dec ds = unat v" "s = ds \<or> s = CHR ''+'' # ds" by blast
  obtain c cs where c: "ds = c # cs" using ds(1) by (cases ds) auto
  have "is_digit c" using ds(2) c by simp
  then have "c \<noteq> CHR ''+''" using digit_code [of c] by auto
  moreover have "parse_digits 0 ds = Some (unat v)"
    using parse_digits_value [of 0 ds] ds(2,3) by (simp add: read_dec_def)
  ultimately show "parse_u64 s = Some v" using ds(4) c by (auto simp: parse_u64_def)
qed

end
