(* ===== verification/Bench_Fifo_Run.thy ===== *)
theory Bench_Fifo_Run
  imports Bench Parse
begin

text \<open>
  The run of a scenario of \<open>firq-bench\<close> against \<open>FifoQueue\<close>: the producers and workers of
  \<open>run_fifo\<close>, the atomics they share, and the figures both runs report. The threads call the
  queue of \<open>Bench_Fifo\<close> access by access; producer \<open>i\<close> and worker \<open>i\<close> of the run are its
  producer \<open>i\<close> and consumer \<open>i\<close>, and the main thread its one closer.
\<close>

subsection \<open>Which scenarios run\<close>

text \<open>
  The scenarios of \<open>main\<close> under the values of \<open>FIRQ_BENCH_SCENARIO\<close> and \<open>FIRQ_BENCH_SECONDS\<close>, each
  absent or a text; \<open>None\<close> is the exit with status 2.
\<close>

definition selected_scenarios :: "string option \<Rightarrow> string option \<Rightarrow> bench_scenario list option" where
  "selected_scenarios bench_name raw_seconds =
    (let scs = (case bench_name of None \<Rightarrow> scenarios | Some n \<Rightarrow> filter (\<lambda>sc. scenario_name sc = n) scenarios)
     in if bench_name \<noteq> None \<and> scs = [] then None
        else case Option.bind raw_seconds parse_u64 of
               None \<Rightarrow> Some scs
             | Some seconds \<Rightarrow> Some (map (\<lambda>sc. sc\<lparr>run_seconds := Some (max seconds 1)\<rparr>) scs))"

text \<open>A known name selects its scenario alone, an unknown one nothing; only the running time can change, never to 0.\<close>

lemma distinct_scenarios: "distinct (map scenario_name scenarios)"
  by (simp add: scenarios_def hot_tenant_sustained_def burst_massive_def mixed_priorities_def deadline_expiration_def
      capacity_pressure_def)

lemma selected_by_name:
  assumes "sc \<in> set scenarios"
  shows "\<exists>t. selected_scenarios (Some (scenario_name sc)) raw = Some [sc\<lparr>run_seconds := t\<rparr>] \<and>
    (Option.bind raw parse_u64 = None \<longrightarrow> t = run_seconds sc) \<and>
    (\<forall>v. Option.bind raw parse_u64 = Some v \<longrightarrow> t = Some (max v 1) \<and> 1 \<le> max v 1)"
proof -
  have "filter (\<lambda>x. scenario_name x = scenario_name sc) xs = [sc]" if "distinct (map scenario_name xs)" "sc \<in> set xs" for xs
    using that by (induction xs) (auto simp: filter_empty_conv, metis image_eqI)
  from this [OF distinct_scenarios assms] show ?thesis
    by (cases "Option.bind raw parse_u64")
      (auto simp: selected_scenarios_def intro!: exI [of _ "run_seconds sc"])
qed

lemma selected_unknown:
  "selected_scenarios (Some n) raw = None \<longleftrightarrow> n \<notin> scenario_name ` set scenarios"
  by (auto simp: selected_scenarios_def Let_def filter_empty_conv split: option.split)

subsection \<open>The threads\<close>

datatype fifo_producer_at = FifoProducerTop | FifoEnqueueing | FifoRefused | FifoProducerLeft

datatype fifo_worker_at =
    FifoWorkerTop
  | FifoDequeueing
  | FifoTook "producer_class task"
  | FifoServing "producer_class task"
  | FifoWorkerLeft

text \<open>\<open>fifo_refused\<close> and \<open>fifo_served\<close> are for the statements only: enqueues the closed queue refused, and
  the queue times of the tasks served.\<close>

record fifo_bench =
  fb_queue :: "producer_class fifo_queue"
  fb_running :: bool
  fb_ticks :: nat
  fb_produced_total :: nat
  fb_dropped_total :: nat
  dequeued_total :: nat
  expired_total :: nat
  fb_latencies :: "nat list"
  fb_cold_latencies :: "nat list"
  fb_producers :: "(producer_profile \<times> fifo_producer_at) list"
  fb_workers :: "fifo_worker_at list"
  fifo_refused :: nat
  fifo_served :: "nat list"

definition fifo_limit :: "bench_config \<Rightarrow> bench_scenario \<Rightarrow> usize" where
  "fifo_limit B sc = (case scenario_max_global sc of Some n \<Rightarrow> n | None \<Rightarrow> bench_max_global B)"

definition fifo_bench_start :: "bench_config \<Rightarrow> bench_scenario \<Rightarrow> fifo_bench" where
  "fifo_bench_start B sc =
    \<lparr>fb_queue = fifo_new (fifo_limit B sc) (unat (worker_count B)) (length (scenario_producers sc)) 1,
     fb_running = True, fb_ticks = 0, fb_produced_total = 0, fb_dropped_total = 0, dequeued_total = 0,
     expired_total = 0, fb_latencies = replicate (length BENCH_BUCKETS_NS) 0,
     fb_cold_latencies = replicate (length BENCH_BUCKETS_NS) 0,
     fb_producers = map (\<lambda>p. (p, FifoProducerTop)) (scenario_producers sc),
     fb_workers = replicate (unat (worker_count B)) FifoWorkerTop, fifo_refused = 0, fifo_served = []\<rparr>"

text \<open>The task of an iteration, and the number of clock reads it took.\<close>

definition fifo_task :: "clock \<Rightarrow> producer_profile \<Rightarrow> nat \<Rightarrow> producer_class task \<times> nat" where
  "fifo_task clk p n =
    (let (dl, n1) = (case deadline_ms p of
           None \<Rightarrow> (None, n)
         | Some ms \<Rightarrow> (Some (clk n + unat ms * 1000000), Suc n))
     in (\<lparr>payload = prof_class p, enqueue_ts = clk n1, deadline = dl, prio = prof_priority p, cost = prof_cost p\<rparr>,
         Suc n1))"

text \<open>
  Which of its two answers \<open>false\<close> the next turn of an enqueue gives: at the start it looks at the
  closed flag, later at the length of the queue.
\<close>

fun refused_closed :: "'a fifo_producer \<Rightarrow> 'a fifo_queue \<Rightarrow> bool" where
  "refused_closed (PStart task) q = fifo_closed q"
| "refused_closed p q = False"

fun fifo_bench_producer :: "clock \<Rightarrow> nat \<Rightarrow> nat \<Rightarrow> producer_profile \<Rightarrow> fifo_producer_at \<Rightarrow> fifo_bench \<Rightarrow>
    fifo_producer_at \<times> fifo_bench" where
  "fifo_bench_producer clk i w p FifoProducerTop b =
    (if fb_running b then
       let (task, n) = fifo_task clk p (fb_ticks b)
       in (FifoEnqueueing,
           b\<lparr>fb_ticks := n, fb_produced_total := wrapping_inc (fb_produced_total b),
             fb_queue := fifo_step (CallEnqueue i task) (fb_queue b)\<rparr>)
     else (FifoProducerLeft, b))"
| "fifo_bench_producer clk i w p FifoEnqueueing b =
    (let q = fifo_step (ProducerTurn i w) (fb_queue b); b1 = b\<lparr>fb_queue := q\<rparr>
     in case fifo_producers q ! i of
          PReturned True \<Rightarrow> (FifoProducerTop, b1)
        | PReturned False \<Rightarrow>
            (FifoRefused,
             b1\<lparr>fifo_refused := fifo_refused b +
               (if refused_closed (fifo_producers (fb_queue b) ! i) (fb_queue b) then 1 else 0)\<rparr>)
        | _ \<Rightarrow> (FifoEnqueueing, b1))"
| "fifo_bench_producer clk i w p FifoRefused b =
    (FifoProducerTop, b\<lparr>fb_dropped_total := wrapping_inc (fb_dropped_total b)\<rparr>)"
| "fifo_bench_producer clk i w p FifoProducerLeft b = (FifoProducerLeft, b)"

fun fifo_bench_worker :: "clock \<Rightarrow> nat \<Rightarrow> fifo_worker_at \<Rightarrow> fifo_bench \<Rightarrow> fifo_worker_at \<times> fifo_bench" where
  "fifo_bench_worker clk i FifoWorkerTop b =
    (if fb_running b then (FifoDequeueing, b\<lparr>fb_queue := fifo_step (CallDequeue i) (fb_queue b)\<rparr>)
     else (FifoWorkerLeft, b))"
| "fifo_bench_worker clk i FifoDequeueing b =
    (let q = fifo_step (ConsumerTurn i) (fb_queue b); b1 = b\<lparr>fb_queue := q\<rparr>
     in case fifo_consumers q ! i of
          CReturned (Some task) \<Rightarrow> (FifoTook task, b1)
        | CReturned None \<Rightarrow> (FifoWorkerLeft, b1)
        | _ \<Rightarrow> (FifoDequeueing, b1))"
| "fifo_bench_worker clk i (FifoTook task) b =
    (let (late, n) = (case deadline task of
           Some dl \<Rightarrow> (dl < clk (fb_ticks b), Suc (fb_ticks b))
         | None \<Rightarrow> (False, fb_ticks b));
         b1 = b\<lparr>fb_ticks := n\<rparr>
     in if late then (FifoWorkerTop, b1\<lparr>expired_total := wrapping_inc (expired_total b)\<rparr>)
        else (FifoServing task, b1\<lparr>dequeued_total := wrapping_inc (dequeued_total b)\<rparr>))"
| "fifo_bench_worker clk i (FifoServing task) b =
    (let queue_time_ns = min (clk (fb_ticks b) - enqueue_ts task) u64_max
     in (FifoWorkerTop,
         b\<lparr>fb_ticks := Suc (fb_ticks b), fb_latencies := observe queue_time_ns (fb_latencies b),
           fb_cold_latencies :=
             (if payload task = Cold then observe queue_time_ns (fb_cold_latencies b) else fb_cold_latencies b),
           fifo_served := fifo_served b @ [queue_time_ns]\<rparr>))"
| "fifo_bench_worker clk i FifoWorkerLeft b = (FifoWorkerLeft, b)"

text \<open>
  The main thread stops the loops, then closes the queue; a wait may end without a notification.
\<close>

datatype fifo_bench_event =
    FifoBenchProducer nat nat
  | FifoBenchWorker nat
  | FifoBenchStop
  | FifoBenchClose
  | FifoBenchCloser
  | FifoBenchWake nat

fun fifo_bench_step :: "clock \<Rightarrow> fifo_bench_event \<Rightarrow> fifo_bench \<Rightarrow> fifo_bench" where
  "fifo_bench_step clk (FifoBenchProducer i w) b =
    (if i < length (fb_producers b) then
       let (p, a) = fb_producers b ! i; (a', b') = fifo_bench_producer clk i w p a b
       in b'\<lparr>fb_producers := (fb_producers b')[i := (p, a')]\<rparr>
     else b)"
| "fifo_bench_step clk (FifoBenchWorker i) b =
    (if i < length (fb_workers b) then
       let (a, b') = fifo_bench_worker clk i (fb_workers b ! i) b
       in b'\<lparr>fb_workers := (fb_workers b')[i := a]\<rparr>
     else b)"
| "fifo_bench_step clk FifoBenchStop b = b\<lparr>fb_running := False\<rparr>"
| "fifo_bench_step clk FifoBenchClose b = b\<lparr>fb_queue := fifo_step (CallClose 0) (fb_queue b)\<rparr>"
| "fifo_bench_step clk FifoBenchCloser b = b\<lparr>fb_queue := fifo_step (CloserTurn 0) (fb_queue b)\<rparr>"
| "fifo_bench_step clk (FifoBenchWake i) b = b\<lparr>fb_queue := fifo_step (SpuriousWakeup i) (fb_queue b)\<rparr>"

definition run_fifo :: "bench_config \<Rightarrow> bench_scenario \<Rightarrow> clock \<Rightarrow> fifo_bench_event list \<Rightarrow> fifo_bench" where
  "run_fifo B sc clk evs = fold (fifo_bench_step clk) evs (fifo_bench_start B sc)"

subsection \<open>The figures\<close>

text \<open>\<open>BenchResult\<close> without the throughput, which depends on the elapsed time; the literal \<open>0.50\<close> is exact.\<close>

record bench_result =
  br_enqueued :: nat
  br_dequeued :: nat
  br_dropped :: nat
  br_expired :: nat
  br_produced_total :: nat
  br_drop_rate :: f64
  br_expired_rate :: f64
  p50_queue_ms :: f64
  p95_queue_ms :: f64
  p99_queue_ms :: f64
  cold_p99_queue_ms :: f64

definition PCT_50 :: f64 where
  "PCT_50 = F64 4503599627370496 (- 53)"

definition firq_result :: "bench \<Rightarrow> bench_result" where
  "firq_result b =
    (let c = stats (shared (bench_sched b)) in
     \<lparr>br_enqueued = enqueued c, br_dequeued = dequeued c, br_dropped = dropped c, br_expired = expired c,
      br_produced_total = produced_total b, br_drop_rate = rate (dropped c) (produced_total b),
      br_expired_rate = rate (expired c) (enqueued c),
      p50_queue_ms = ns_to_ms (percentile_from_counts (latencies b) PCT_50),
      p95_queue_ms = ns_to_ms (percentile_from_counts (latencies b) PCT_95),
      p99_queue_ms = ns_to_ms (percentile_from_counts (latencies b) PCT_99),
      cold_p99_queue_ms = ns_to_ms (percentile_from_counts (cold_latencies b) PCT_99)\<rparr>)"

definition fifo_result :: "fifo_bench \<Rightarrow> bench_result" where
  "fifo_result b =
    (let refusals = fifo_dropped (fb_queue b); produced = fb_produced_total b in
     \<lparr>br_enqueued = produced - refusals, br_dequeued = dequeued_total b, br_dropped = refusals,
      br_expired = expired_total b, br_produced_total = produced, br_drop_rate = rate refusals produced,
      br_expired_rate = rate (expired_total b) (produced - refusals),
      p50_queue_ms = ns_to_ms (percentile_from_counts (fb_latencies b) PCT_50),
      p95_queue_ms = ns_to_ms (percentile_from_counts (fb_latencies b) PCT_95),
      p99_queue_ms = ns_to_ms (percentile_from_counts (fb_latencies b) PCT_99),
      cold_p99_queue_ms = ns_to_ms (percentile_from_counts (fb_cold_latencies b) PCT_99)\<rparr>)"

subsection \<open>The books of a run\<close>

fun enqueueing :: "'a fifo_producer \<Rightarrow> bool" where
  "enqueueing (PReturned r) = False"
| "enqueueing p = True"

text \<open>Counted as produced, neither in the queue nor refused yet.\<close>

fun undecided :: "'a fifo_producer \<Rightarrow> bool" where
  "undecided (PStart task) = True"
| "undecided (POpen task) = True"
| "undecided (PLocked task) = True"
| "undecided p = False"

fun dequeueing :: "'a fifo_consumer \<Rightarrow> bool" where
  "dequeueing (CReturned r) = False"
| "dequeueing c = True"

fun holds_task :: "fifo_worker_at \<Rightarrow> bool" where
  "holds_task (FifoTook task) = True"
| "holds_task a = False"

fun serves_task :: "fifo_worker_at \<Rightarrow> bool" where
  "serves_task (FifoServing task) = True"
| "serves_task a = False"

fun was_refused :: "producer_profile \<times> fifo_producer_at \<Rightarrow> bool" where
  "was_refused (p, FifoRefused) = True"
| "was_refused (p, a) = False"

definition fifo_bench_ok :: "nat \<Rightarrow> fifo_bench \<Rightarrow> bool" where
  "fifo_bench_ok n b \<longleftrightarrow> (let q = fb_queue b in
     fifo_inv q \<and>
     map enqueueing (fifo_producers q) = map (\<lambda>x. snd x = FifoEnqueueing) (fb_producers b) \<and>
     map dequeueing (fifo_consumers q) = map (\<lambda>a. a = FifoDequeueing) (fb_workers b) \<and>
     fb_produced_total b = length (pushed q) + fifo_dropped q + fifo_refused b + number undecided (fifo_producers q) \<and>
     fb_produced_total b \<le> n \<and>
     fb_dropped_total b + number was_refused (fb_producers b) = fifo_dropped q + fifo_refused b \<and>
     length (popped q) = dequeued_total b + expired_total b + number holds_task (fb_workers b) \<and>
     dequeued_total b = length (fifo_served b) + number serves_task (fb_workers b) \<and>
     length (fb_latencies b) = length BENCH_BUCKETS_NS \<and>
     sum_list (fb_latencies b) = number (\<lambda>v. v \<le> last BENCH_BUCKETS_NS) (fifo_served b))"

lemma dequeueing_wake [simp]:
  "map dequeueing (notify_one w cs) = map dequeueing cs" "map dequeueing (notify_waiting cs) = map dequeueing cs"
  "map dequeueing (fifo_wake w cs) = map dequeueing cs"
proof -
  have a: "asleep c \<longleftrightarrow> c = CAsleep" for c :: "'a fifo_consumer" by (cases c) simp_all
  show f: "map dequeueing (fifo_wake w cs) = map dequeueing cs" for w
    by (cases "w < length cs \<and> cs ! w = CAsleep")
      (auto simp: fifo_wake_def a map_update list_update_same_conv)
  have "map dequeueing (wake_first cs) = map dequeueing cs" by (induction cs) (auto split: fifo_consumer.split)
  with f show "map dequeueing (notify_one w cs) = map dequeueing cs" by (simp add: notify_one_def)
  show "map dequeueing (notify_waiting cs) = map dequeueing cs" by (auto simp: notify_waiting_def a)
qed

lemma fifo_step_lengths [simp]:
  "length (fifo_producers (fifo_step ev q)) = length (fifo_producers q)"
  "length (fifo_consumers (fifo_step ev q)) = length (fifo_consumers q)"
proof -
  have c: "length (notify_one w cs) = length cs" "length (notify_waiting cs) = length cs" "length (fifo_wake w cs) = length cs"
    for w and cs :: "'a fifo_consumer list"
    by (metis dequeueing_wake(1) length_map, metis dequeueing_wake(2) length_map, metis dequeueing_wake(3) length_map)
  have "length (fifo_producers (fifo_step ev q)) = length (fifo_producers q) \<and>
    length (fifo_consumers (fifo_step ev q)) = length (fifo_consumers q)"
  proof (cases ev)
    case (ConsumerTurn i)
    then show ?thesis by (cases "fifo_consumers q ! i") (auto split: list.split)
  next
    case (ProducerTurn i w)
    then show ?thesis by (cases "fifo_producers q ! i") (auto simp: c)
  next
    case (CloserTurn i)
    then show ?thesis by (cases "fifo_closers q ! i") (auto simp: c)
  qed (auto simp: c split: fifo_consumer.split fifo_producer.split)
  then show "length (fifo_producers (fifo_step ev q)) = length (fifo_producers q)"
    "length (fifo_consumers (fifo_step ev q)) = length (fifo_consumers q)" by simp_all
qed

lemma fifo_start_ok: "fifo_bench_ok 0 (fifo_bench_start B sc)"
proof -
  have "number was_refused (map (\<lambda>p. (p, FifoProducerTop)) ps) = 0" for ps by (induction ps) simp_all
  then show ?thesis
    by (simp add: fifo_bench_ok_def fifo_bench_start_def fifo_new_def fifo_inv_def number_replicate comp_def
        map_replicate_const sum_list_replicate)
qed

lemma fifo_producer_ok:
  assumes ok: "fifo_bench_ok n b" and n: "n < u64_max" and i: "i < length (fb_producers b)"
  shows "fifo_bench_ok (Suc n) (fifo_bench_step clk (FifoBenchProducer i w) b)"
proof -
  let ?q = "fb_queue b"
  obtain p a where pa: "fb_producers b ! i = (p, a)" by fastforce
  from ok have m: "map enqueueing (fifo_producers ?q) = map (\<lambda>x. snd x = FifoEnqueueing) (fb_producers b)"
    and inv: "fifo_inv ?q" by (simp_all add: fifo_bench_ok_def Let_def)
  from m have iq: "i < length (fifo_producers ?q)" using i by (metis length_map)
  from arg_cong [OF m, of "\<lambda>xs. xs ! i"] iq i pa
  have en: "enqueueing (fifo_producers ?q ! i) \<longleftrightarrow> a = FifoEnqueueing" by simp
  note un = number_update [OF iq, of undecided] and rf = number_update [OF i, of was_refused]
  note step = fifo_step_inv [OF inv]
  show ?thesis
  proof (cases a)
    case FifoProducerTop
    with en obtain r where r: "fifo_producers ?q ! i = PReturned r" by (cases "fifo_producers ?q ! i") auto
    obtain task k where t: "fifo_task clk p (fb_ticks b) = (task, k)" by fastforce
    from ok n have "fb_produced_total b < u64_max" by (simp add: fifo_bench_ok_def Let_def)
    with ok FifoProducerTop r t pa i iq un [of "PStart task"] rf [of "(p, FifoEnqueueing)"] rf [of "(p, FifoProducerLeft)"]
      step [of "CallEnqueue i task"] list_update_id [of "map (\<lambda>x. snd x = FifoEnqueueing) (fb_producers b)" i] en
    show ?thesis by (auto simp: fifo_bench_ok_def Let_def map_update wrapping_inc_exact)
  next
    case FifoEnqueueing
    define q where "q = fifo_step (ProducerTurn i w) ?q"
    have qp: "fifo_producers q = (fifo_producers ?q)[i := fifo_producers q ! i]" "popped q = popped ?q"
      "map dequeueing (fifo_consumers q) = map dequeueing (fifo_consumers ?q)"
      using iq by (cases "fifo_producers ?q ! i"; auto simp: q_def)+
    from ok n have small: "fifo_dropped ?q < u64_max" by (simp add: fifo_bench_ok_def Let_def)
    note u = un [of "fifo_producers q ! i", folded qp(1)]
    have inv': "fifo_inv q" unfolding q_def by (rule step)
    have rest: "fifo_bench_ok (Suc n) (b\<lparr>fb_queue := q, fifo_refused := fifo_refused b + x, fb_producers := (fb_producers b)[i := (p, a')]\<rparr>)"
      if a': "enqueueing (fifo_producers q ! i) \<longleftrightarrow> a' = FifoEnqueueing"
        and "length (pushed q) + fifo_dropped q + x + (if undecided (fifo_producers q ! i) then 1 else 0) =
          length (pushed ?q) + fifo_dropped ?q + (if undecided (fifo_producers ?q ! i) then 1 else 0)"
        and "fifo_dropped q + x = fifo_dropped ?q + (if a' = FifoRefused then 1 else 0)" for a' x
    proof -
      have "map enqueueing (fifo_producers q) = map (\<lambda>y. snd y = FifoEnqueueing) ((fb_producers b)[i := (p, a')])"
        using a' by (subst qp(1)) (simp add: map_update m)
      moreover have "was_refused (p, a') \<longleftrightarrow> a' = FifoRefused" by (cases a') simp_all
      with rf [of "(p, a')"] pa FifoEnqueueing
      have "number was_refused ((fb_producers b)[i := (p, a')]) = number was_refused (fb_producers b) + (if a' = FifoRefused then 1 else 0)"
        by simp
      ultimately show ?thesis using ok that(2,3) u qp(2,3) inv' by (simp add: fifo_bench_ok_def Let_def)
    qed
    have q': "fifo_producers q ! i = fst (fifo_enqueue w (fifo_producers ?q ! i) ?q)"
      "pushed q = pushed (snd (fifo_enqueue w (fifo_producers ?q ! i) ?q))"
      "fifo_dropped q = fifo_dropped (snd (fifo_enqueue w (fifo_producers ?q ! i) ?q))"
      using iq by (cases "fifo_producers ?q ! i"; auto simp: q_def)+
    have st: "fifo_bench_step clk (FifoBenchProducer i w) b = (case fifo_producers q ! i of
        PReturned True \<Rightarrow> b\<lparr>fb_queue := q, fb_producers := (fb_producers b)[i := (p, FifoProducerTop)]\<rparr>
      | PReturned False \<Rightarrow> b\<lparr>fb_queue := q, fifo_refused := fifo_refused b + (if refused_closed (fifo_producers ?q ! i) ?q then 1 else 0),
          fb_producers := (fb_producers b)[i := (p, FifoRefused)]\<rparr>
      | _ \<Rightarrow> b\<lparr>fb_queue := q, fb_producers := (fb_producers b)[i := (p, FifoEnqueueing)]\<rparr>)"
      using i pa FifoEnqueueing by (simp add: Let_def q_def [symmetric] split: fifo_producer.split bool.split del: fifo_step.simps)
    have plain: "b\<lparr>fb_queue := q, fb_producers := ps\<rparr> = b\<lparr>fb_queue := q, fifo_refused := fifo_refused b + 0, fb_producers := ps\<rparr>" for ps
      by simp
    show ?thesis
    proof (cases "fifo_producers ?q ! i")
      case (PStart t)
      show ?thesis
      proof (cases "fifo_closed ?q")
        case True
        with rest [of FifoRefused 1] PStart q' show ?thesis unfolding st by simp
      next
        case False
        with rest [of FifoEnqueueing 0] PStart q' show ?thesis unfolding st by simp
      qed
    next
      case (POpen t)
      with rest [of FifoEnqueueing 0] q' show ?thesis unfolding st by (cases "fifo_locked ?q") simp_all
    next
      case (PLocked t)
      show ?thesis
      proof (cases "unat (fifo_max_global ?q) \<le> length (fifo_items ?q)")
        case True
        with rest [of FifoRefused 0] PLocked q' small show ?thesis unfolding st by simp
      next
        case False
        with rest [of FifoEnqueueing 0] PLocked q' show ?thesis unfolding st by simp
      qed
    next
      case PNotify
      with rest [of FifoProducerTop 0] q' show ?thesis unfolding st by simp
    next
      case (PReturned r)
      with en FifoEnqueueing show ?thesis by simp
    qed
  next
    case FifoRefused
    have "0 < number was_refused (fb_producers b)"
      using number_pos [OF nth_mem [OF i], of was_refused] pa FifoRefused by simp
    with ok n have lt: "fb_dropped_total b < u64_max" by (simp add: fifo_bench_ok_def Let_def)
    have "map (\<lambda>y. snd y = FifoEnqueueing) ((fb_producers b)[i := (p, FifoProducerTop)]) = map (\<lambda>y. snd y = FifoEnqueueing) (fb_producers b)"
      using pa FifoRefused i by (simp add: map_update list_update_same_conv)
    moreover have "Suc (number was_refused ((fb_producers b)[i := (p, FifoProducerTop)])) = number was_refused (fb_producers b)"
      using rf [of "(p, FifoProducerTop)"] pa FifoRefused by simp
    ultimately show ?thesis using ok FifoRefused pa i lt by (simp add: fifo_bench_ok_def Let_def wrapping_inc_exact)
  next
    case FifoProducerLeft
    then have "fifo_bench_step clk (FifoBenchProducer i w) b = b" using pa i list_update_id [of "fb_producers b" i] by simp
    with ok show ?thesis by (simp add: fifo_bench_ok_def Let_def)
  qed
qed

lemma fifo_worker_ok:
  assumes ok: "fifo_bench_ok n b" and n: "n < u64_max" and i: "i < length (fb_workers b)"
    and few: "length (popped (fb_queue b)) \<le> n"
  shows "fifo_bench_ok (Suc n) (fifo_bench_step clk (FifoBenchWorker i) b)"
proof -
  let ?q = "fb_queue b" and ?a = "fb_workers b ! i"
  from ok have m: "map dequeueing (fifo_consumers ?q) = map (\<lambda>a. a = FifoDequeueing) (fb_workers b)"
    and inv: "fifo_inv ?q" by (simp_all add: fifo_bench_ok_def Let_def)
  from m have iq: "i < length (fifo_consumers ?q)" using i by (metis length_map)
  from arg_cong [OF m, of "\<lambda>xs. xs ! i"] iq i
  have de: "dequeueing (fifo_consumers ?q ! i) \<longleftrightarrow> ?a = FifoDequeueing" by simp
  note ht = number_update [OF i, of holds_task] and sv = number_update [OF i, of serves_task]
  have same: "map (\<lambda>a. a = FifoDequeueing) ((fb_workers b)[i := a']) = map (\<lambda>a. a = FifoDequeueing) (fb_workers b)"
    if "?a \<noteq> FifoDequeueing" "a' \<noteq> FifoDequeueing" for a'
    using that i by (simp add: map_update list_update_same_conv)
  show ?thesis
  proof (cases ?a)
    case FifoWorkerTop
    with de obtain r where r: "fifo_consumers ?q ! i = CReturned r" by (cases "fifo_consumers ?q ! i") auto
    show ?thesis
    proof (cases "fb_running b")
      case True
      let ?q1 = "fifo_step (CallDequeue i) ?q"
      have "fifo_consumers ?q1 = (fifo_consumers ?q)[i := CStart]" "fifo_producers ?q1 = fifo_producers ?q"
        "pushed ?q1 = pushed ?q" "popped ?q1 = popped ?q" "fifo_dropped ?q1 = fifo_dropped ?q"
        using r iq by simp_all
      with ok FifoWorkerTop True i fifo_step_inv [OF inv, of "CallDequeue i"] ht [of FifoDequeueing] sv [of FifoDequeueing]
      show ?thesis by (simp add: fifo_bench_ok_def Let_def map_update m del: fifo_step.simps)
    next
      case False
      with ok FifoWorkerTop i ht [of FifoWorkerLeft] sv [of FifoWorkerLeft] same [of FifoWorkerLeft]
      show ?thesis by (simp add: fifo_bench_ok_def Let_def)
    qed
  next
    case FifoDequeueing
    define q where "q = fifo_step (ConsumerTurn i) ?q"
    have inv': "fifo_inv q" unfolding q_def by (rule fifo_step_inv [OF inv])
    have q: "fifo_producers q = fifo_producers ?q" "pushed q = pushed ?q" "fifo_dropped q = fifo_dropped ?q"
      "fifo_consumers q = (fifo_consumers ?q)[i := fifo_consumers q ! i]"
      "length (popped q) = length (popped ?q) + (case fifo_consumers q ! i of CReturned (Some t) \<Rightarrow> 1 | _ \<Rightarrow> 0)"
      using iq de FifoDequeueing by (cases "fifo_consumers ?q ! i"; auto simp: q_def split: list.split)+
    have rest: "fifo_bench_ok (Suc n) (b\<lparr>fb_queue := q, fb_workers := (fb_workers b)[i := a']\<rparr>)"
      if a': "dequeueing (fifo_consumers q ! i) \<longleftrightarrow> a' = FifoDequeueing"
        and "length (popped q) = length (popped ?q) + (if holds_task a' then 1 else 0)" "\<not> serves_task a'" for a'
    proof -
      have "map dequeueing (fifo_consumers q) = map (\<lambda>a. a = FifoDequeueing) ((fb_workers b)[i := a'])"
        using a' by (subst q(4)) (simp add: map_update m)
      then show ?thesis using ok that(2,3) q(1-3) inv' ht [of a'] sv [of a'] FifoDequeueing
        by (simp add: fifo_bench_ok_def Let_def)
    qed
    have st: "fifo_bench_step clk (FifoBenchWorker i) b = (case fifo_consumers q ! i of
        CReturned (Some t) \<Rightarrow> b\<lparr>fb_queue := q, fb_workers := (fb_workers b)[i := FifoTook t]\<rparr>
      | CReturned None \<Rightarrow> b\<lparr>fb_queue := q, fb_workers := (fb_workers b)[i := FifoWorkerLeft]\<rparr>
      | _ \<Rightarrow> b\<lparr>fb_queue := q, fb_workers := (fb_workers b)[i := FifoDequeueing]\<rparr>)"
      using i FifoDequeueing by (simp add: Let_def q_def [symmetric] split: fifo_consumer.split option.split del: fifo_step.simps)
    show ?thesis
    proof (cases "fifo_consumers q ! i")
      case (CReturned r)
      with rest [of FifoWorkerLeft] rest [of "FifoTook (the r)"] q(5) show ?thesis unfolding st by (cases r) simp_all
    next
      case CStart
      with rest [of FifoDequeueing] q(5) show ?thesis unfolding st by simp
    next
      case CLocked
      with rest [of FifoDequeueing] q(5) show ?thesis unfolding st by simp
    next
      case CChecked
      with rest [of FifoDequeueing] q(5) show ?thesis unfolding st by simp
    next
      case CAsleep
      with rest [of FifoDequeueing] q(5) show ?thesis unfolding st by simp
    next
      case CWoken
      with rest [of FifoDequeueing] q(5) show ?thesis unfolding st by simp
    qed
  next
    case (FifoTook task)
    have "0 < number holds_task (fb_workers b)" using number_pos [OF nth_mem [OF i], of holds_task] FifoTook by simp
    with ok few n have lt: "dequeued_total b < u64_max" "expired_total b < u64_max"
      by (simp_all add: fifo_bench_ok_def Let_def)
    from ok FifoTook i lt ht [of FifoWorkerTop] sv [of FifoWorkerTop] ht [of "FifoServing task"] sv [of "FifoServing task"]
      same [of FifoWorkerTop] same [of "FifoServing task"]
    show ?thesis by (simp add: fifo_bench_ok_def Let_def wrapping_inc_exact split: option.split)
  next
    case (FifoServing task)
    let ?v = "min (clk (fb_ticks b) - enqueue_ts task) u64_max"
    have "0 < number serves_task (fb_workers b)" using number_pos [OF nth_mem [OF i], of serves_task] FifoServing by simp
    with ok few n have "length (fifo_served b) < u64_max" by (simp add: fifo_bench_ok_def Let_def)
    moreover have "sum_list (fb_latencies b) \<le> length (fifo_served b)" using ok by (simp add: fifo_bench_ok_def Let_def number_def)
    ultimately have lt: "sum_list (fb_latencies b) < u64_max" by simp
    have ln: "length (fb_latencies b) = length BENCH_BUCKETS_NS" using ok by (simp add: fifo_bench_ok_def Let_def)
    have app: "number P (xs @ [x]) = number P xs + (if P x then 1 else 0)" for P xs and x :: nat by (simp add: number_def)
    from ok FifoServing i ht [of FifoWorkerTop] sv [of FifoWorkerTop] same [of FifoWorkerTop] observe_sum [OF ln lt, of ?v]
    show ?thesis by (simp add: fifo_bench_ok_def Let_def app)
  next
    case FifoWorkerLeft
    then have "fifo_bench_step clk (FifoBenchWorker i) b = b" using i list_update_id [of "fb_workers b" i] by simp
    with ok show ?thesis by (simp add: fifo_bench_ok_def Let_def)
  qed
qed

lemma fifo_bench_step_ok:
  assumes ok: "fifo_bench_ok n b" and n: "n < u64_max"
  shows "fifo_bench_ok (Suc n) (fifo_bench_step clk ev b)"
proof -
  let ?q = "fb_queue b"
  from ok have inv: "fifo_inv ?q" by (simp add: fifo_bench_ok_def Let_def)
  have rest: "fifo_bench_ok (Suc n) (b\<lparr>fb_queue := q\<rparr>)"
    if "fifo_inv q" "fifo_producers q = fifo_producers ?q" "map dequeueing (fifo_consumers q) = map dequeueing (fifo_consumers ?q)"
      "pushed q = pushed ?q" "popped q = popped ?q" "fifo_dropped q = fifo_dropped ?q" for q
    using ok that by (simp add: fifo_bench_ok_def Let_def)
  note same = rest [OF fifo_step_inv [OF inv]]
  show ?thesis
  proof (cases ev)
    case (FifoBenchProducer i w)
    with ok fifo_producer_ok [OF ok n, of i clk w] show ?thesis
      by (cases "i < length (fb_producers b)") (simp_all add: fifo_bench_ok_def Let_def)
  next
    case (FifoBenchWorker i)
    from inv have "length (popped ?q) \<le> length (pushed ?q)" by (simp add: fifo_inv_def)
    with ok have "length (popped ?q) \<le> n" by (simp add: fifo_bench_ok_def Let_def)
    with FifoBenchWorker ok fifo_worker_ok [OF ok n, of i clk] show ?thesis
      by (cases "i < length (fb_workers b)") (simp_all add: fifo_bench_ok_def Let_def)
  next
    case FifoBenchStop
    with ok show ?thesis by (simp add: fifo_bench_ok_def Let_def)
  next
    case FifoBenchClose
    with same [of "CallClose 0"] show ?thesis by simp
  next
    case FifoBenchCloser
    with same [of "CloserTurn 0"] show ?thesis by (cases "fifo_closers ?q ! 0"; cases "0 < length (fifo_closers ?q)") simp_all
  next
    case (FifoBenchWake i)
    with same [of "SpuriousWakeup i"] show ?thesis by simp
  qed
qed

lemma run_fifo_ok: "length evs \<le> u64_max \<Longrightarrow> fifo_bench_ok (length evs) (run_fifo B sc clk evs)"
proof (induction evs rule: rev_induct)
  case Nil
  show ?case by (simp add: run_fifo_def fifo_start_ok)
next
  case (snoc ev evs)
  then show ?case by (simp add: run_fifo_def fifo_bench_step_ok)
qed

text \<open>
  C36: The books of a run against the FIFO queue: every task counted as produced is in the queue's
  history, dropped at the limit, refused because the queue is closed, or about to be decided; the
  drops the producers count are the last two; what a worker popped it counted as served or as
  expired, and the queue time of every served task is in the histogram. The figure the run
  reports as enqueued is not what entered the queue: it includes the refused tasks.
\<close>

theorem fifo_bench_accounts:
  assumes "run_fifo B sc clk evs = b" and "length evs \<le> u64_max" and "fb_queue b = q"
  shows "fb_produced_total b = length (pushed q) + fifo_dropped q + fifo_refused b + number undecided (fifo_producers q) \<and>
    fb_dropped_total b + number was_refused (fb_producers b) = fifo_dropped q + fifo_refused b \<and>
    length (pushed q) = length (fifo_items q) + dequeued_total b + expired_total b + number holds_task (fb_workers b) \<and>
    dequeued_total b = length (fifo_served b) + number serves_task (fb_workers b) \<and>
    sum_list (fb_latencies b) = number (\<lambda>v. v \<le> last BENCH_BUCKETS_NS) (fifo_served b) \<and>
    br_enqueued (fifo_result b) = length (pushed q) + fifo_refused b + number undecided (fifo_producers q)"
proof -
  from run_fifo_ok [OF assms(2), of B sc clk] assms(1,3)
  have ok: "fifo_bench_ok (length evs) b" and q: "fb_queue b = q" by simp_all
  from ok q have "fifo_inv q" by (simp add: fifo_bench_ok_def Let_def)
  then have p: "length (pushed q) = length (popped q) + length (fifo_items q)" by (simp add: fifo_inv_def)
  from ok q p show ?thesis by (simp add: fifo_bench_ok_def fifo_result_def Let_def)
qed

theorem fifo_bench_accounts_witness:
  "\<exists>b. run_fifo (default_bench_config\<lparr>worker_count := 1\<rparr>)
      (hot_tenant_sustained\<lparr>scenario_producers := profiles 7 8 Cold 0 Normal None\<rparr>) demo_clock
      [FifoBenchWorker 0, FifoBenchProducer 0 0, FifoBenchProducer 0 0, FifoBenchProducer 0 0, FifoBenchProducer 0 0,
       FifoBenchProducer 0 0, FifoBenchProducer 0 0, FifoBenchStop, FifoBenchClose, FifoBenchCloser,
       FifoBenchProducer 0 0, FifoBenchProducer 0 0, FifoBenchProducer 0 0, FifoBenchWorker 0, FifoBenchWorker 0,
       FifoBenchWorker 0, FifoBenchWorker 0, FifoBenchWorker 0] = b \<and>
    length (pushed (fb_queue b)) = 1 \<and> length (fifo_served b) = 1 \<and> fifo_dropped (fb_queue b) = 0 \<and>
    br_enqueued (fifo_result b) = 2"
proof -
  let ?evs = "[FifoBenchWorker 0, FifoBenchProducer 0 0, FifoBenchProducer 0 0, FifoBenchProducer 0 0, FifoBenchProducer 0 0,
       FifoBenchProducer 0 0, FifoBenchProducer 0 0, FifoBenchStop, FifoBenchClose, FifoBenchCloser,
       FifoBenchProducer 0 0, FifoBenchProducer 0 0, FifoBenchProducer 0 0, FifoBenchWorker 0, FifoBenchWorker 0,
       FifoBenchWorker 0, FifoBenchWorker 0, FifoBenchWorker 0]"
  define B where "B = default_bench_config\<lparr>worker_count := 1\<rparr>"
  define sc where "sc = hot_tenant_sustained\<lparr>scenario_producers := profiles 7 8 Cold 0 Normal None\<rparr>"
  define b where "b = run_fifo B sc demo_clock ?evs"
  have v: "length (pushed (fb_queue b)) = 1" "length (fifo_served b) = 1" "fifo_dropped (fb_queue b) = 0"
    "fifo_refused b = 1" "number undecided (fifo_producers (fb_queue b)) = 0"
    by (simp_all add: b_def B_def sc_def run_fifo_def fifo_bench_start_def fifo_limit_def fifo_new_def profiles_def
        hot_tenant_sustained_def default_bench_config_def fifo_task_def eval notify_one_def)
  have "length ?evs \<le> u64_max" by simp
  from fifo_bench_accounts [OF b_def [symmetric] this refl] v have "br_enqueued (fifo_result b) = 2" by simp
  with v show ?thesis by (intro exI [of _ b]) (simp add: b_def B_def sc_def)
qed

end
