(* ===== verification/Pipeline.thy ===== *)
theory Pipeline
  imports Traces Prometheus
begin

text \<open>
  The program of \<open>firq-examples/src/main.rs\<close>: thirty producers feed jobs of a data pipeline to the
  scheduler, four workers dequeue and run them, and shared counters are kept by tenant. A thread
  is a state machine that makes one access to shared state in each turn. The logger thread only
  prints; the sleeps are the time between turns.
\<close>

subsection \<open>Tenants and configuration\<close>

datatype tenant_tier = Batch | Etl | Api

record tenant_profile =
  profile_id :: u64
  profile_name :: string
  tier :: tenant_tier
  base_kb :: u64
  jitter_kb :: u64
  submit_every_us :: u64
  base_cost :: u64

record pipeline_job =
  stage_ms :: "u64 list"

record example_conf =
  example_workers :: usize
  example_seconds :: u64
  log_every_s :: u64
  example_scheduler :: config

definition example_config :: example_conf where
  "example_config =
    \<lparr>example_workers = 4, example_seconds = 15, log_every_s = 1,
     example_scheduler =
       \<lparr>cfg_shards = 1, max_global = 60000, max_per_tenant = 2000, cfg_quantum = 5, quantum_by_tenant = Map.empty,
        cfg_quantum_provider = None, backpressure = Reject, backpressure_by_tenant = Map.empty,
        top_tenants_capacity = 64\<rparr>\<rparr>"

text \<open>\<open>{:02}\<close>.\<close>

definition pad2 :: "nat \<Rightarrow> string" where
  "pad2 n = (let s = dec n in replicate (2 - length s) (digit 0) @ s)"

definition tenant_profiles :: "tenant_profile list" where
  "tenant_profiles =
    map (\<lambda>i. \<lparr>profile_id = 1 + of_nat i, profile_name = ''batch-'' @ pad2 (i + 1), tier = Batch,
              base_kb = 1200 + of_nat i * 30, jitter_kb = 400, submit_every_us = 900 + of_nat i * 20, base_cost = 8\<rparr>) [0..<10] @
    map (\<lambda>i. \<lparr>profile_id = 11 + of_nat i, profile_name = ''etl-'' @ pad2 (i + 1), tier = Etl,
              base_kb = 400 + of_nat i * 15, jitter_kb = 200, submit_every_us = 350 + of_nat i * 10, base_cost = 4\<rparr>) [0..<10] @
    map (\<lambda>i. \<lparr>profile_id = 21 + of_nat i, profile_name = ''api-'' @ pad2 (i + 1), tier = Api,
              base_kb = 60 + of_nat i * 5, jitter_kb = 40, submit_every_us = 180 + of_nat i * 8, base_cost = 1\<rparr>) [0..<10]"

text \<open>The arithmetic of a job is that of \<open>u64\<close>.\<close>

definition pipeline_stage_ms :: "u64 \<Rightarrow> u64 list" where
  "pipeline_stage_ms bytes_kb = [2 + bytes_kb div 200, 3 + bytes_kb div 160, 2 + bytes_kb div 240, 1 + bytes_kb div 300]"

definition job_cost :: "u64 \<Rightarrow> u64 \<Rightarrow> u64" where
  "job_cost base bytes_kb = (let size_cost = bytes_kb div 100 in max (max base size_cost) 1)"

record producer_plan =
  plan_base_kb :: u64
  plan_jitter_kb :: u64
  plan_submit_every_us :: u64
  plan_base_cost :: u64

definition from_profile :: "tenant_profile \<Rightarrow> producer_plan" where
  "from_profile profile =
    \<lparr>plan_base_kb = base_kb profile, plan_jitter_kb = jitter_kb profile,
     plan_submit_every_us = submit_every_us profile, plan_base_cost = base_cost profile\<rparr>"

subsection \<open>The counters by tenant\<close>

definition tenant_index_of :: "tenant_profile list \<Rightarrow> tenant_key \<rightharpoonup> nat" where
  "tenant_index_of ps = map_of (rev (map (\<lambda>(idx, profile). (TenantKey (profile_id profile), idx)) (enumerate 0 ps)))"

definition record_count :: "nat list \<Rightarrow> nat \<Rightarrow> nat list" where
  "record_count xs i = (if i < length xs then xs[i := wrapping_inc (xs ! i)] else xs)"

definition tier_counts :: "tenant_profile list \<Rightarrow> nat list \<Rightarrow> nat \<times> nat \<times> nat" where
  "tier_counts ps counts =
    foldl (\<lambda>(batch, etl, api) (idx, profile).
        let v = (if idx < length counts then counts ! idx else 0)
        in case tier profile of
             Batch \<Rightarrow> ((batch + v) mod 2 ^ 64, etl, api)
           | Etl \<Rightarrow> (batch, (etl + v) mod 2 ^ 64, api)
           | Api \<Rightarrow> (batch, etl, (api + v) mod 2 ^ 64)) (0, 0, 0) (enumerate 0 ps)"

text \<open>The figures of \<open>print_summary\<close>.\<close>

definition busy_pct :: "nat \<Rightarrow> u64 \<Rightarrow> nat" where
  "busy_pct busy_ns run_seconds =
    (let elapsed_ns = unat run_seconds * 1000000000 in if 0 < elapsed_ns then busy_ns * 100 div elapsed_ns else 0)"

definition top_served :: "tenant_profile list \<Rightarrow> nat list \<Rightarrow> (tenant_profile \<times> nat) list" where
  "top_served ps counts =
    take 8 (sort_key (\<lambda>(p, n). - int n) (map (\<lambda>(idx, n). (ps ! idx, n)) (enumerate 0 counts)))"

subsection \<open>The threads\<close>

datatype pipe_producer_at =
    PipeTop
  | PipeProduced "pipeline_job task"
  | PipeSubmit "pipeline_job task"
  | PipeRejected
  | PipeProducerLeft

record pipe_producer =
  pp_tenant :: tenant_key
  pp_index :: nat
  pp_plan :: producer_plan
  pp_counter :: u64
  pp_at :: pipe_producer_at

datatype pipe_worker_at =
    PipeWorkerTop
  | PipeDequeue "pipeline_job consumer"
  | PipeGot tenant_key "pipeline_job task"
  | PipeRunning tenant_key instant
  | PipeRan tenant_key
  | PipeWorkerLeft

text \<open>\<open>pipe_refused\<close> is for the statements only: the enqueues answered \<open>Closed\<close>.\<close>

record pipeline =
  pipe_sched :: "pipeline_job sched"
  pipe_running :: bool
  pipe_produced :: nat
  pipe_dropped :: nat
  busy_ns_total :: nat
  tenant_index :: "tenant_key \<rightharpoonup> nat"
  produced_by_tenant :: "nat list"
  served_by_tenant :: "nat list"
  pipe_producers :: "pipe_producer list"
  pipe_workers :: "pipe_worker_at list"
  pipe_refused :: nat

text \<open>\<open>ExampleState::new\<close> and the threads; a missing index would be a panic.\<close>

definition pipe_start :: "example_conf \<Rightarrow> tenant_profile list \<Rightarrow> pipeline" where
  "pipe_start cfg ps =
    (let ti = tenant_index_of ps
     in \<lparr>pipe_sched = scheduler_new (example_scheduler cfg), pipe_running = True, pipe_produced = 0, pipe_dropped = 0,
         busy_ns_total = 0, tenant_index = ti, produced_by_tenant = replicate (length ps) 0,
         served_by_tenant = replicate (length ps) 0,
         pipe_producers = map (\<lambda>p. \<lparr>pp_tenant = TenantKey (profile_id p), pp_index = the (ti (TenantKey (profile_id p))),
           pp_plan = from_profile p, pp_counter = 0, pp_at = PipeTop\<rparr>) ps,
         pipe_workers = replicate (unat (example_workers cfg)) PipeWorkerTop, pipe_refused = 0\<rparr>)"

text \<open>The job of an iteration.\<close>

definition plan_job :: "producer_plan \<Rightarrow> u64 \<Rightarrow> instant \<Rightarrow> pipeline_job task" where
  "plan_job plan counter now =
    (let bytes_kb = plan_base_kb plan + counter mod (plan_jitter_kb plan + 1)
     in \<lparr>payload = \<lparr>stage_ms = pipeline_stage_ms bytes_kb\<rparr>, enqueue_ts = now, deadline = None, prio = Normal,
         cost = job_cost (plan_base_cost plan) bytes_kb\<rparr>)"

fun pipe_producer_turn :: "config \<Rightarrow> clock \<Rightarrow> pipe_producer_at \<Rightarrow> pipe_producer \<Rightarrow> pipeline \<Rightarrow> pipe_producer \<times> pipeline" where
  "pipe_producer_turn C clk PipeTop pp x =
    (if pipe_running x then
       let counter = pp_counter pp + 1; (now, g) = read_clock clk (shared (pipe_sched x))
       in (pp\<lparr>pp_counter := counter, pp_at := PipeProduced (plan_job (pp_plan pp) counter now)\<rparr>,
           x\<lparr>pipe_sched := (pipe_sched x)\<lparr>shared := g\<rparr>, pipe_produced := wrapping_inc (pipe_produced x)\<rparr>)
     else (pp\<lparr>pp_at := PipeProducerLeft\<rparr>, x))"
| "pipe_producer_turn C clk (PipeProduced task) pp x =
    (pp\<lparr>pp_at := PipeSubmit task\<rparr>, x\<lparr>produced_by_tenant := record_count (produced_by_tenant x) (pp_index pp)\<rparr>)"
| "pipe_producer_turn C clk (PipeSubmit task) pp x =
    (case enqueue_now C clk (pp_tenant pp) task (pipe_sched x) of
       None \<Rightarrow> (pp, x)
     | Some (Enqueued h, s) \<Rightarrow> (pp\<lparr>pp_at := PipeTop\<rparr>, x\<lparr>pipe_sched := s\<rparr>)
     | Some (Rejected r, s) \<Rightarrow> (pp\<lparr>pp_at := PipeRejected\<rparr>, x\<lparr>pipe_sched := s\<rparr>)
     | Some (EnqueueClosed, s) \<Rightarrow> (pp\<lparr>pp_at := PipeTop\<rparr>, x\<lparr>pipe_sched := s, pipe_refused := Suc (pipe_refused x)\<rparr>))"
| "pipe_producer_turn C clk PipeRejected pp x =
    (pp\<lparr>pp_at := PipeTop\<rparr>, x\<lparr>pipe_dropped := wrapping_inc (pipe_dropped x)\<rparr>)"
| "pipe_producer_turn C clk PipeProducerLeft pp x = (pp, x)"

fun pipe_worker_turn :: "clock \<Rightarrow> pipe_worker_at \<Rightarrow> pipeline \<Rightarrow> pipe_worker_at \<times> pipeline" where
  "pipe_worker_turn clk PipeWorkerTop x = (if pipe_running x then PipeDequeue (Begin 0) else PipeWorkerLeft, x)"
| "pipe_worker_turn clk (PipeDequeue c) x =
    (let (c', s) = dequeue_blocking clk c (pipe_sched x)
     in (case c' of
           Returned (DequeuedTask t task) \<Rightarrow> PipeGot t task
         | Returned Closed \<Rightarrow> PipeWorkerLeft
         | Returned Empty \<Rightarrow> PipeWorkerTop
         | _ \<Rightarrow> PipeDequeue c', x\<lparr>pipe_sched := s\<rparr>))"
| "pipe_worker_turn clk (PipeGot t task) x =
    (let (start, g) = read_clock clk (shared (pipe_sched x))
     in (PipeRunning t start, x\<lparr>pipe_sched := (pipe_sched x)\<lparr>shared := g\<rparr>\<rparr>))"
| "pipe_worker_turn clk (PipeRunning t start) x =
    (let (now, g) = read_clock clk (shared (pipe_sched x)); elapsed_ns = min (now - start) u64_max
     in (PipeRan t,
         x\<lparr>pipe_sched := (pipe_sched x)\<lparr>shared := g\<rparr>, busy_ns_total := (busy_ns_total x + elapsed_ns) mod 2 ^ 64\<rparr>))"
| "pipe_worker_turn clk (PipeRan t) x =
    (PipeWorkerTop,
     case tenant_index x t of
       Some i \<Rightarrow> x\<lparr>served_by_tenant := record_count (served_by_tenant x) i\<rparr>
     | None \<Rightarrow> x)"
| "pipe_worker_turn clk PipeWorkerLeft x = (PipeWorkerLeft, x)"

text \<open>\<open>ExampleState::stop\<close> is the last two.\<close>

datatype pipe_event = PipeProducer nat | PipeWorker nat | PipeStop | PipeClose

fun pipe_step :: "config \<Rightarrow> clock \<Rightarrow> pipe_event \<Rightarrow> pipeline \<Rightarrow> pipeline" where
  "pipe_step C clk (PipeProducer i) x =
    (if i < length (pipe_producers x) then
       let pp = pipe_producers x ! i; (pp', x') = pipe_producer_turn C clk (pp_at pp) pp x
       in x'\<lparr>pipe_producers := (pipe_producers x')[i := pp']\<rparr>
     else x)"
| "pipe_step C clk (PipeWorker i) x =
    (if i < length (pipe_workers x) then
       let (w, x') = pipe_worker_turn clk (pipe_workers x ! i) x
       in x'\<lparr>pipe_workers := (pipe_workers x')[i := w]\<rparr>
     else x)"
| "pipe_step C clk PipeStop x = x\<lparr>pipe_running := False\<rparr>"
| "pipe_step C clk PipeClose x = x\<lparr>pipe_sched := close (pipe_sched x)\<rparr>"

definition pipe_run :: "clock \<Rightarrow> pipe_event list \<Rightarrow> pipeline" where
  "pipe_run clk evs = fold (pipe_step (example_scheduler example_config) clk) evs (pipe_start example_config tenant_profiles)"

subsection \<open>Counting by tenant\<close>

lemma record_count_length [simp]: "length (record_count xs i) = length xs"
  by (simp add: record_count_def)

lemma record_count_sum:
  assumes "i < length xs" and "sum_list xs < u64_max"
  shows "sum_list (record_count xs i) = Suc (sum_list xs)"
proof -
  have "xs ! i \<le> sum_list xs" using assms(1) by (rule elem_le_sum_list)
  with assms show ?thesis by (simp add: record_count_def wrapping_inc_exact sum_list_update)
qed

lemma tenant_index_of_some:
  assumes "t \<in> (\<lambda>p. TenantKey (profile_id p)) ` set ps"
  shows "\<exists>i < length ps. tenant_index_of ps t = Some i"
proof -
  let ?kv = "rev (map (\<lambda>(idx, profile). (TenantKey (profile_id profile), idx)) (enumerate 0 ps))"
  from assms obtain j where "j < length ps" "t = TenantKey (profile_id (ps ! j))" by (auto simp: in_set_conv_nth)
  then have "(t, j) \<in> set ?kv" by (force simp: in_set_enumerate_eq)
  then obtain i where i: "map_of ?kv t = Some i" by (metis map_of_eq_None_iff not_None_eq fst_conv image_eqI)
  from map_of_SomeD [OF this] have "i < length ps" by (auto simp: in_set_enumerate_eq)
  with i show ?thesis by (auto simp: tenant_index_of_def)
qed

lemma tier_counts_prefix:
  assumes "sum_list counts < 2 ^ 64"
  shows "case tier_counts ps counts of (batch, etl, api) \<Rightarrow> batch + etl + api = sum_list (take (length ps) counts)"
proof (induction ps rule: rev_induct)
  case Nil
  show ?case by (simp add: tier_counts_def)
next
  case (snoc p ps)
  obtain batch etl api where t: "tier_counts ps counts = (batch, etl, api)" by (cases "tier_counts ps counts")
  let ?n = "length ps"
  define v where "v = (if ?n < length counts then counts ! ?n else 0)"
  have v: "sum_list (take (Suc ?n) counts) = sum_list (take ?n counts) + v"
    by (cases "?n < length counts") (simp_all add: take_Suc_conv_app_nth v_def)
  have "sum_list (take (Suc ?n) counts) \<le> sum_list counts"
    using sum_list_append [of "take (Suc ?n) counts" "drop (Suc ?n) counts"] by simp
  with snoc t v assms have lt: "batch + etl + api + v < 2 ^ 64" by simp
  have "tier_counts (ps @ [p]) counts = (case tier p of
      Batch \<Rightarrow> ((batch + v) mod 2 ^ 64, etl, api) | Etl \<Rightarrow> (batch, (etl + v) mod 2 ^ 64, api)
    | Api \<Rightarrow> (batch, etl, (api + v) mod 2 ^ 64))"
    using t by (simp add: tier_counts_def enumerate_append_eq Let_def v_def split: tenant_tier.split)
  moreover from lt have "(batch + v) mod 2 ^ 64 = batch + v" "(etl + v) mod 2 ^ 64 = etl + v" "(api + v) mod 2 ^ 64 = api + v"
    by (simp_all only: mod_less)
  ultimately show ?case using snoc t v by (cases "tier p") simp_all
qed

text \<open>The tenants listed in the summary: in order, and none left out served more than one listed.\<close>

lemma top_served_best:
  assumes "length ps = length counts" and "(p, n) \<in> set (zip ps counts)" and "(p, n) \<notin> set (top_served ps counts)"
  shows "sorted_wrt (\<lambda>a b. snd b \<le> snd a) (top_served ps counts) \<and> (\<forall>x \<in> set (top_served ps counts). n \<le> snd x)"
proof -
  let ?xs = "map (\<lambda>(idx, n). (ps ! idx, n)) (enumerate 0 counts)" and ?f = "\<lambda>(p :: tenant_profile, n). - int n"
  have "?xs = zip ps counts" using assms(1) by (auto intro!: nth_equalityI simp: nth_enumerate_eq)
  define ys where "ys = sort_key ?f ?xs"
  have s: "sorted_wrt (\<lambda>a b. snd b \<le> snd a) ys"
    using sorted_sort_key [of ?f ?xs] by (auto simp: ys_def sorted_map split_beta elim!: sorted_wrt_mono_rel [rotated])
  have tk: "top_served ps counts = take 8 ys" by (simp add: top_served_def ys_def)
  from s have "sorted_wrt (\<lambda>a b. snd b \<le> snd a) (take 8 ys @ drop 8 ys)" by simp
  then have o: "sorted_wrt (\<lambda>a b. snd b \<le> snd a) (take 8 ys)" "\<forall>x \<in> set (take 8 ys). \<forall>y \<in> set (drop 8 ys). snd y \<le> snd x"
    unfolding sorted_wrt_append by blast+
  have "(p, n) \<in> set ys" using assms(2) \<open>?xs = zip ps counts\<close> unfolding ys_def set_sort by metis
  then have "(p, n) \<in> set (take 8 ys) \<union> set (drop 8 ys)" by (metis append_take_drop_id set_append)
  with assms(3) tk have "(p, n) \<in> set (drop 8 ys)" by auto
  with o show ?thesis unfolding tk by fastforce
qed

subsection \<open>The jobs\<close>

definition mild_plan :: "producer_plan \<Rightarrow> bool" where
  "mild_plan plan \<longleftrightarrow> unat (plan_base_kb plan) + unat (plan_jitter_kb plan) \<le> 1899 \<and> unat (plan_base_cost plan) \<le> 18"

lemma plan_job_cost:
  assumes "mild_plan plan"
  shows "unat (cost (plan_job plan counter now)) \<le> 18"
proof -
  let ?j = "plan_jitter_kb plan" and ?b = "plan_base_kb plan"
  have j: "unat (?j + 1) = Suc (unat ?j)"
    using assms by (simp add: mild_plan_def unat_word_ariths)
  then have m: "unat (counter mod (?j + 1)) \<le> unat ?j"
    by (simp add: unat_mod_distrib)
  have "unat (?b + counter mod (?j + 1)) \<le> 1899"
    using assms m by (simp add: mild_plan_def unat_word_ariths)
  then have "unat ((?b + counter mod (?j + 1)) div 100) \<le> 18"
    by (simp add: unat_div_distrib)
  with assms show ?thesis
    by (auto simp: plan_job_def job_cost_def Let_def mild_plan_def max_def)
qed

lemma plan_job_deadline [simp]: "deadline (plan_job plan counter now) = None"
  by (simp add: plan_job_def Let_def)

lemma main_plans: "p \<in> set tenant_profiles \<Longrightarrow> mild_plan (from_profile p)"
  by (auto simp: tenant_profiles_def from_profile_def mild_plan_def upt_rec)

subsection \<open>The invariant of a run\<close>

abbreviation main_tenants :: "tenant_key set" where
  "main_tenants \<equiv> (\<lambda>p. TenantKey (profile_id p)) ` set tenant_profiles"

definition pipe_task :: "tenant_key \<Rightarrow> 'a task \<Rightarrow> bool" where
  "pipe_task t task \<longleftrightarrow> t \<in> main_tenants \<and> unat (cost task) \<le> 18 \<and> deadline task = None"

fun pipe_undecided :: "pipe_producer_at \<Rightarrow> bool" where
  "pipe_undecided (PipeProduced task) = True"
| "pipe_undecided (PipeSubmit task) = True"
| "pipe_undecided a = False"

fun pipe_unrecorded :: "pipe_producer_at \<Rightarrow> bool" where
  "pipe_unrecorded (PipeProduced task) = True"
| "pipe_unrecorded a = False"

fun pipe_was_rejected :: "pipe_producer_at \<Rightarrow> bool" where
  "pipe_was_rejected PipeRejected = True"
| "pipe_was_rejected a = False"

fun pipe_working :: "pipe_worker_at \<Rightarrow> bool" where
  "pipe_working (PipeGot t task) = True"
| "pipe_working (PipeRunning t start) = True"
| "pipe_working (PipeRan t) = True"
| "pipe_working w = False"

fun pipe_worker_ok :: "pipe_worker_at \<Rightarrow> bool" where
  "pipe_worker_ok (PipeDequeue c) \<longleftrightarrow> (\<forall>r. c \<noteq> Returned r)"
| "pipe_worker_ok (PipeGot t task) \<longleftrightarrow> t \<in> main_tenants"
| "pipe_worker_ok (PipeRunning t start) \<longleftrightarrow> t \<in> main_tenants"
| "pipe_worker_ok (PipeRan t) \<longleftrightarrow> t \<in> main_tenants"
| "pipe_worker_ok w \<longleftrightarrow> True"

definition pipe_producer_ok :: "pipe_producer \<Rightarrow> bool" where
  "pipe_producer_ok pp \<longleftrightarrow> pp_tenant pp \<in> main_tenants \<and> pp_index pp < length tenant_profiles \<and>
     mild_plan (pp_plan pp) \<and>
     (\<forall>task. pp_at pp = PipeProduced task \<or> pp_at pp = PipeSubmit task \<longrightarrow> pipe_task (pp_tenant pp) task)"

definition pipe_ok :: "clock \<Rightarrow> nat \<Rightarrow> pipeline_job answer list \<Rightarrow> pipeline \<Rightarrow> bool" where
  "pipe_ok clk n os x \<longleftrightarrow> traced pipe_task (example_scheduler example_config) clk n os (pipe_sched x) \<and> pipe_produced x \<le> n \<and>
     pipe_produced x = count_out is_accepted os + dropped (stats (shared (pipe_sched x))) + pipe_refused x +
       number (pipe_undecided \<circ> pp_at) (pipe_producers x) \<and>
     pipe_produced x = sum_list (produced_by_tenant x) + number (pipe_unrecorded \<circ> pp_at) (pipe_producers x) \<and>
     dropped (stats (shared (pipe_sched x))) = pipe_dropped x + number (pipe_was_rejected \<circ> pp_at) (pipe_producers x) \<and>
     count_out is_delivered os = sum_list (served_by_tenant x) + number pipe_working (pipe_workers x) \<and>
     length (produced_by_tenant x) = length tenant_profiles \<and> length (served_by_tenant x) = length tenant_profiles \<and>
     tenant_index x = tenant_index_of tenant_profiles \<and>
     list_all pipe_producer_ok (pipe_producers x) \<and> list_all pipe_worker_ok (pipe_workers x)"

lemma pipe_rejects: "backpressure_for (example_scheduler example_config) t = Reject"
  by (simp add: backpressure_for_def example_config_def)

lemma pipe_start_ok: "pipe_ok clk 0 [] (pipe_start example_config tenant_profiles)"
proof -
  have n: "number (P \<circ> pp_at) (map f ps) = 0" if "\<And>p. \<not> P (pp_at (f p))" for P f and ps :: "tenant_profile list"
    using that by (induction ps) simp_all
  have "pipe_producer_ok \<lparr>pp_tenant = TenantKey (profile_id p), pp_index = the (tenant_index_of tenant_profiles (TenantKey (profile_id p))),
      pp_plan = from_profile p, pp_counter = 0, pp_at = PipeTop\<rparr>" if "p \<in> set tenant_profiles" for p
    using that main_plans [OF that] tenant_index_of_some [of "TenantKey (profile_id p)" tenant_profiles]
    by (auto simp: pipe_producer_ok_def)
  moreover have "number (pipe_undecided \<circ> pp_at) (pipe_producers (pipe_start example_config tenant_profiles)) = 0"
    "number (pipe_unrecorded \<circ> pp_at) (pipe_producers (pipe_start example_config tenant_profiles)) = 0"
    "number (pipe_was_rejected \<circ> pp_at) (pipe_producers (pipe_start example_config tenant_profiles)) = 0"
    by (simp_all add: pipe_start_def Let_def n)
  moreover have "dropped (stats (shared (scheduler_new (example_scheduler example_config)))) = 0"
    by (simp add: scheduler_new_def stats_counters_new_def Let_def)
  ultimately show ?thesis
    by (simp add: pipe_ok_def pipe_start_def Let_def traced_new count_out_def number_replicate list_all_iff sum_list_replicate)
qed

lemma pipe_producer_step:
  assumes ok: "pipe_ok clk n os x" and n: "n < u64_max" and i: "i < length (pipe_producers x)"
  shows "\<exists>os'. pipe_ok clk (Suc n) os' (pipe_step (example_scheduler example_config) clk (PipeProducer i) x)"
proof -
  let ?C = "example_scheduler example_config" and ?pp = "pipe_producers x ! i"
  note u = number_update [OF i, of "pipe_undecided \<circ> pp_at"] number_update [OF i, of "pipe_unrecorded \<circ> pp_at"]
    number_update [OF i, of "pipe_was_rejected \<circ> pp_at"]
  from ok have tr: "traced pipe_task ?C clk n os (pipe_sched x)" by (simp add: pipe_ok_def)
  have later: "traced pipe_task ?C clk (Suc n) os (pipe_sched x)" by (rule traced_mono [OF tr]) simp
  from ok i have pp: "pipe_producer_ok ?pp" by (simp add: pipe_ok_def list_all_length)
  have all: "list_all pipe_producer_ok ((pipe_producers x)[i := pp'])" if "pipe_producer_ok pp'" for pp'
    using ok that by (auto simp: pipe_ok_def list_all_iff dest!: set_update_subset_insert [THEN subsetD])
  show ?thesis
  proof (cases "pp_at ?pp")
    case PipeTop
    show ?thesis
    proof (cases "pipe_running x")
      case False
      let ?p' = "?pp\<lparr>pp_at := PipeProducerLeft\<rparr>"
      have "pipe_producer_ok ?p'" using pp by (simp add: pipe_producer_ok_def)
      with ok later PipeTop False i u [of ?p'] all show ?thesis
        by (intro exI [of _ os]) (simp add: pipe_ok_def Let_def)
    next
      case True
      obtain now g where c: "read_clock clk (shared (pipe_sched x)) = (now, g)" by fastforce
      let ?p' = "?pp\<lparr>pp_counter := pp_counter ?pp + 1, pp_at := PipeProduced (plan_job (pp_plan ?pp) (pp_counter ?pp + 1) now)\<rparr>"
      have "pipe_producer_ok ?p'" using pp plan_job_cost by (auto simp: pipe_producer_ok_def pipe_task_def)
      moreover note traced_clock [OF tr c]
      moreover from this(2) have "dropped (stats g) = dropped (stats (shared (pipe_sched x)))" by (simp add: drops_def)
      moreover have "wrapping_inc (pipe_produced x) = Suc (pipe_produced x)"
        using ok n by (intro wrapping_inc_exact) (simp add: pipe_ok_def)
      ultimately show ?thesis using ok PipeTop True i c u [of ?p'] all [of ?p']
        by (intro exI [of _ "os @ [Done]"]) (simp add: pipe_ok_def Let_def count_out_snoc)
    qed
  next
    case (PipeProduced task)
    let ?p' = "?pp\<lparr>pp_at := PipeSubmit task\<rparr>"
    have p': "pipe_producer_ok ?p'" using pp PipeProduced by (simp add: pipe_producer_ok_def)
    have "sum_list (record_count (produced_by_tenant x) (pp_index ?pp)) = Suc (sum_list (produced_by_tenant x))"
      using ok n pp by (intro record_count_sum) (simp_all add: pipe_ok_def pipe_producer_ok_def)
    with ok later PipeProduced i u [of ?p'] all [OF p'] show ?thesis
      by (intro exI [of _ os]) (simp add: pipe_ok_def Let_def)
  next
    case (PipeSubmit task)
    show ?thesis
    proof (cases "enqueue_now ?C clk (pp_tenant ?pp) task (pipe_sched x)")
      case None
      then show ?thesis by (simp add: enqueue_now_def pipe_rejects)
    next
      case (Some rs)
      obtain r s where rs: "rs = (r, s)" by fastforce
      note d = reject_enqueue_drops [OF pipe_rejects Some [unfolded rs]]
      have tr': "traced pipe_task ?C clk (Suc n) (os @ [enqueue_output r]) s"
        using traced_exec [OF tr, of "EnqueueNow (pp_tenant ?pp) task"] Some rs pp PipeSubmit
        by (simp add: pipe_producer_ok_def)
      have lt: "dropped (stats (shared (pipe_sched x))) < u64_max"
        using ok n by (simp add: pipe_ok_def)
      have a: "pipe_producer_ok (?pp\<lparr>pp_at := PipeTop\<rparr>)" "pipe_producer_ok (?pp\<lparr>pp_at := PipeRejected\<rparr>)"
        using pp by (simp_all add: pipe_producer_ok_def)
      from ok tr' d lt PipeSubmit i Some rs u [of "?pp\<lparr>pp_at := PipeTop\<rparr>"] u [of "?pp\<lparr>pp_at := PipeRejected\<rparr>"] all [OF a(1)] all [OF a(2)]
      show ?thesis
        by (intro exI [of _ "os @ [enqueue_output r]"], cases r)
          (simp_all add: pipe_ok_def Let_def count_out_snoc saturating_add_exact)
    qed
  next
    case PipeRejected
    let ?p' = "?pp\<lparr>pp_at := PipeTop\<rparr>"
    have p': "pipe_producer_ok ?p'" using pp by (simp add: pipe_producer_ok_def)
    have "wrapping_inc (pipe_dropped x) = Suc (pipe_dropped x)"
      using ok n by (intro wrapping_inc_exact) (simp add: pipe_ok_def)
    with ok later PipeRejected i u [of ?p'] all [OF p'] show ?thesis
      by (intro exI [of _ os]) (simp add: pipe_ok_def Let_def)
  next
    case PipeProducerLeft
    with ok later i show ?thesis by (intro exI [of _ os]) (simp add: pipe_ok_def Let_def)
  qed
qed

lemma pipe_worker_step:
  assumes ok: "pipe_ok clk n os x" and n: "n < u64_max" and i: "i < length (pipe_workers x)"
  shows "\<exists>os'. pipe_ok clk (Suc n) os' (pipe_step (example_scheduler example_config) clk (PipeWorker i) x)"
proof -
  let ?C = "example_scheduler example_config" and ?w = "pipe_workers x ! i"
  note u = number_update [OF i, of pipe_working]
  from ok have tr: "traced pipe_task ?C clk n os (pipe_sched x)" by (simp add: pipe_ok_def)
  have later: "traced pipe_task ?C clk (Suc n) os (pipe_sched x)" by (rule traced_mono [OF tr]) simp
  from ok i have w: "pipe_worker_ok ?w" by (simp add: pipe_ok_def list_all_length)
  have all: "list_all pipe_worker_ok ((pipe_workers x)[i := w'])" if "pipe_worker_ok w'" for w'
    using ok that by (auto simp: pipe_ok_def list_all_iff dest!: set_update_subset_insert [THEN subsetD])
  have clock: "\<exists>os'. pipe_ok clk (Suc n) os' (x\<lparr>pipe_sched := (pipe_sched x)\<lparr>shared := g\<rparr>, busy_ns_total := y, pipe_workers := (pipe_workers x)[i := w']\<rparr>)"
    if c: "read_clock clk (shared (pipe_sched x)) = (now, g)" and "pipe_worker_ok w'" "pipe_working w'" "pipe_working ?w" for now g y w'
  proof -
    note c = traced_clock [OF tr c]
    from c(2) have "dropped (stats g) = dropped (stats (shared (pipe_sched x)))" by (simp add: drops_def)
    with ok c(1) that u [of w'] all [of w'] show ?thesis
      by (intro exI [of _ "os @ [Done]"]) (simp add: pipe_ok_def count_out_snoc)
  qed
  show ?thesis
  proof (cases ?w)
    case PipeWorkerTop
    with ok later i u [of "PipeDequeue (Begin 0)"] u [of PipeWorkerLeft] all [of "PipeDequeue (Begin 0)"] all [of PipeWorkerLeft]
    show ?thesis by (intro exI [of _ os]) (simp add: pipe_ok_def)
  next
    case (PipeDequeue c)
    obtain c' s where d: "dequeue_blocking clk c (pipe_sched x) = (c', s)" by fastforce
    from w PipeDequeue have "\<forall>r. c \<noteq> Returned r" by simp
    from traced_dequeue_blocking [OF tr this d] obtain os' where o: "traced pipe_task ?C clk (Suc n) (os @ os') s"
      "count_out is_accepted os' = 0"
      "count_out is_delivered os' = (case c' of Returned (DequeuedTask t task) \<Rightarrow> 1 | _ \<Rightarrow> 0)"
      "\<forall>t task. c' = Returned (DequeuedTask t task) \<longrightarrow> Delivered t task \<in> set os'"
      "drops (shared s) = drops (shared (pipe_sched x))" by blast
    define w' where "w' = (case c' of Returned (DequeuedTask t task) \<Rightarrow> PipeGot t task | Returned Closed \<Rightarrow> PipeWorkerLeft
      | Returned Empty \<Rightarrow> PipeWorkerTop | _ \<Rightarrow> PipeDequeue c')"
    have "t \<in> main_tenants" if "c' = Returned (DequeuedTask t task)" for t task
      using traced_tasks(2) [OF o(1), of t task] o(4) that n by (simp add: pipe_task_def)
    then have "pipe_worker_ok w'" by (auto simp: w'_def split: consumer.split dequeue_result.split)
    moreover have "(if pipe_working w' then 1 else 0) = (case c' of Returned (DequeuedTask t task) \<Rightarrow> 1 | _ \<Rightarrow> (0 :: nat))"
      by (simp add: w'_def split: consumer.split dequeue_result.split)
    moreover from o(5) have "dropped (stats (shared s)) = dropped (stats (shared (pipe_sched x)))" by (simp add: drops_def)
    ultimately show ?thesis using ok o(1-3) PipeDequeue i u [of w'] all [of w'] d
      by (intro exI [of _ "os @ os'"]) (simp add: pipe_ok_def Let_def count_out_append flip: w'_def)
  next
    case (PipeGot t task)
    obtain now g where c: "read_clock clk (shared (pipe_sched x)) = (now, g)" by fastforce
    from clock [OF c, of "PipeRunning t now" "busy_ns_total x"] PipeGot w i c show ?thesis by simp
  next
    case (PipeRunning t start)
    obtain now g where c: "read_clock clk (shared (pipe_sched x)) = (now, g)" by fastforce
    from clock [OF c, of "PipeRan t"] PipeRunning w i c show ?thesis by simp
  next
    case (PipeRan t)
    with w obtain j where j: "j < length tenant_profiles" "tenant_index_of tenant_profiles t = Some j"
      using tenant_index_of_some [of t tenant_profiles] by auto
    have "count_out is_delivered os \<le> length os" by (simp add: count_out_def)
    moreover from tr have "length os \<le> n" by (rule traced_length)
    ultimately have "sum_list (served_by_tenant x) < u64_max" using ok n by (simp add: pipe_ok_def)
    then have "sum_list (record_count (served_by_tenant x) j) = Suc (sum_list (served_by_tenant x))"
      using ok j by (intro record_count_sum) (simp_all add: pipe_ok_def)
    with ok later PipeRan i j u [of PipeWorkerTop] all [of PipeWorkerTop] show ?thesis
      by (intro exI [of _ os]) (simp add: pipe_ok_def)
  next
    case PipeWorkerLeft
    with ok later i u [of PipeWorkerLeft] all [of PipeWorkerLeft] show ?thesis by (intro exI [of _ os]) (simp add: pipe_ok_def)
  qed
qed

lemma pipe_step_ok:
  assumes ok: "pipe_ok clk n os x" and n: "n < u64_max"
  shows "\<exists>os'. pipe_ok clk (Suc n) os' (pipe_step (example_scheduler example_config) clk ev x)"
proof -
  let ?C = "example_scheduler example_config"
  from ok have tr: "traced pipe_task ?C clk n os (pipe_sched x)" by (simp add: pipe_ok_def)
  have stay: "pipe_ok clk (Suc n) os x" using ok traced_mono [OF tr, of "Suc n"] by (simp add: pipe_ok_def)
  show ?thesis
  proof (cases ev)
    case (PipeProducer i)
    with stay pipe_producer_step [OF ok n, of i] show ?thesis by (cases "i < length (pipe_producers x)") auto
  next
    case (PipeWorker i)
    with stay pipe_worker_step [OF ok n, of i] show ?thesis by (cases "i < length (pipe_workers x)") auto
  next
    case PipeStop
    with stay show ?thesis by (intro exI [of _ os]) (simp add: pipe_ok_def)
  next
    case PipeClose
    let ?s = "close_with_mode Immediate (pipe_sched x)"
    have "drops (shared ?s) = drops (shared (pipe_sched x))"
      by (rule quiet.control_inv(1) [where P = "\<lambda>d. d = drops (shared (pipe_sched x))"]) (rule refl)
    then have "dropped (stats (shared ?s)) = dropped (stats (shared (pipe_sched x)))" by (simp add: drops_def)
    moreover have "traced pipe_task ?C clk (Suc n) (os @ [Done]) ?s"
      by (rule traced_exec [OF tr, of "Close Immediate"]) simp_all
    ultimately show ?thesis using ok PipeClose
      by (intro exI [of _ "os @ [Done]"]) (simp add: pipe_ok_def close_def close_immediate_def count_out_snoc)
  qed
qed

lemma pipe_run_ok: "length evs \<le> u64_max \<Longrightarrow> \<exists>os. pipe_ok clk (length evs) os (pipe_run clk evs)"
proof (induction evs rule: rev_induct)
  case Nil
  show ?case using pipe_start_ok by (auto simp: pipe_run_def)
next
  case (snoc ev evs)
  then obtain os where "pipe_ok clk (length evs) os (pipe_run clk evs)" by auto
  from pipe_step_ok [OF this, of ev] snoc.prems show ?case by (simp add: pipe_run_def)
qed

text \<open>
  C37: In any run of the example program its counters balance, under any schedule of its threads:
  every job produced was accepted, dropped, refused by the closed scheduler or is still with its
  producer; the counts by tenant add up to the totals, on the producing side and on the serving
  side, and the three tiers of the log line add up to the jobs served, none lost to a missing
  index. While a job is pending, a worker gets one within 19 calls of \<open>try_dequeue\<close>, the
  largest cost of a job being 18.
\<close>

theorem pipeline_accounts:
  assumes "length evs \<le> u64_max" and "pipe_run clk evs = x" and "pipe_sched x = s" and "stats (shared s) = c"
    and "tier_counts tenant_profiles (served_by_tenant x) = (batch, etl, api)"
  shows "pipe_produced x = enqueued c + dropped c + pipe_refused x + number (pipe_undecided \<circ> pp_at) (pipe_producers x) \<and>
    pipe_produced x = sum_list (produced_by_tenant x) + number (pipe_unrecorded \<circ> pp_at) (pipe_producers x) \<and>
    dropped c = pipe_dropped x + number (pipe_was_rejected \<circ> pp_at) (pipe_producers x) \<and>
    dequeued c = batch + etl + api + number pipe_working (pipe_workers x) \<and>
    (pending_ids (shared s) \<noteq> {} \<and> shutdown_state (shared s) \<noteq> 2 \<longrightarrow>
       (\<exists>t task s'. polls 19 clk s = (DequeuedTask t task, s')))"
proof -
  let ?C = "example_scheduler example_config"
  from pipe_run_ok [OF assms(1), of clk] assms(2) obtain os where ok: "pipe_ok clk (length evs) os x" by auto
  then have tr: "traced pipe_task ?C clk (length evs) os s" using assms(3) by (simp add: pipe_ok_def)
  note b = traced_books [OF tr assms(1)]
  from b(2) assms(4) have e: "enqueued c = count_out is_accepted os" "dequeued c = count_out is_delivered os"
    by (auto simp: books_def)
  have "count_out is_delivered os \<le> length evs" using traced_length [OF tr] by (meson count_out_le order_trans)
  with ok have "sum_list (served_by_tenant x) \<le> length evs" by (simp add: pipe_ok_def)
  with assms(1) have "sum_list (served_by_tenant x) < 2 ^ 64" by simp
  from tier_counts_prefix [OF this, of tenant_profiles] assms(5) ok
  have t: "batch + etl + api = sum_list (served_by_tenant x)" by (simp add: pipe_ok_def)
  have m: "mild_config 5 ?C" by (simp add: mild_config_def mild_rates_def example_config_def)
  have p: "\<exists>t task s'. polls 19 clk s = (DequeuedTask t task, s')" if "pending_ids (shared s) \<noteq> {}" "shutdown_state (shared s) \<noteq> 2"
  proof -
    from that(1) obtain j where "j \<in> pending_ids (shared s)" by blast
    moreover from b(1) have "ledger s" by (simp add: sched_ok_def)
    ultimately obtain t p where "j \<in> set (ids (sched_queue s t p))" unfolding ledger_def by blast
    with \<open>j \<in> pending_ids (shared s)\<close> obtain e
      where q: "e \<in> set (sched_queue s t p)" "entry_id e \<in> pending_ids (shared s)" by auto
    have "deadline (entry_task e) = None" using traced_tasks(1) [OF tr assms(1) q(1)] by (simp add: pipe_task_def)
    note find = traced_polls [OF tr assms(1) m _ _ q this that(2), of 18]
    have "Suc 18 = 19" by simp
    from find [unfolded this] show ?thesis unfolding pipe_task_def by simp
  qed
  from ok assms(3,4) e t p show ?thesis by (simp add: pipe_ok_def)
qed

theorem pipeline_accounts_witness:
  "\<exists>x. pipe_run demo_clock [PipeProducer 20, PipeProducer 20, PipeProducer 20, PipeWorker 1, PipeWorker 1, PipeWorker 1,
      PipeWorker 1, PipeWorker 1, PipeWorker 1, PipeWorker 1, PipeWorker 1] = x \<and>
    pipe_produced x = 1 \<and> sum_list (produced_by_tenant x) = 1 \<and> dequeued (stats (shared (pipe_sched x))) = 1"
proof -
  let ?evs = "[PipeProducer 20, PipeProducer 20, PipeProducer 20, PipeWorker 1, PipeWorker 1, PipeWorker 1,
      PipeWorker 1, PipeWorker 1, PipeWorker 1, PipeWorker 1, PipeWorker 1]"
  define x where "x = pipe_run demo_clock ?evs"
  obtain a b c where t: "tier_counts tenant_profiles (served_by_tenant x) = (a, b, c)"
    by (cases "tier_counts tenant_profiles (served_by_tenant x)")
  have v: "pipe_produced x = 1" "dequeued (stats (shared (pipe_sched x))) = 1"
    by (simp_all add: x_def pipe_run_def pipe_start_def tenant_profiles_def from_profile_def example_config_def
        tenant_index_of_def plan_job_def job_cost_def record_count_def eval signal_current_def
        DEQUEUE_BLOCKING_BACKOFF_SPINS_def upt_rec enumerate_eq_zip)
  have "number (pipe_unrecorded \<circ> pp_at) (pipe_producers x) = 0"
    by (simp add: x_def pipe_run_def pipe_start_def tenant_profiles_def from_profile_def example_config_def
        tenant_index_of_def plan_job_def job_cost_def record_count_def eval signal_current_def
        DEQUEUE_BLOCKING_BACKOFF_SPINS_def upt_rec enumerate_eq_zip)
  with v pipeline_accounts [OF _ x_def [symmetric] refl refl t] show ?thesis by (intro exI [of _ x]) (simp add: x_def)
qed

end
