(* ===== verification/Requests.thy ===== *)
theory Requests
  imports Traces Parse Tower
begin

text \<open>
  The web programs of \<open>firq-examples\<close>: how \<open>axum_simple.rs\<close>, \<open>axum_api.rs\<close> and \<open>actix_web.rs\<close> find the
  tenant of a request in its headers, what they answer, and the handlers of the first and the
  third, which put a permit into the scheduler and wait for one to come out. The web frameworks
  are not modelled: a request is the text of its headers, a handler a state machine that the
  runtime drives.
\<close>

subsection \<open>Headers\<close>

text \<open>
  The first value of a header, if there is one and it is visible text.
\<close>

type_synonym headers = "string \<Rightarrow> string option"

definition extract_tenant :: "headers \<Rightarrow> tenant_key" where
  "extract_tenant h =
    (case Option.bind (h ''X-Tenant-ID'') parse_u64 of Some v \<Rightarrow> TenantKey v | None \<Rightarrow> TenantKey 0)"

definition actix_tenant_from_request :: "headers \<Rightarrow> tenant_key" where
  "actix_tenant_from_request h =
    (case map_option TenantKey (Option.bind (h ''X-Tenant-ID'') parse_u64) of Some t \<Rightarrow> t | None \<Rightarrow> TenantKey 0)"

definition parse_simulated_claim :: "string \<Rightarrow> u64 option" where
  "parse_simulated_claim auth_header =
    Option.bind (strip_prefix ''Bearer '' auth_header) (\<lambda>token.
      Option.bind (case strip_prefix ''tenant:'' token of Some claim \<Rightarrow> Some claim | None \<Rightarrow> strip_prefix ''tid:'' token)
        parse_u64)"

definition tenant_from_request :: "headers \<Rightarrow> tenant_key" where
  "tenant_from_request h =
    (case Option.bind (h ''X-Tenant-ID'') parse_u64 of
       Some tenant \<Rightarrow> TenantKey tenant
     | None \<Rightarrow>
         (case Option.bind (h ''Authorization'') parse_simulated_claim of
            Some tenant \<Rightarrow> TenantKey tenant
          | None \<Rightarrow> TenantKey 0))"

subsection \<open>The layer of \<open>axum_api\<close>\<close>

definition deadline_from_request :: "instant \<Rightarrow> headers \<Rightarrow> instant option" where
  "deadline_from_request now h =
    map_option (\<lambda>ms. now + unat ms * 1000000) (Option.bind (h ''X-Deadline-Ms'') parse_u64)"

fun api_rejection_mapper :: "reject_reason \<Rightarrow> firq_http_rejection" where
  "api_rejection_mapper TenantFull =
    \<lparr>http_status = 429, error_code = ''tenant_full'', error_message = ''tenant queue saturated'', reject_cause = TenantFull\<rparr>"
| "api_rejection_mapper GlobalFull =
    \<lparr>http_status = 503, error_code = ''global_full'', error_message = ''service queue saturated'', reject_cause = GlobalFull\<rparr>"
| "api_rejection_mapper TimedOut =
    \<lparr>http_status = 503, error_code = ''timeout'', error_message = ''request timed out waiting for scheduler'',
     reject_cause = TimedOut\<rparr>"

text \<open>The builder chain; \<open>now\<close> is the time at which the extractor sees a request.\<close>

definition api_layer :: "('q \<Rightarrow> headers option) \<Rightarrow> instant \<Rightarrow> 'q firq" where
  "api_layer downcast now =
    with_rejection_mapper api_rejection_mapper
     (with_deadline_extractor downcast (deadline_from_request now)
      (with_in_flight_limit 128 (with_quantum 10 (with_max_per_tenant 100 (with_max_global 1000 (with_shards 4 firq_new))))))"

text \<open>The text of \<open>AppError\<close>; the inner services are infallible, so \<open>Service\<close> has no text.\<close>

fun app_error_text :: "'e firq_error \<Rightarrow> string option" where
  "app_error_text (HttpRejected r) = Some (error_message r @ '' ('' @ error_code r @ '')'')"
| "app_error_text FirqClosed = Some ''Service unavailable''"
| "app_error_text PermitError = Some ''Request expired''"
| "app_error_text (Service e) = None"

text \<open>The status and the text of the response to a failed request.\<close>

definition api_error_response :: "'e firq_error \<Rightarrow> (nat \<times> string) option" where
  "api_error_response e = map_option (\<lambda>m. (500, m)) (app_error_text e)"

subsection \<open>The figures of the scheduler\<close>

text \<open>
  The body of the statistics route; that of \<open>axum_api\<close> has the same fields but the last.
\<close>

record service_stats =
  rep_enqueued :: nat
  rep_dequeued :: nat
  rep_dropped :: nat
  rep_expired :: nat
  rep_queue_len :: nat
  avg_queue_time_ms :: nat
  p95_queue_time_ms :: nat
  p99_queue_time_ms :: nat
  rep_top_tenants :: "(nat \<times> nat) list"

definition stats_report :: "scheduler_stats \<Rightarrow> service_stats" where
  "stats_report st =
    \<lparr>rep_enqueued = st_enqueued st, rep_dequeued = st_dequeued st, rep_dropped = st_dropped st,
     rep_expired = st_expired st, rep_queue_len = st_queue_len_estimate st,
     avg_queue_time_ms =
       (if 0 < st_queue_time_samples st then st_queue_time_sum_ns st div st_queue_time_samples st div 1000000 else 0),
     p95_queue_time_ms = st_queue_time_p95_ns st div 1000000, p99_queue_time_ms = st_queue_time_p99_ns st div 1000000,
     rep_top_tenants = map (\<lambda>t. (unat (as_u64 (tc_tenant t)), tc_count t)) (st_top_tenants st)\<rparr>"

text \<open>Dividing twice loses nothing: the average is the mean in milliseconds, rounded down.\<close>

lemma average_exact:
  assumes "0 < st_queue_time_samples st"
  shows "avg_queue_time_ms (stats_report st) =
    nat \<lfloor>real (st_queue_time_sum_ns st) / real (st_queue_time_samples st) / 1000000\<rfloor>"
proof -
  have "avg_queue_time_ms (stats_report st) = st_queue_time_sum_ns st div (st_queue_time_samples st * 1000000)"
    using assms by (simp add: stats_report_def div_mult2_eq)
  also have "\<dots> = nat \<lfloor>real (st_queue_time_sum_ns st) / real (st_queue_time_samples st * 1000000)\<rfloor>"
    by (simp only: floor_divide_of_nat_eq nat_int)
  finally show ?thesis by (simp add: divide_divide_eq_left)
qed

subsection \<open>The guarded handlers\<close>

datatype app_error = TooManyRequests | ServiceUnavailable | Internal

fun app_error_status :: "app_error \<Rightarrow> nat" where
  "app_error_status TooManyRequests = 429"
| "app_error_status ServiceUnavailable = 503"
| "app_error_status Internal = 500"

text \<open>
  What \<open>axum_simple\<close> answers after its enqueue, if it answers at once, and after its dequeue;
  the same for \<open>actix_web\<close>.
\<close>

fun simple_enqueued :: "enqueue_result \<Rightarrow> nat option" where
  "simple_enqueued EnqEnqueued = None"
| "simple_enqueued (EnqRejected r) = Some (app_error_status TooManyRequests)"
| "simple_enqueued EnqClosed = Some (app_error_status ServiceUnavailable)"

fun simple_dequeued :: "'a dequeue_result \<Rightarrow> nat" where
  "simple_dequeued (DequeuedTask t task) = 200"
| "simple_dequeued Closed = app_error_status ServiceUnavailable"
| "simple_dequeued Empty = app_error_status Internal"

fun actix_enqueued :: "enqueue_result \<Rightarrow> nat option" where
  "actix_enqueued EnqEnqueued = None"
| "actix_enqueued (EnqRejected r) = Some 429"
| "actix_enqueued EnqClosed = Some 503"

fun actix_dequeued :: "'a dequeue_result \<Rightarrow> nat" where
  "actix_dequeued (DequeuedTask t task) = 200"
| "actix_dequeued Closed = 503"
| "actix_dequeued Empty = 500"

definition simple_config :: config where
  "simple_config =
    \<lparr>cfg_shards = 4, max_global = 100, max_per_tenant = 10, cfg_quantum = 10, quantum_by_tenant = Map.empty,
     cfg_quantum_provider = None, backpressure = Reject, backpressure_by_tenant = Map.empty, top_tenants_capacity = 20\<rparr>"

definition permit_task :: "instant \<Rightarrow> unit task" where
  "permit_task now = \<lparr>payload = (), enqueue_ts = now, deadline = None, prio = Normal, cost = 1\<rparr>"

text \<open>
  A handler: its future not polled yet; waiting for \<open>dequeue_async\<close>, whose thread is in
  \<open>dequeue_blocking\<close>; answered. A client that leaves makes the runtime drop the future: before
  its first poll nothing has happened, later the thread goes on without it.
\<close>

datatype handler =
    HandlerNew
  | HandlerDequeues "unit consumer"
  | HandlerAnswered nat
  | HandlerDetached "unit consumer"
  | HandlerGone

fun handler_turn :: "(enqueue_result \<Rightarrow> nat option) \<Rightarrow> (unit dequeue_result \<Rightarrow> nat) \<Rightarrow> config \<Rightarrow> clock \<Rightarrow> tenant_key \<Rightarrow>
    handler \<Rightarrow> unit sched \<Rightarrow> handler \<times> unit sched" where
  "handler_turn on_enqueue on_dequeue C clk tenant HandlerNew s =
    (let (now, g) = read_clock clk (shared s); s1 = s\<lparr>shared := g\<rparr>
     in case enqueue_now C clk tenant (permit_task now) s1 of
          None \<Rightarrow> (HandlerNew, s)
        | Some (r, s2) \<Rightarrow>
            (case on_enqueue (enqueue_answer r) of
               Some status \<Rightarrow> HandlerAnswered status
             | None \<Rightarrow> HandlerDequeues (Begin 0), s2))"
| "handler_turn on_enqueue on_dequeue C clk tenant (HandlerDequeues c) s =
    (let (c', s') = dequeue_blocking clk c s
     in (case c' of Returned r \<Rightarrow> HandlerAnswered (on_dequeue r) | _ \<Rightarrow> HandlerDequeues c', s'))"
| "handler_turn on_enqueue on_dequeue C clk tenant (HandlerDetached c) s =
    (let (c', s') = dequeue_blocking clk c s
     in (case c' of Returned r \<Rightarrow> HandlerGone | _ \<Rightarrow> HandlerDetached c', s'))"
| "handler_turn on_enqueue on_dequeue C clk tenant h s = (h, s)"

fun handler_dropped :: "handler \<Rightarrow> handler" where
  "handler_dropped HandlerNew = HandlerGone"
| "handler_dropped (HandlerDequeues c) = HandlerDetached c"
| "handler_dropped h = h"

record guarded =
  hs_sched :: "unit sched"
  hs_handlers :: "(tenant_key \<times> handler) list"

datatype guarded_event = RequestArrives tenant_key | HandlerTurn nat | ClientLeaves nat

fun guarded_step :: "(enqueue_result \<Rightarrow> nat option) \<Rightarrow> (unit dequeue_result \<Rightarrow> nat) \<Rightarrow> config \<Rightarrow> clock \<Rightarrow> guarded_event \<Rightarrow>
    guarded \<Rightarrow> guarded" where
  "guarded_step on_enqueue on_dequeue C clk (RequestArrives t) x = x\<lparr>hs_handlers := hs_handlers x @ [(t, HandlerNew)]\<rparr>"
| "guarded_step on_enqueue on_dequeue C clk (HandlerTurn i) x =
    (if i < length (hs_handlers x) then
       let (t, h) = hs_handlers x ! i; (h', s) = handler_turn on_enqueue on_dequeue C clk t h (hs_sched x)
       in x\<lparr>hs_sched := s, hs_handlers := (hs_handlers x)[i := (t, h')]\<rparr>
     else x)"
| "guarded_step on_enqueue on_dequeue C clk (ClientLeaves i) x =
    (if i < length (hs_handlers x) then
       let (t, h) = hs_handlers x ! i in x\<lparr>hs_handlers := (hs_handlers x)[i := (t, handler_dropped h)]\<rparr>
     else x)"

definition guarded_run :: "(enqueue_result \<Rightarrow> nat option) \<Rightarrow> (unit dequeue_result \<Rightarrow> nat) \<Rightarrow> config \<Rightarrow> clock \<Rightarrow> guarded_event list \<Rightarrow>
    guarded" where
  "guarded_run on_enqueue on_dequeue C clk evs =
    fold (guarded_step on_enqueue on_dequeue C clk) evs \<lparr>hs_sched = scheduler_new C, hs_handlers = []\<rparr>"

definition simple_run :: "clock \<Rightarrow> guarded_event list \<Rightarrow> guarded" where
  "simple_run = guarded_run simple_enqueued simple_dequeued simple_config"

definition actix_run :: "clock \<Rightarrow> guarded_event list \<Rightarrow> guarded" where
  "actix_run = guarded_run actix_enqueued actix_dequeued default_config"

subsection \<open>Reading tenants\<close>

text \<open>
  Every tenant can be named in a request: the decimal number of its key, in the header
  \<open>X-Tenant-ID\<close> or, where the program reads it, in a bearer claim under either name, gives that
  key; a number beyond \<open>u64\<close> is read as no number.
\<close>

theorem tenants_addressable:
  assumes "n = unat (as_u64 t)" and "h ''X-Tenant-ID'' = Some (dec n)"
    and "g ''X-Tenant-ID'' = None" and "g ''Authorization'' = Some (''Bearer '' @ name @ dec n)"
    and "name \<in> {''tenant:'', ''tid:''}" and "u64_max < m"
  shows "extract_tenant h = t \<and> actix_tenant_from_request h = t \<and> tenant_from_request h = t \<and>
    tenant_from_request g = t \<and> parse_u64 (dec m) = None"
proof -
  have n: "n \<le> u64_max" "TenantKey (of_nat n) = t"
    using assms(1) by (cases t; simp)+
  have "parse_simulated_claim (''Bearer '' @ name @ dec n) = Some (of_nat n)"
    using assms(5) n(1) by (auto simp: parse_simulated_claim_def strip_prefix_def)
  with assms n show ?thesis
    by (simp add: extract_tenant_def actix_tenant_from_request_def tenant_from_request_def)
qed

text \<open>The deadline and the claim of the other headers follow the same reader.\<close>

lemma deadline_from_request_dec:
  "h ''X-Deadline-Ms'' = Some (dec ms) \<Longrightarrow> ms \<le> u64_max \<Longrightarrow> deadline_from_request now h = Some (now + ms * 1000000)"
  by (simp add: deadline_from_request_def unsigned_of_nat take_bit_nat_eq_self)

text \<open>The mapper chooses a status for each reason, but every failed request is answered with 500.\<close>

lemma api_status_lost:
  "http_status (api_rejection_mapper r) \<in> {429, 503} \<and>
    (\<exists>m. api_error_response (HttpRejected (api_rejection_mapper r)) = Some (500, m))"
  by (cases r) (simp_all add: api_error_response_def)

subsection \<open>The handlers and the permits\<close>

fun handler_waits :: "tenant_key \<times> handler \<Rightarrow> bool" where
  "handler_waits (t, HandlerDequeues c) = True"
| "handler_waits (t, HandlerDetached c) = True"
| "handler_waits h = False"

fun handler_ok :: "tenant_key \<times> handler \<Rightarrow> bool" where
  "handler_ok (t, HandlerDequeues c) \<longleftrightarrow> (\<forall>r. c \<noteq> Returned r) \<and> (\<forall>n. c \<noteq> Asleep n)"
| "handler_ok (t, HandlerDetached c) \<longleftrightarrow> (\<forall>r. c \<noteq> Returned r) \<and> (\<forall>n. c \<noteq> Asleep n)"
| "handler_ok (t, HandlerAnswered status) \<longleftrightarrow> status \<in> {200, 429}"
| "handler_ok (t, h) \<longleftrightarrow> True"

abbreviation permit_like :: "tenant_key \<Rightarrow> 'a task \<Rightarrow> bool" where
  "permit_like t task \<equiv> unat (cost task) \<le> 1 \<and> deadline task = None"

definition guarded_ok :: "config \<Rightarrow> clock \<Rightarrow> nat \<Rightarrow> unit answer list \<Rightarrow> guarded \<Rightarrow> bool" where
  "guarded_ok C clk n os x \<longleftrightarrow> traced permit_like C clk (2 * n) os (hs_sched x) \<and>
     shutdown_state (shared (hs_sched x)) = 0 \<and>
     count_out is_accepted os = count_out is_delivered os + number handler_waits (hs_handlers x) \<and>
     list_all handler_ok (hs_handlers x)"

text \<open>What both programs have in common.\<close>

definition answers_right :: "(enqueue_result \<Rightarrow> nat option) \<Rightarrow> (unit dequeue_result \<Rightarrow> nat) \<Rightarrow> bool" where
  "answers_right on_enqueue on_dequeue \<longleftrightarrow> on_enqueue EnqEnqueued = None \<and> (\<forall>r. on_enqueue (EnqRejected r) = Some 429) \<and>
     (\<forall>t task. on_dequeue (DequeuedTask t task) = 200)"

lemma permit_waits_awake:
  assumes C: "\<And>t. backpressure_for C t = Reject" and tr: "traced permit_like C clk k os s" and k: "k < u64_max"
    and opn: "shutdown_state (shared s) = 0" and more: "count_out is_delivered os < count_out is_accepted os"
    and c: "\<forall>r. c \<noteq> Returned r" "\<forall>n. c \<noteq> Asleep n" and d: "dequeue_blocking clk c s = (c', s')"
  shows "\<exists>os'. traced permit_like C clk (Suc k) (os @ os') s' \<and> shutdown_state (shared s') = 0 \<and>
    count_out is_accepted os' = 0 \<and> (\<forall>n. c' \<noteq> Asleep n) \<and>
    (case c' of
       Returned r \<Rightarrow> (\<exists>t task. r = DequeuedTask t task) \<and> count_out is_delivered os' = 1
     | _ \<Rightarrow> count_out is_delivered os' = 0)"
proof -
  from traced_dequeue_blocking [OF tr c(1) d] obtain os' where o: "traced permit_like C clk (Suc k) (os @ os') s'"
    "count_out is_accepted os' = 0" "count_out is_delivered os' = (case c' of Returned (DequeuedTask t task) \<Rightarrow> 1 | _ \<Rightarrow> 0)" by blast
  from k have k': "k \<le> u64_max" by simp
  from traced_immortal [OF tr k' _ C] more have "0 < card (pending_ids (shared s))" by auto
  moreover note traced_books(2) [OF tr k']
  ultimately have q: "0 < queue_len_estimate (stats (shared s))" by (simp add: books_def)
  have closed: "should_return_closed (shared s) = False" using opn by (simp add: should_return_closed_def)
  show ?thesis
  proof (cases "\<exists>spins observed. c = Looked spins observed")
    case True
    obtain r s1 where t: "try_dequeue clk s = (r, s1)" by fastforce
    have sd: "shutdown_state (shared s1) = 0" and "r \<noteq> Closed"
    proof -
      note b = traced_books [OF tr k']
      from try_dequeue_sound [OF b(1) t] obtain R where
        R: "takes clk R (dequeued_of r) (sched_queue s) (shared s) (sched_queue s1) (shared s1)" by blast
      from takesD(4) [OF R] opn show "shutdown_state (shared s1) = 0" by (simp add: tally_def same_frame_def)
      then show "r \<noteq> Closed"
        using t opn by (auto simp: try_dequeue_def should_return_closed_def split: option.splits prod.splits)
    qed
    with True d t o show ?thesis by (intro exI [of _ os'], cases r) auto
  next
    case False
    with d c closed q have "s' = s" "(\<forall>r. c' \<noteq> Returned r) \<and> (\<forall>n. c' \<noteq> Asleep n)"
      by (cases c; auto simp: Let_def split: if_splits)+
    with o opn show ?thesis by (intro exI [of _ os'], cases c') auto
  qed
qed

lemma handler_step_ok:
  assumes ans: "answers_right on_enqueue on_dequeue" and C: "\<And>t. backpressure_for C t = Reject"
    and ok: "guarded_ok C clk n os x" and n: "2 * n + 1 < u64_max" and i: "i < length (hs_handlers x)"
  shows "\<exists>os'. guarded_ok C clk (Suc n) os' (guarded_step on_enqueue on_dequeue C clk (HandlerTurn i) x)"
proof -
  let ?s = "hs_sched x"
  obtain t h where th: "hs_handlers x ! i = (t, h)" by fastforce
  note u = number_update [OF i, of handler_waits]
  from ok have tr: "traced permit_like C clk (2 * n) os ?s" and opn: "shutdown_state (shared ?s) = 0"
    and eq: "count_out is_accepted os = count_out is_delivered os + number handler_waits (hs_handlers x)"
    by (simp_all add: guarded_ok_def)
  have h: "handler_ok (t, h)" using ok i th by (metis guarded_ok_def list_all_length)
  have all: "list_all handler_ok ((hs_handlers x)[i := y])" if "handler_ok y" for y
    using ok that by (auto simp: guarded_ok_def list_all_iff dest!: set_update_subset_insert [THEN subsetD])
  have stay: "guarded_ok C clk (Suc n) os x" using ok traced_mono [OF tr, of "2 * Suc n"] by (simp add: guarded_ok_def)
  have waits: "\<exists>os'. guarded_ok C clk (Suc n) os' (x\<lparr>hs_sched := s', hs_handlers := (hs_handlers x)[i := (t, h')]\<rparr>)"
    if w: "handler_waits (t, h)" and d: "dequeue_blocking clk c ?s = (c', s')" and c: "\<forall>r. c \<noteq> Returned r" "\<forall>n. c \<noteq> Asleep n"
      and h': "\<And>r t task. c' = Returned r \<Longrightarrow> r = DequeuedTask t task \<Longrightarrow> \<not> handler_waits (t, h') \<and> handler_ok (t, h')"
        "(\<forall>r. c' \<noteq> Returned r) \<Longrightarrow> (\<forall>n. c' \<noteq> Asleep n) \<Longrightarrow> handler_waits (t, h') \<and> handler_ok (t, h')"
    for c c' s' h'
  proof -
    have "0 < number handler_waits (hs_handlers x)" using number_pos [OF nth_mem [OF i], of handler_waits] th w by simp
    with eq have "count_out is_delivered os < count_out is_accepted os" by simp
    moreover have "2 * n < u64_max" using n by simp
    ultimately obtain os' where o: "traced permit_like C clk (Suc (2 * n)) (os @ os') s'" "shutdown_state (shared s') = 0"
      "count_out is_accepted os' = 0" "\<forall>n. c' \<noteq> Asleep n"
      "case c' of Returned r \<Rightarrow> (\<exists>t task. r = DequeuedTask t task) \<and> count_out is_delivered os' = 1 | _ \<Rightarrow> count_out is_delivered os' = 0"
      using permit_waits_awake [OF C tr _ opn _ c d] by blast
    have "traced permit_like C clk (2 * Suc n) (os @ os') s'" using traced_mono [OF o(1)] by simp
    moreover have "handler_ok (t, h') \<and> count_out is_delivered os' = (if handler_waits (t, h') then 0 else 1)"
    proof (cases "\<exists>r. c' = Returned r")
      case True
      with o(5) h'(1) show ?thesis by (cases h') (auto split: consumer.splits)
    next
      case False
      with o(4,5) h'(2) show ?thesis by (cases c') auto
    qed
    ultimately show ?thesis using eq o(2,3) u [of "(t, h')"] all [of "(t, h')"] th w
      by (intro exI [of _ "os @ os'"], cases "handler_waits (t, h')") (simp_all add: guarded_ok_def count_out_append)
  qed
  show ?thesis
  proof (cases h)
    case HandlerNew
    obtain now g where c: "read_clock clk (shared ?s) = (now, g)" by fastforce
    note c1 = traced_clock(1) [OF tr c]
    have g: "shutdown_state g = 0" using c opn by (auto simp: read_clock_def)
    obtain r s2 where e: "enqueue_now C clk t (permit_task now) (?s\<lparr>shared := g\<rparr>) = Some (r, s2)"
      by (cases "enqueue_reject_with_handle C clk t (permit_task now) (?s\<lparr>shared := g\<rparr>)") (simp add: enqueue_now_def C)
    have tr2: "traced permit_like C clk (2 * Suc n) ((os @ [Done]) @ [enqueue_output r]) s2"
      using traced_exec [OF c1, of "EnqueueNow t (permit_task now)"] e by (simp add: permit_task_def)
    have k: "Suc (2 * n) \<le> u64_max" using n by simp
    note b = traced_books [OF c1 k]
    have "count_out is_accepted (os @ [Done]) \<le> length (os @ [Done])" by (rule count_out_le)
    also have "\<dots> \<le> Suc (2 * n)" by (rule traced_length [OF c1])
    also have "\<dots> < u64_max" using n by simp
    finally have a: "count_out is_accepted (os @ [Done]) < u64_max" .
    from enqueue_now_sound [OF b(1,2) a e] obtain V
      where "sound_as C clk V (count_out is_accepted (os @ [Done])) (count_out is_delivered (os @ [Done]))
        (count_out is_cancelled (os @ [Done])) t (permit_task now) (accepted_id r) (?s\<lparr>shared := g\<rparr>) s2" by blast
    then have sd: "shutdown_state (shared s2) = 0" using g by (simp add: sound_as_def enqueues_def)
    have "r \<noteq> EnqueueClosed"
      using e g by (auto simp: enqueue_now_def C enqueue_reject_with_handle_def enqueue_try_reject_def is_accepting_enqueues_def Let_def
          split: enqueue_attempt.splits prod.splits option.splits if_splits)
    with ans obtain h' where h': "(case on_enqueue (enqueue_answer r) of Some status \<Rightarrow> HandlerAnswered status | None \<Rightarrow> HandlerDequeues (Begin 0)) = h'"
      "handler_ok (t, h')" "handler_waits (t, h') \<longleftrightarrow> is_accepted (enqueue_output r :: unit answer)" "\<not> is_delivered (enqueue_output r :: unit answer)"
      by (cases r) (auto simp: answers_right_def)
    from eq tr2 sd h' e c th i HandlerNew u [of "(t, h')"] all [OF h'(2)] show ?thesis
      by (intro exI [of _ "(os @ [Done]) @ [enqueue_output r]"]) (simp add: guarded_ok_def count_out_def)
  next
    case (HandlerDequeues c)
    obtain c' s' where d: "dequeue_blocking clk c ?s = (c', s')" by fastforce
    define h' where "h' = (case c' of Returned r \<Rightarrow> HandlerAnswered (on_dequeue r) | _ \<Rightarrow> HandlerDequeues c')"
    have "\<exists>os'. guarded_ok C clk (Suc n) os' (x\<lparr>hs_sched := s', hs_handlers := (hs_handlers x)[i := (t, h')]\<rparr>)"
      using h HandlerDequeues ans by (intro waits [OF _ d]) (auto simp: h'_def answers_right_def split: consumer.splits)
    with HandlerDequeues th i d show ?thesis by (simp add: h'_def)
  next
    case (HandlerDetached c)
    obtain c' s' where d: "dequeue_blocking clk c ?s = (c', s')" by fastforce
    define h' where "h' = (case c' of Returned r \<Rightarrow> HandlerGone | _ \<Rightarrow> HandlerDetached c')"
    have "\<exists>os'. guarded_ok C clk (Suc n) os' (x\<lparr>hs_sched := s', hs_handlers := (hs_handlers x)[i := (t, h')]\<rparr>)"
      using h HandlerDetached by (intro waits [OF _ d]) (auto simp: h'_def split: consumer.splits)
    with HandlerDetached th i d show ?thesis by (simp add: h'_def)
  next
    case (HandlerAnswered status)
    with stay th i list_update_id [of "hs_handlers x" i] show ?thesis by (intro exI [of _ os]) simp
  next
    case HandlerGone
    with stay th i list_update_id [of "hs_handlers x" i] show ?thesis by (intro exI [of _ os]) simp
  qed
qed

lemma guarded_step_ok:
  assumes ans: "answers_right on_enqueue on_dequeue" and C: "\<And>t. backpressure_for C t = Reject"
    and ok: "guarded_ok C clk n os x" and n: "2 * n + 1 < u64_max"
  shows "\<exists>os'. guarded_ok C clk (Suc n) os' (guarded_step on_enqueue on_dequeue C clk ev x)"
proof -
  from ok have tr: "traced permit_like C clk (2 * n) os (hs_sched x)" by (simp add: guarded_ok_def)
  have stay: "guarded_ok C clk (Suc n) os x" using ok traced_mono [OF tr, of "2 * Suc n"] by (simp add: guarded_ok_def)
  show ?thesis
  proof (cases ev)
    case (RequestArrives t)
    have "number P (xs @ [y]) = number P xs + (if P y then 1 else 0)" for P xs and y :: "tenant_key \<times> handler" by (simp add: number_def)
    with stay RequestArrives show ?thesis by (intro exI [of _ os]) (simp add: guarded_ok_def)
  next
    case (HandlerTurn i)
    with stay handler_step_ok [OF ans C ok n, of i] show ?thesis by (cases "i < length (hs_handlers x)") auto
  next
    case (ClientLeaves i)
    show ?thesis
    proof (cases "i < length (hs_handlers x)")
      case True
      obtain t h where th: "hs_handlers x ! i = (t, h)" by fastforce
      have "handler_ok (t, h)" using ok True th by (metis guarded_ok_def list_all_length)
      then have h': "handler_ok (t, handler_dropped h)" "handler_waits (t, handler_dropped h) = handler_waits (t, h)"
        by (cases h; simp)+
      then have "list_all handler_ok ((hs_handlers x)[i := (t, handler_dropped h)])"
        using stay by (auto simp: guarded_ok_def list_all_iff dest!: set_update_subset_insert [THEN subsetD])
      with stay ClientLeaves True th h'(2) number_update [OF True, of handler_waits "(t, handler_dropped h)"]
      show ?thesis by (intro exI [of _ os]) (simp add: guarded_ok_def)
    next
      case False
      with stay ClientLeaves show ?thesis by auto
    qed
  qed
qed

lemma guarded_run_ok:
  assumes "answers_right on_enqueue on_dequeue" and C: "\<And>t. backpressure_for C t = Reject" and "2 * length evs \<le> u64_max"
  shows "\<exists>os. guarded_ok C clk (length evs) os (guarded_run on_enqueue on_dequeue C clk evs)"
  using assms(3)
proof (induction evs rule: rev_induct)
  case Nil
  have "shutdown_state (shared (scheduler_new C :: unit sched)) = 0" by (simp add: scheduler_new_def Let_def)
  then show ?case by (intro exI [of _ "[]"]) (simp add: guarded_ok_def guarded_run_def traced_new count_out_def)
next
  case (snoc ev evs)
  then obtain os where "guarded_ok C clk (length evs) os (guarded_run on_enqueue on_dequeue C clk evs)" by auto
  moreover have "2 * length evs + 1 < u64_max" using snoc.prems by simp
  ultimately show ?case using guarded_step_ok [OF assms(1) C, of clk "length evs" os _ ev] by (simp add: guarded_run_def)
qed

lemma guarded_waits:
  assumes ans: "answers_right on_enqueue on_dequeue" and C: "\<And>t. backpressure_for C t = Reject" and m: "mild_config 10 C"
    and l: "2 * length evs \<le> u64_max" and run: "guarded_run on_enqueue on_dequeue C clk evs = x" and s: "hs_sched x = s"
  shows "queue_len_estimate (stats (shared s)) = number handler_waits (hs_handlers x) \<and>
    (\<forall>h \<in> set (hs_handlers x). handler_ok h) \<and>
    (0 < number handler_waits (hs_handlers x) \<longrightarrow> (\<exists>t task s'. polls 2 clk s = (DequeuedTask t task, s')))"
proof -
  from guarded_run_ok [OF ans C l, of clk] run obtain os where ok: "guarded_ok C clk (length evs) os x" by auto
  then have tr: "traced permit_like C clk (2 * length evs) os s" and opn: "shutdown_state (shared s) = 0"
    and eq: "count_out is_accepted os = count_out is_delivered os + number handler_waits (hs_handlers x)"
    and hs: "\<forall>h \<in> set (hs_handlers x). handler_ok h"
    using s by (auto simp: guarded_ok_def list_all_iff)
  note im = traced_immortal [OF tr l _ C] and b = traced_books [OF tr l]
  from im eq have card: "card (pending_ids (shared s)) = number handler_waits (hs_handlers x)" by simp
  with b(2) have q: "queue_len_estimate (stats (shared s)) = number handler_waits (hs_handlers x)" by (simp add: books_def)
  have "\<exists>t task s'. polls 2 clk s = (DequeuedTask t task, s')" if "0 < number handler_waits (hs_handlers x)"
  proof -
    from that card obtain j where "j \<in> pending_ids (shared s)" by (metis card.empty ex_in_conv less_irrefl)
    moreover from b(1) have "ledger s" by (simp add: sched_ok_def)
    ultimately obtain t p where "j \<in> set (ids (sched_queue s t p))" unfolding ledger_def by blast
    with \<open>j \<in> pending_ids (shared s)\<close> obtain e
      where e: "e \<in> set (sched_queue s t p)" "entry_id e \<in> pending_ids (shared s)" by auto
    have "deadline (entry_task e) = None" using traced_tasks(1) [OF tr l e(1)] by simp
    from traced_polls [OF tr l m _ _ e this, of 1, unfolded Suc_1] opn show ?thesis by simp
  qed
  with q hs show ?thesis by blast
qed

text \<open>
  C38: The handlers of the two programs never wait for capacity: as many permits are pending as
  threads wait for one, also after clients have left, so no thread goes to sleep, each finds a
  permit within two calls of \<open>try_dequeue\<close>, and a request is answered with 200 or, by its own
  enqueue, with 429.
\<close>

theorem permits_never_wait:
  assumes "2 * length evs \<le> u64_max" and "x \<in> {simple_run clk evs, actix_run clk evs}" and "hs_sched x = s"
  shows "queue_len_estimate (stats (shared s)) = number handler_waits (hs_handlers x) \<and>
    (\<forall>t n. (t, HandlerDequeues (Asleep n)) \<notin> set (hs_handlers x) \<and> (t, HandlerDetached (Asleep n)) \<notin> set (hs_handlers x)) \<and>
    (0 < number handler_waits (hs_handlers x) \<longrightarrow> (\<exists>t task s'. polls 2 clk s = (DequeuedTask t task, s'))) \<and>
    (\<forall>t status. (t, HandlerAnswered status) \<in> set (hs_handlers x) \<longrightarrow> status = 200 \<or> status = 429)"
proof -
  have a: "answers_right simple_enqueued simple_dequeued" "answers_right actix_enqueued actix_dequeued"
    by (simp_all add: answers_right_def)
  have c: "backpressure_for simple_config t = Reject" "backpressure_for default_config t = Reject" for t
    by (simp_all add: backpressure_for_def simple_config_def default_config_def)
  have m: "mild_config 10 simple_config" "mild_config 10 default_config"
    by (simp_all add: mild_config_def mild_rates_def simple_config_def default_config_def)
  note w = guarded_waits [OF a(1) c(1) m(1) assms(1), of clk x s] guarded_waits [OF a(2) c(2) m(2) assms(1), of clk x s]
  with assms(2,3) have "queue_len_estimate (stats (shared s)) = number handler_waits (hs_handlers x) \<and>
    (\<forall>h \<in> set (hs_handlers x). handler_ok h) \<and>
    (0 < number handler_waits (hs_handlers x) \<longrightarrow> (\<exists>t task s'. polls 2 clk s = (DequeuedTask t task, s')))"
    by (auto simp: simple_run_def actix_run_def)
  then show ?thesis by fastforce
qed

theorem permits_never_wait_witness:
  "\<exists>x. simple_run demo_clock [RequestArrives tenant7, HandlerTurn 0, RequestArrives (TenantKey 2), HandlerTurn 1, HandlerTurn 1] = x \<and>
    number handler_waits (hs_handlers x) = 2 \<and> queue_len_estimate (stats (shared (hs_sched x))) = 2 \<and>
    (\<exists>t task s'. polls 2 demo_clock (hs_sched x) = (DequeuedTask t task, s'))"
proof -
  define x where "x = simple_run demo_clock [RequestArrives tenant7, HandlerTurn 0, RequestArrives (TenantKey 2), HandlerTurn 1, HandlerTurn 1]"
  have n: "number handler_waits (hs_handlers x) = 2"
    by (simp add: x_def simple_run_def guarded_run_def simple_config_def permit_task_def eval)
  have "2 * length [RequestArrives tenant7, HandlerTurn 0, RequestArrives (TenantKey 2), HandlerTurn 1, HandlerTurn 1] \<le> u64_max" by simp
  from permits_never_wait [OF this, of x demo_clock] n show ?thesis by (intro exI [of _ x]) (simp add: x_def)
qed

text \<open>
  A handler does not wait for its own permit: the permit that lets it go on may be that of another
  tenant, whose handler then waits on. So the order in which the scheduler hands out the tenants'
  permits does not decide which request runs.
\<close>

theorem permit_of_another:
  "\<exists>evs x now e. actix_run demo_clock evs = x \<and>
    hs_handlers x = [(tenant7, HandlerDequeues (Begin 0)), (TenantKey 2, HandlerAnswered 200)] \<and>
    sched_queue (hs_sched x) tenant7 Normal = [] \<and>
    sched_queue (hs_sched x) (TenantKey 2) Normal = [e] \<and> entry_task e = permit_task now"
proof -
  let ?evs = "[RequestArrives tenant7, HandlerTurn 0, RequestArrives (TenantKey 2), HandlerTurn 1, HandlerTurn 1, HandlerTurn 1,
    HandlerTurn 1, HandlerTurn 1, HandlerTurn 1, HandlerTurn 1]"
  have "hs_handlers (actix_run demo_clock ?evs) = [(tenant7, HandlerDequeues (Begin 0)), (TenantKey 2, HandlerAnswered 200)]"
    "sched_queue (hs_sched (actix_run demo_clock ?evs)) tenant7 Normal = []"
    "map entry_task (sched_queue (hs_sched (actix_run demo_clock ?evs)) (TenantKey 2) Normal) = [permit_task 101]"
    by (simp_all add: actix_run_def guarded_run_def permit_task_def sched_queue_def squeue_def signal_current_def
        DEQUEUE_BLOCKING_BACKOFF_SPINS_def eval)
  then show ?thesis by blast
qed

end
