(* ===== verification/Tower_Reports.thy ===== *)
theory Tower_Reports
  imports Tower Prometheus
begin

text \<open>
  What \<open>firq-tower\<close> reports: the saturation of the in-flight limit, the text and the source of an
  error, and the readiness it passes on from the inner service.
\<close>

definition in_flight_saturation_ratio :: "'m tokio \<Rightarrow> ('m, 'r, 'e) layer \<Rightarrow> f64" where
  "in_flight_saturation_ratio T x =
    (if max_in_flight x = 0 then F64 0 0 else f64_div (as_f64 (in_flight_active T x)) (as_f64 (max_in_flight x)))"

text \<open>The reason prints as its name, a derived \<open>Debug\<close>; \<open>show_inner\<close> is the text of the inner service's error.\<close>

fun reason_text :: "reject_reason \<Rightarrow> string" where
  "reason_text GlobalFull = ''GlobalFull''"
| "reason_text TenantFull = ''TenantFull''"
| "reason_text TimedOut = ''Timeout''"

fun firq_error_text :: "('e \<Rightarrow> string) \<Rightarrow> 'e firq_error \<Rightarrow> string" where
  "firq_error_text show_inner (Service e) = ''Service error: '' @ show_inner e"
| "firq_error_text show_inner (HttpRejected r) =
    ''Request rejected: status='' @ dec (http_status r) @ '' code='' @ error_code r @ '' reason='' @ reason_text (reject_cause r)"
| "firq_error_text show_inner FirqClosed = ''Scheduler closed''"
| "firq_error_text show_inner PermitError = ''Permit acquisition failed (task expired or dropped)''"

fun error_source :: "'e firq_error \<Rightarrow> 'e option" where
  "error_source (Service e) = Some e"
| "error_source e = None"

text \<open>\<open>None\<close> is \<open>Poll::Pending\<close>.\<close>

definition poll_ready :: "('e + unit) option \<Rightarrow> ('e firq_error + unit) option" where
  "poll_ready inner = map_option (map_sum Service id) inner"

text \<open>The ratio is that of the permits out to the limit, up to one part in two to the 50.\<close>

lemma in_flight_ratio_near:
  assumes "0 < max_in_flight x" and "a = real (in_flight_active T x) / real (max_in_flight x)"
  shows "\<bar>f64_value (in_flight_saturation_ratio T x) - a\<bar> \<le> a / 2 ^ 50 \<and> 0 \<le> a \<and> a \<le> 1"
proof -
  have "a \<le> 1" using assms by (simp add: in_flight_active_def)
  with assms saturation_ratio [of "max_in_flight x" "in_flight_active T x"] show ?thesis
    by (simp add: in_flight_saturation_ratio_def)
qed

text \<open>An error of the inner service comes through as the source of the layer's error; no other error has one.\<close>

lemma poll_ready_source:
  "poll_ready inner = Some (Inl err) \<longleftrightarrow> (\<exists>e. inner = Some (Inl e) \<and> err = Service e \<and> error_source err = Some e)"
  by (cases inner; cases "the inner") (auto simp: poll_ready_def)

lemma error_source_iff: "error_source err = Some e \<longleftrightarrow> err = Service e"
  by (cases err) auto

end
