(* ===== verification/Cancel_Race.thy ===== *)
theory Cancel_Race
  imports Shared_Ops
begin

text \<open>
  The one race that the steps of \<open>Scheduler\<close> do not show: \<open>cancel\<close> takes no shard lock, so its
  accesses to the two sets of ids fall between those of the call that takes the same task out
  of its queue. Here every access of \<open>scheduler.rs\<close> to \<open>pending_ids\<close>, \<open>cancelled_ids\<close> and the slot
  counter for one task is a step. The lock of the shard admits one taker at a time; any number
  of callers cancel the task at the same time.
\<close>

subsection \<open>The threads\<close>

text \<open>
  The taker: none; \<open>try_dequeue_from_shard\<close> with the entry at the front of its queue (the flags
  say what the clock and the deficit will say), about to take an expired entry's id, with the
  entry popped; \<open>purge_queue_with_budget\<close> at the entry; the eviction of
  \<open>enqueue_drop_with_handle\<close>; before the release of a slot.
\<close>

datatype taker =
    NoTaker
  | ServeMarker bool bool
  | TakeExpired
  | PopMarker
  | PopPending
  | PurgeMarker bool
  | PurgeCancelled
  | EvictMarker
  | EvictPending
  | Releasing

text \<open>A caller of \<open>cancel\<close>, up to its answer.\<close>

datatype canceller = CancelPending | CancelMark | CancelRelease | CancelAnswered cancel_result

text \<open>
  \<open>in_queue\<close>: the entry is in its queue. The numbers are for the statements only: how often the
  task was delivered, expired, evicted or taken by a \<open>cancel\<close>, and how often its slot was freed
  or passed on to the task that evicted it.
\<close>

record cancel_race =
  ids_of :: shared
  in_queue :: bool
  taking :: taker
  cancellers :: "canceller list"
  n_delivered :: nat
  n_expired :: nat
  n_evicted :: nat
  n_cancelled :: nat
  n_freed :: nat

definition race_new :: "nat \<Rightarrow> nat \<Rightarrow> shared \<Rightarrow> cancel_race" where
  "race_new i k g =
    \<lparr>ids_of = register_pending (TaskHandle i) g, in_queue = True, taking = NoTaker,
     cancellers = replicate k CancelPending, n_delivered = 0, n_expired = 0, n_evicted = 0, n_cancelled = 0,
     n_freed = 0\<rparr>"

fun taker_turn :: "nat \<Rightarrow> taker \<Rightarrow> cancel_race \<Rightarrow> cancel_race" where
  "taker_turn i NoTaker x = x"
| "taker_turn i (ServeMarker late affordable) x =
    (let (marked, g) = take_cancelled_marker i (ids_of x); x1 = x\<lparr>ids_of := g\<rparr>
     in if marked then x1\<lparr>in_queue := False, taking := NoTaker\<rparr>
        else if late then x1\<lparr>in_queue := False, taking := TakeExpired\<rparr>
        else if affordable then x1\<lparr>in_queue := False, taking := PopMarker\<rparr>
        else x1\<lparr>taking := NoTaker\<rparr>)"
| "taker_turn i TakeExpired x =
    (let (was_pending, g) = take_pending i (ids_of x); x1 = x\<lparr>ids_of := g\<rparr>
     in if was_pending then x1\<lparr>n_expired := Suc (n_expired x), taking := Releasing\<rparr> else x1\<lparr>taking := NoTaker\<rparr>)"
| "taker_turn i PopMarker x =
    (let (marked, g) = take_cancelled_marker i (ids_of x); x1 = x\<lparr>ids_of := g\<rparr>
     in if marked then x1\<lparr>taking := NoTaker\<rparr> else x1\<lparr>taking := PopPending\<rparr>)"
| "taker_turn i PopPending x =
    (let (was_pending, g) = take_pending i (ids_of x); x1 = x\<lparr>ids_of := g\<rparr>
     in if was_pending then x1\<lparr>n_delivered := Suc (n_delivered x), taking := Releasing\<rparr> else x1\<lparr>taking := NoTaker\<rparr>)"
| "taker_turn i (PurgeMarker late) x =
    (let (marked, g) = take_cancelled_marker i (ids_of x); x1 = x\<lparr>ids_of := g\<rparr>
     in if marked then x1\<lparr>in_queue := False, taking := PurgeCancelled\<rparr>
        else if late then x1\<lparr>in_queue := False, taking := TakeExpired\<rparr>
        else x1\<lparr>taking := NoTaker\<rparr>)"
| "taker_turn i PurgeCancelled x =
    (let (was_pending, g) = take_pending i (ids_of x); x1 = x\<lparr>ids_of := g\<rparr>
     in if was_pending then x1\<lparr>taking := Releasing\<rparr> else x1\<lparr>taking := NoTaker\<rparr>)"
| "taker_turn i EvictMarker x =
    x\<lparr>ids_of := clear_cancelled_marker i (ids_of x), in_queue := False, taking := EvictPending\<rparr>"
| "taker_turn i EvictPending x =
    (let (was_pending, g) = take_pending i (ids_of x); x1 = x\<lparr>ids_of := g, taking := NoTaker\<rparr>
     in if was_pending then x1\<lparr>n_evicted := Suc (n_evicted x), n_freed := Suc (n_freed x)\<rparr> else x1)"
| "taker_turn i Releasing x =
    x\<lparr>ids_of := release_reserved_slots 1 (ids_of x), n_freed := Suc (n_freed x), taking := NoTaker\<rparr>"

text \<open>\<open>cancel\<close>, access by access.\<close>

fun cancel_turn :: "nat \<Rightarrow> canceller \<Rightarrow> cancel_race \<Rightarrow> canceller \<times> cancel_race" where
  "cancel_turn i CancelPending x =
    (let (was_pending, g) = take_pending i (ids_of x); x1 = x\<lparr>ids_of := g\<rparr>
     in if was_pending then (CancelMark, x1\<lparr>n_cancelled := Suc (n_cancelled x)\<rparr>)
        else (CancelAnswered NotFound, x1))"
| "cancel_turn i CancelMark x = (CancelRelease, x\<lparr>ids_of := mark_cancelled i (ids_of x)\<rparr>)"
| "cancel_turn i CancelRelease x =
    (CancelAnswered Cancelled,
     x\<lparr>ids_of := release_reserved_slots 1 (ids_of x), n_freed := Suc (n_freed x)\<rparr>)"
| "cancel_turn i (CancelAnswered r) x = (CancelAnswered r, x)"

text \<open>
  \<open>Elsewhere\<close> is what other threads do to the shared state for other tasks. A taker starts when
  it has the lock and finds the entry in the queue.
\<close>

datatype race_event = StartTaker taker | TakerTurn | CancelTurn nat | ElsewhereTurn shared

fun starts :: "taker \<Rightarrow> bool" where
  "starts (ServeMarker late affordable) = True"
| "starts (PurgeMarker late) = True"
| "starts EvictMarker = True"
| "starts t = False"

fun race_step :: "nat \<Rightarrow> race_event \<Rightarrow> cancel_race \<Rightarrow> cancel_race" where
  "race_step i (StartTaker t) x =
    (if taking x = NoTaker \<and> in_queue x \<and> starts t then x\<lparr>taking := t\<rparr> else x)"
| "race_step i TakerTurn x = taker_turn i (taking x) x"
| "race_step i (CancelTurn k) x =
    (if k < length (cancellers x) then
       let (c, x1) = cancel_turn i (cancellers x ! k) x in x1\<lparr>cancellers := (cancellers x1)[k := c]\<rparr>
     else x)"
| "race_step i (ElsewhereTurn g) x =
    (if (i \<in> pending_ids g \<longleftrightarrow> i \<in> pending_ids (ids_of x)) \<and> (i \<in> cancelled_ids g \<longleftrightarrow> i \<in> cancelled_ids (ids_of x))
     then x\<lparr>ids_of := g\<rparr> else x)"

definition race_run :: "nat \<Rightarrow> race_event list \<Rightarrow> cancel_race \<Rightarrow> cancel_race" where
  "race_run i evs x = fold (race_step i) evs x"

subsection \<open>One taker wins\<close>

abbreviation waiting_for :: "nat \<Rightarrow> cancel_race \<Rightarrow> bool" where
  "waiting_for i x \<equiv> i \<in> pending_ids (ids_of x)"

fun past_take :: "canceller \<Rightarrow> bool" where
  "past_take CancelMark = True"
| "past_take CancelRelease = True"
| "past_take (CancelAnswered Cancelled) = True"
| "past_take c = False"

fun to_free :: "canceller \<Rightarrow> bool" where
  "to_free CancelMark = True"
| "to_free CancelRelease = True"
| "to_free c = False"

fun holds_entry :: "taker \<Rightarrow> bool" where
  "holds_entry TakeExpired = True"
| "holds_entry PopMarker = True"
| "holds_entry PopPending = True"
| "holds_entry EvictPending = True"
| "holds_entry t = False"

definition race_inv :: "nat \<Rightarrow> cancel_race \<Rightarrow> bool" where
  "race_inv i x \<longleftrightarrow>
     n_delivered x + n_expired x + n_evicted x + n_cancelled x = (if waiting_for i x then 0 else 1) \<and>
     n_cancelled x = number past_take (cancellers x) \<and>
     n_freed x + number to_free (cancellers x) + (if taking x = Releasing then 1 else 0) = (if waiting_for i x then 0 else 1) \<and>
     (waiting_for i x \<longrightarrow> i \<notin> cancelled_ids (ids_of x) \<and> (in_queue x \<or> holds_entry (taking x))) \<and>
     (taking x = PurgeCancelled \<longrightarrow> \<not> waiting_for i x)"

lemma release_ids [simp]:
  "pending_ids (release_reserved_slots n g) = pending_ids g" "cancelled_ids (release_reserved_slots n g) = cancelled_ids g"
  by (simp_all add: release_reserved_slots_def)

lemmas race_defs = take_pending_def take_cancelled_marker_def clear_cancelled_marker_def mark_cancelled_def

lemma taker_turn_inv:
  assumes "race_inv i x"
  shows "race_inv i (taker_turn i (taking x) x)"
  using assms by (cases "taking x") (auto simp: race_inv_def race_defs Let_def)

lemma cancel_turn_inv:
  assumes inv: "race_inv i x" and k: "k < length (cancellers x)"
  shows "race_inv i (race_step i (CancelTurn k) x)"
proof -
  note n = number_update [OF k]
  show ?thesis
  proof (cases "cancellers x ! k")
    case CancelPending
    with inv k n [of past_take CancelMark] n [of to_free CancelMark]
      n [of past_take "CancelAnswered NotFound"] n [of to_free "CancelAnswered NotFound"]
    show ?thesis by (auto simp: race_inv_def race_defs Let_def)
  next
    case CancelMark
    then have "0 < number past_take (cancellers x)" using number_pos [OF nth_mem [OF k], of past_take] by simp
    with inv CancelMark k n [of past_take CancelRelease] n [of to_free CancelRelease]
    show ?thesis by (auto simp: race_inv_def race_defs split: if_splits)
  next
    case CancelRelease
    with inv k n [of past_take "CancelAnswered Cancelled"] n [of to_free "CancelAnswered Cancelled"]
    show ?thesis by (auto simp: race_inv_def)
  next
    case (CancelAnswered r)
    with inv k show ?thesis using list_update_id [of "cancellers x" k] by simp
  qed
qed

lemma race_step_inv:
  assumes inv: "race_inv i x"
  shows "race_inv i (race_step i ev x)"
proof (cases ev)
  case (StartTaker t)
  with inv show ?thesis by (cases t) (auto simp: race_inv_def)
next
  case TakerTurn
  with taker_turn_inv [OF inv] show ?thesis by simp
next
  case (CancelTurn k)
  with inv cancel_turn_inv [OF inv, of k] show ?thesis by (cases "k < length (cancellers x)") auto
next
  case (ElsewhereTurn g)
  with inv show ?thesis by (auto simp: race_inv_def)
qed

lemma race_run_inv: "race_inv i x \<Longrightarrow> race_inv i (race_run i evs x)"
  by (induction evs arbitrary: x) (simp_all add: race_run_def race_step_inv)

lemma not_to_free: "\<forall>c \<in> set cs. \<exists>r. c = CancelAnswered r \<Longrightarrow> number to_free cs = 0"
  by (induction cs) auto

text \<open>
  C24: However the callers of \<open>cancel\<close> interleave with the dequeue, purge or eviction that takes
  the same task, exactly one of them gets it: the task is delivered, expired, evicted or cancelled
  once, and never both delivered and answered \<open>Cancelled\<close>; at most one caller gets that answer;
  its slot is freed or passed on exactly once; and while it is neither, it is still in its queue.
\<close>

theorem cancel_race_one_winner:
  assumes "i \<notin> cancelled_ids g" and "race_run i evs (race_new i k g) = x"
  shows "n_delivered x + n_expired x + n_evicted x + n_cancelled x = (if waiting_for i x then 0 else 1) \<and>
    (CancelAnswered Cancelled \<in> set (cancellers x) \<longrightarrow> n_delivered x = 0 \<and> n_expired x = 0 \<and> n_evicted x = 0) \<and>
    number ((=) (CancelAnswered Cancelled)) (cancellers x) \<le> 1 \<and> n_freed x \<le> 1 \<and>
    (taking x = NoTaker \<and> (\<forall>c \<in> set (cancellers x). \<exists>r. c = CancelAnswered r) \<longrightarrow>
      (if waiting_for i x then in_queue x \<and> n_freed x = 0 else n_freed x = 1))"
proof -
  have "race_inv i (race_new i k g)"
    using assms(1) by (simp add: race_inv_def race_new_def register_pending_def number_replicate)
  from race_run_inv [OF this] assms(2) have inv: "race_inv i x" by blast
  have "number ((=) (CancelAnswered Cancelled)) cs \<le> number past_take cs" for cs by (induction cs) auto
  moreover have "number past_take (cancellers x) \<le> 1" using inv by (auto simp: race_inv_def split: if_splits)
  ultimately have one: "number ((=) (CancelAnswered Cancelled)) (cancellers x) \<le> 1" by (meson order_trans)
  have "0 < n_cancelled x" if "CancelAnswered Cancelled \<in> set (cancellers x)"
    using inv number_pos [OF that, of past_take] by (simp add: race_inv_def)
  with inv one not_to_free [of "cancellers x"] show ?thesis by (auto simp: race_inv_def split: if_splits)
qed

definition quiet_shared :: shared where
  "quiet_shared =
    \<lparr>stats = stats_counters_new\<lparr>queue_len_estimate := 1\<rparr>, signal_seq = 0, shutdown_state = 0,
     top_tenants = \<lparr>capacity = 0, entries = []\<rparr>, tenant_quantum = Map.empty, quantum_provider = None,
     next_task_id = 1, pending_ids = {}, cancelled_ids = {}, ticks = 0\<rparr>"

text \<open>
  The witness is a dequeue that pops the entry, and a \<open>cancel\<close> that takes the id before it: the
  caller is told \<open>Cancelled\<close>, nothing is delivered, and the marker, set after the entry was gone,
  is never taken: the set of cancelled ids keeps it for ever.
\<close>

theorem cancel_race_one_winner_witness:
  "\<exists>x. race_run 1 [StartTaker (ServeMarker False True), TakerTurn, CancelTurn 0, TakerTurn, TakerTurn, CancelTurn 0,
      CancelTurn 0] (race_new 1 2 quiet_shared) = x \<and>
    cancellers x = [CancelAnswered Cancelled, CancelPending] \<and> n_delivered x = 0 \<and> n_freed x \<le> 1 \<and>
    \<not> in_queue x \<and> taking x = NoTaker \<and> cancelled_ids (ids_of x) = {1}"
proof -
  let ?evs = "[StartTaker (ServeMarker False True), TakerTurn, CancelTurn 0, TakerTurn, TakerTurn, CancelTurn 0, CancelTurn 0]"
  define x where "x = race_run 1 ?evs (race_new 1 2 quiet_shared)"
  have fresh: "1 \<notin> cancelled_ids quiet_shared" by (simp add: quiet_shared_def)
  have v: "cancellers x = [CancelAnswered Cancelled, CancelPending]" "\<not> in_queue x" "taking x = NoTaker"
    "cancelled_ids (ids_of x) = {1}"
    by (simp_all add: x_def race_run_def race_new_def race_defs register_pending_def quiet_shared_def Let_def
        numeral_2_eq_2)
  from cancel_race_one_winner [OF fresh x_def [symmetric]] v(1) have "n_delivered x = 0" "n_freed x \<le> 1" by auto
  with v show ?thesis by (intro exI [of _ x]) (simp add: x_def)
qed

end
