(* ===== verification/Threads.thy ===== *)
theory Threads
  imports Scheduler_Sound Blocking
begin

text \<open>
  The calls of \<open>scheduler.rs\<close> as threads. Elsewhere in the development a call is one step; here
  it is as many steps as it has critical sections: a call drops the lock of its shard before it
  puts the shard into the active shards, and takes a shard out of the active shards before it
  locks it, and other threads run in between. A step is one critical section (a mutex from
  \<open>lock\<close> to its release) or one atomic access outside of them; any number of threads take their
  steps in any order.
\<close>

subsection \<open>The sections under the lock of a shard\<close>

text \<open>Both enqueue paths end their section with this, once a slot is theirs.\<close>

definition accept_locked :: "nat \<Rightarrow> tenant_key \<Rightarrow> 'a task \<Rightarrow> 'a tenant_state \<Rightarrow> shared \<Rightarrow> 'a sched \<Rightarrow>
    task_handle \<times> bool \<times> 'a sched" where
  "accept_locked i t task ts g s =
    (let (handle, g1) = next_handle g;
         g2 = register_pending handle g1;
         p = prio task;
         was_empty = (queues ts p = []);
         ts1 = ts\<lparr>queues := (queues ts)(p := queues ts p @ [\<lparr>entry_id = handle_id handle, entry_task = task\<rparr>])\<rparr>;
         activate = (was_empty \<and> \<not> active ts1 p);
         ts2 = (if activate then ts1\<lparr>active := (active ts1)(p := True)\<rparr> else ts1);
         s1 = put_tenant i t ts2 (count_up enqueued_update 1 g2) s;
         sh1 = shards s1 ! i;
         sh2 = (if activate
                then sh1\<lparr>active_rings := (active_rings sh1)(p := ring_push_back (active_rings sh1 p) t)\<rparr>
                else sh1)
     in (handle, was_empty, s1\<lparr>shards := (shards s1)[i := sh2]\<rparr>))"

text \<open>How a section ends: the handle, \<open>shard_was_empty\<close> and \<open>was_empty\<close>, or why there is none.\<close>

datatype locked_end =
    LockedClosed
  | LockedFull reject_reason
  | LockedAccepted task_handle bool bool

definition reject_locked :: "config \<Rightarrow> clock \<Rightarrow> tenant_key \<Rightarrow> 'a task \<Rightarrow> 'a sched \<Rightarrow> locked_end \<times> 'a sched" where
  "reject_locked C clk t task s =
    (if \<not> is_accepting_enqueues (shared s) then (LockedClosed, s)
     else
       let i = shard_index s t;
           sh = shards s ! i;
           shard_was_empty = rings_empty sh;
           ts0 = tenant_entry C t sh (shared s);
           (purge_reason, ts1, g1) = maybe_purge_tenant_before_enqueue C clk ts0 (shared s);
           ran_full_purge = (purge_reason = Some FullPurge);
           limit = unat (max_per_tenant C);
           (ran_full_purge2, ts2, g2) =
             (if limit \<le> total_len ts1 \<and> \<not> ran_full_purge
              then let (_, ts', g') = purge_tenant_for_enqueue clk FullPurge ts1 g1 in (True, ts', g')
              else (ran_full_purge, ts1, g1))
       in if limit \<le> total_len ts2 then (LockedFull TenantFull, put_tenant i t ts2 g2 s)
          else
            let (reserved, ts3, g3) = reserve_or_purge C clk ran_full_purge2 ts2 g2
            in if \<not> reserved then (LockedFull GlobalFull, put_tenant i t ts3 g3 s)
               else let (handle, was_empty, s') = accept_locked i t task ts3 g3 s
                    in (LockedAccepted handle shard_was_empty was_empty, s'))"

definition drop_locked :: "config \<Rightarrow> clock \<Rightarrow> drop_strategy \<Rightarrow> tenant_key \<Rightarrow> 'a task \<Rightarrow> 'a sched \<Rightarrow>
    locked_end \<times> 'a sched" where
  "drop_locked C clk strategy t task s =
    (if \<not> is_accepting_enqueues (shared s) then (LockedClosed, s)
     else
       let i = shard_index s t;
           sh = shards s ! i;
           shard_was_empty = rings_empty sh;
           ts0 = tenant_entry C t sh (shared s);
           (purge_reason, ts1, g1) = maybe_purge_tenant_before_enqueue C clk ts0 (shared s);
           ran_full_purge = (purge_reason = Some FullPurge);
           tenant_full = (unat (max_per_tenant C) \<le> total_len ts1);
           global_full = (unat (max_global C) \<le> queue_len_estimate (stats g1));
           accept = (\<lambda>ts g. let (handle, was_empty, s') = accept_locked i t task ts g s
                            in (LockedAccepted handle shard_was_empty was_empty, s'));
           reserve = (\<lambda>ts g. let (reserved, ts', g') = reserve_or_purge C clk ran_full_purge ts g
                             in if reserved then accept ts' g'
                                else (LockedFull GlobalFull, put_tenant i t ts' (record_reject GlobalFull g') s))
       in if tenant_full \<or> global_full then
            case drop_from_tenant strategy (prio task) ts1 of
              None \<Rightarrow>
                let reason = (if tenant_full then TenantFull else GlobalFull)
                in (LockedFull reason, put_tenant i t ts1 (record_reject reason g1) s)
            | Some (victim, ts2) \<Rightarrow>
                let (was_pending, g2) = take_pending (entry_id victim) (clear_cancelled_marker (entry_id victim) g1)
                in if was_pending then accept ts2 (record_policy_drop g2) else reserve ts2 g2
          else reserve ts1 g1)"

subsection \<open>A thread\<close>

text \<open>
  \<open>ByReject\<close> is \<open>enqueue_reject_with_handle\<close>, \<open>ByAttempt\<close> one \<open>enqueue_try_reject\<close> of the waiting
  enqueue, \<open>ByDrop\<close> is \<open>enqueue_drop_with_handle\<close>. A dequeue is called \<open>Once\<close>, or in the \<open>Loop\<close> of
  \<open>dequeue_blocking\<close> with its \<open>spins\<close> and \<open>observed\<close>.
\<close>

datatype 'a enqueue_call =
    ByReject tenant_key "'a task"
  | ByAttempt tenant_key "'a task"
  | ByDrop drop_strategy tenant_key "'a task"

datatype dequeue_caller = Once | Loop nat nat

datatype 'a thread =
    Idle
  | EnqueueCheck "'a enqueue_call"
  | EnqueueLock "'a enqueue_call"
  | RecordReject reject_reason
  | ActivateSwap nat task_handle bool
  | ActivatePush nat task_handle bool
  | NotifyWork task_handle
  | BlockTop nat
  | DequeueCheck dequeue_caller
  | DequeueCount dequeue_caller
  | DequeuePop dequeue_caller nat
  | DequeueLock dequeue_caller nat nat
  | DequeuePush dequeue_caller nat nat "(tenant_key \<times> 'a task) option"
  | DequeueEnd dequeue_caller
  | BlockClosed nat nat
  | BlockLength nat nat
  | BlockNap
  | BlockSleep nat
  | Ended "'a answer"

fun enqueue_locked :: "config \<Rightarrow> clock \<Rightarrow> 'a enqueue_call \<Rightarrow> 'a sched \<Rightarrow> locked_end \<times> 'a sched" where
  "enqueue_locked C clk (ByReject t task) s = reject_locked C clk t task s"
| "enqueue_locked C clk (ByAttempt t task) s = reject_locked C clk t task s"
| "enqueue_locked C clk (ByDrop strategy t task) s = drop_locked C clk strategy t task s"

fun called_tenant :: "'a enqueue_call \<Rightarrow> tenant_key" where
  "called_tenant (ByReject t task) = t"
| "called_tenant (ByAttempt t task) = t"
| "called_tenant (ByDrop strategy t task) = t"

text \<open>What comes after the shard is activated, after a rejection, after a shard was served.\<close>

definition after_activation :: "task_handle \<Rightarrow> bool \<Rightarrow> 'a thread" where
  "after_activation handle was_empty = (if was_empty then NotifyWork handle else Ended (Accepted handle))"

fun after_rejection :: "'a enqueue_call \<Rightarrow> reject_reason \<Rightarrow> 'a thread" where
  "after_rejection (ByReject t task) reason = RecordReject reason"
| "after_rejection call reason = Ended NotAccepted"

fun after_serving :: "dequeue_caller \<Rightarrow> nat \<Rightarrow> (tenant_key \<times> 'a task) option \<Rightarrow> 'a thread" where
  "after_serving caller remaining None = DequeuePop caller remaining"
| "after_serving caller remaining (Some (t, task)) = Ended (Delivered t task)"

fun thread_turn :: "config \<Rightarrow> clock \<Rightarrow> 'a thread \<Rightarrow> 'a sched \<Rightarrow> 'a thread \<times> 'a sched" where
  "thread_turn C clk (EnqueueCheck call) s =
    (if is_accepting_enqueues (shared s) then (EnqueueLock call, s) else (Ended NotAccepted, s))"
| "thread_turn C clk (EnqueueLock call) s =
    (case enqueue_locked C clk call s of
       (LockedClosed, s1) \<Rightarrow> (Ended NotAccepted, s1)
     | (LockedFull reason, s1) \<Rightarrow> (after_rejection call reason, s1)
     | (LockedAccepted handle shard_was_empty was_empty, s1) \<Rightarrow>
         (if shard_was_empty then ActivateSwap (shard_index s (called_tenant call)) handle was_empty
          else after_activation handle was_empty, s1))"
| "thread_turn C clk (RecordReject reason) s =
    (Ended NotAccepted, s\<lparr>shared := record_reject reason (shared s)\<rparr>)"
| "thread_turn C clk (ActivateSwap i handle was_empty) s =
    (if shard_active s ! i then (after_activation handle was_empty, s)
     else (ActivatePush i handle was_empty, s\<lparr>shard_active := (shard_active s)[i := True]\<rparr>))"
| "thread_turn C clk (ActivatePush i handle was_empty) s =
    (after_activation handle was_empty, s\<lparr>active_shards := ring_push_back (active_shards s) i\<rparr>)"
| "thread_turn C clk (NotifyWork handle) s =
    (Ended (Accepted handle), s\<lparr>shared := notify_all (shared s)\<rparr>)"
| "thread_turn C clk (BlockTop spins) s = (DequeueCheck (Loop spins (signal_current (shared s))), s)"
| "thread_turn C clk (DequeueCheck caller) s =
    (if shutdown_state (shared s) = SHUTDOWN_IMMEDIATE then (Ended (NoTask Closed), s)
     else (DequeueCount caller, s))"
| "thread_turn C clk (DequeueCount caller) s = (DequeuePop caller (ring_len (active_shards s)), s)"
| "thread_turn C clk (DequeuePop caller remaining) s =
    (case remaining of
       0 \<Rightarrow> (DequeueEnd caller, s)
     | Suc left \<Rightarrow>
         (case ring_pop_front (active_shards s) of
            (None, r) \<Rightarrow> (DequeueEnd caller, s\<lparr>active_shards := r\<rparr>)
          | (Some i, r) \<Rightarrow> (DequeueLock caller left i, s\<lparr>active_shards := r\<rparr>)))"
| "thread_turn C clk (DequeueLock caller remaining i) s =
    (let (result, sh, g) = try_dequeue_from_shard clk (shards s ! i) (shared s);
         s1 = s\<lparr>shared := g, shards := (shards s)[i := sh]\<rparr>
     in if shard_has_work sh then (DequeuePush caller remaining i result, s1)
        else (after_serving caller remaining result, s1\<lparr>shard_active := (shard_active s1)[i := False]\<rparr>))"
| "thread_turn C clk (DequeuePush caller remaining i result) s =
    (after_serving caller remaining result, s\<lparr>active_shards := ring_push_back (active_shards s) i\<rparr>)"
| "thread_turn C clk (DequeueEnd caller) s =
    (if should_return_closed (shared s) then (Ended (NoTask Closed), s)
     else (case caller of Once \<Rightarrow> Ended (NoTask Empty) | Loop spins observed \<Rightarrow> BlockClosed spins observed, s))"
| "thread_turn C clk (BlockClosed spins observed) s =
    (if should_return_closed (shared s) then (Ended (NoTask Closed), s) else (BlockLength spins observed, s))"
| "thread_turn C clk (BlockLength spins observed) s =
    (if 0 < queue_len_estimate (stats (shared s)) then
       let spins1 = saturating_add32 spins 1
       in if DEQUEUE_BLOCKING_BACKOFF_SPINS \<le> spins1 then (BlockNap, s) else (BlockTop spins1, s)
     else (BlockSleep observed, s))"
| "thread_turn C clk BlockNap s = (BlockTop 0, s)"
| "thread_turn C clk (BlockSleep observed) s =
    (if wait_again observed (shared s) then (BlockSleep observed, s) else (BlockTop 0, s))"
| "thread_turn C clk Idle s = (Idle, s)"
| "thread_turn C clk (Ended out) s = (Ended out, s)"

subsection \<open>The machine\<close>

text \<open>
  The calls a thread makes. \<open>CallEnqueue\<close> is \<open>enqueue_with_handle\<close> under a policy that does not
  wait; \<open>CallAttempt\<close> is an attempt under the policy that does.
\<close>

datatype 'a call =
    CallEnqueue tenant_key "'a task"
  | CallAttempt tenant_key "'a task"
  | CallDequeue
  | CallBlocking

fun begin_call :: "config \<Rightarrow> 'a call \<Rightarrow> 'a thread" where
  "begin_call C (CallEnqueue t task) =
    (case backpressure_for C t of
       Reject \<Rightarrow> EnqueueCheck (ByReject t task)
     | DropOldestPerTenant \<Rightarrow> EnqueueCheck (ByDrop Oldest t task)
     | DropNewestPerTenant \<Rightarrow> EnqueueCheck (ByDrop Newest t task)
     | Timeout d \<Rightarrow> Ended NotAccepted)"
| "begin_call C (CallAttempt t task) = EnqueueCheck (ByAttempt t task)"
| "begin_call C CallDequeue = DequeueCheck Once"
| "begin_call C CallBlocking = BlockTop 0"

record 'a machine =
  sys :: "'a sched"
  threads :: "'a thread list"

fun at_rest :: "'a thread \<Rightarrow> bool" where
  "at_rest Idle = True"
| "at_rest (Ended out) = True"
| "at_rest th = False"

text \<open>The operations that take no part in the protocol of the active shards stay single steps.\<close>

fun is_control :: "'a op \<Rightarrow> bool" where
  "is_control (EnqueueNow t task) = False"
| "is_control (Attempt t task) = False"
| "is_control Dequeue = False"
| "is_control e = True"

datatype 'a machine_event =
    Start nat "'a call"
  | Go nat
  | Meanwhile "'a op"

fun machine_step :: "config \<Rightarrow> clock \<Rightarrow> 'a machine_event \<Rightarrow> 'a machine \<Rightarrow> 'a machine" where
  "machine_step C clk (Start k call) x =
    (if k < length (threads x) \<and> at_rest (threads x ! k)
     then x\<lparr>threads := (threads x)[k := begin_call C call]\<rparr> else x)"
| "machine_step C clk (Go k) x =
    (if k < length (threads x) then
       let (th, s) = thread_turn C clk (threads x ! k) (sys x)
       in x\<lparr>sys := s, threads := (threads x)[k := th]\<rparr>
     else x)"
| "machine_step C clk (Meanwhile e) x =
    (if is_control e then x\<lparr>sys := snd (exec C clk e (sys x))\<rparr> else x)"

definition machine_run :: "config \<Rightarrow> clock \<Rightarrow> nat \<Rightarrow> 'a machine_event list \<Rightarrow> 'a machine" where
  "machine_run C clk n evs =
    fold (machine_step C clk) evs \<lparr>sys = scheduler_new C, threads = replicate n Idle\<rparr>"

end
