(* ===== verification/Threads_Sound.thy ===== *)
theory Threads_Sound
  imports Threads Scenario
begin

text \<open>
  What holds of the threads between their critical sections: every shard with work is carried
  once, by the active shards or by one thread on its way to put it there; when every thread is
  at rest the invariant of the scheduler holds again; and a call that nobody interrupts is the
  single step that it is elsewhere.
\<close>

subsection \<open>Sections and calls\<close>

definition reordered :: "nat active_ring \<Rightarrow> bool list \<Rightarrow> 'a sched \<Rightarrow> 'a sched" where
  "reordered ar fl s = s\<lparr>active_shards := ar, shard_active := fl\<rparr>"

lemma reordered_simps [simp]:
  "shared (reordered ar fl s) = shared s" "shards (reordered ar fl s) = shards s"
  "active_shards (reordered ar fl s) = ar" "shard_active (reordered ar fl s) = fl"
  "shard_index (reordered ar fl s) t = shard_index s t"
  "put_tenant i t ts g (reordered ar fl s) = reordered ar fl (put_tenant i t ts g s)"
  "(reordered ar fl s)\<lparr>shards := shs\<rparr> = reordered ar fl (s\<lparr>shards := shs\<rparr>)"
  "(reordered ar fl s)\<lparr>shared := g\<rparr> = reordered ar fl (s\<lparr>shared := g\<rparr>)"
  by (simp_all add: reordered_def shard_index_def put_tenant_def Let_def)

lemma accept_split:
  "enqueue_accept i t task e ts g s =
    (let (handle, was_empty, s2) = accept_locked i t task ts g s;
         s3 = (if e then activate_shard i s2 else s2)
     in (handle, if was_empty then s3\<lparr>shared := notify_all (shared s3)\<rparr> else s3))"
  by (simp add: enqueue_accept_def accept_locked_def Let_def split_def)

lemma accept_locked_frame:
  assumes "accept_locked i t task ts g s = (h, w, s')"
  shows "active_shards s' = active_shards s" "shard_active s' = shard_active s"
    "length (shards s') = length (shards s)"
  using assms by (auto simp: accept_locked_def Let_def put_tenant_def split: prod.splits)

lemma accept_locked_reordered:
  "accept_locked i t task ts g (reordered ar fl s) =
    (let (h, w, s') = accept_locked i t task ts g s in (h, w, reordered ar fl s'))"
  by (simp add: accept_locked_def Let_def split_def)

text \<open>The rest of a call after its section, in one step.\<close>

fun finish_section :: "nat \<Rightarrow> locked_end \<Rightarrow> 'a sched \<Rightarrow> task_handle option \<times> 'a sched" where
  "finish_section i (LockedAccepted handle shard_was_empty was_empty) s =
    (let s1 = (if shard_was_empty then activate_shard i s else s)
     in (Some handle, if was_empty then s1\<lparr>shared := notify_all (shared s1)\<rparr> else s1))"
| "finish_section i e s = (None, s)"

fun attempt_handle :: "'a enqueue_attempt \<Rightarrow> task_handle option" where
  "attempt_handle (AttemptEnqueued h) = Some h"
| "attempt_handle r = None"

fun enqueue_handle :: "enqueue_with_handle_result \<Rightarrow> task_handle option" where
  "enqueue_handle (Enqueued h) = Some h"
| "enqueue_handle r = None"

lemma accept_finish:
  assumes "accept_locked i t task ts g s = (h, w, s')"
  shows "enqueue_accept i t task e ts g s = (h, snd (finish_section i (LockedAccepted h e w) s'))"
  by (simp add: accept_split assms Let_def)

lemma reject_split:
  assumes "reject_locked C clk t task s = (e, s')"
  shows "enqueue_try_reject C clk t task s =
    ((case e of LockedClosed \<Rightarrow> AttemptClosed | LockedFull reason \<Rightarrow> AttemptFull task reason
      | LockedAccepted h _ _ \<Rightarrow> AttemptEnqueued h), snd (finish_section (shard_index s t) e s'))"
proof (cases "is_accepting_enqueues (shared s)")
  case False
  with assms show ?thesis by (auto simp: reject_locked_def enqueue_try_reject_def)
next
  case True
  let ?i = "shard_index s t" and ?limit = "unat (max_per_tenant C)"
  let ?ts0 = "tenant_entry C t (shards s ! ?i) (shared s)"
  obtain why ts1 g1 where m: "maybe_purge_tenant_before_enqueue C clk ?ts0 (shared s) = (why, ts1, g1)"
    by (metis prod_cases3)
  obtain full ts2 g2 where f: "(if ?limit \<le> total_len ts1 \<and> why \<noteq> Some FullPurge
      then let (_, ts', g') = purge_tenant_for_enqueue clk FullPurge ts1 g1 in (True, ts', g')
      else (why = Some FullPurge, ts1, g1)) = (full, ts2, g2)"
    by (metis prod_cases3)
  obtain res ts3 g3 where rs: "reserve_or_purge C clk full ts2 g2 = (res, ts3, g3)"
    by (metis prod_cases3)
  obtain h w s2 where a: "accept_locked ?i t task ts3 g3 s = (h, w, s2)" by (metis prod_cases3)
  have "reject_locked C clk t task s =
      (if ?limit \<le> total_len ts2 then (LockedFull TenantFull, put_tenant ?i t ts2 g2 s)
       else if \<not> res then (LockedFull GlobalFull, put_tenant ?i t ts3 g3 s)
       else (LockedAccepted h (rings_empty (shards s ! ?i)) w, s2))"
    by (simp add: reject_locked_def True Let_def m f rs a)
  moreover have "enqueue_try_reject C clk t task s =
      (if ?limit \<le> total_len ts2 then (AttemptFull task TenantFull, put_tenant ?i t ts2 g2 s)
       else if \<not> res then (AttemptFull task GlobalFull, put_tenant ?i t ts3 g3 s)
       else (AttemptEnqueued h, snd (finish_section ?i (LockedAccepted h (rings_empty (shards s ! ?i)) w) s2)))"
    by (simp add: enqueue_try_reject_def True Let_def m f rs accept_finish [OF a])
  ultimately show ?thesis using assms by (auto split: if_splits)
qed

lemma drop_split:
  assumes "drop_locked C clk strategy t task s = (e, s')"
  shows "enqueue_drop_with_handle C clk strategy t task s =
    ((case e of LockedClosed \<Rightarrow> EnqueueClosed | LockedFull reason \<Rightarrow> Rejected reason
      | LockedAccepted h _ _ \<Rightarrow> Enqueued h), snd (finish_section (shard_index s t) e s'))"
proof (cases "is_accepting_enqueues (shared s)")
  case False
  with assms show ?thesis by (auto simp: drop_locked_def enqueue_drop_with_handle_def)
next
  case True
  let ?i = "shard_index s t" and ?limit = "unat (max_per_tenant C)"
  let ?ts0 = "tenant_entry C t (shards s ! ?i) (shared s)" and ?e = "rings_empty (shards s ! shard_index s t)"
  obtain why ts1 g1 where m: "maybe_purge_tenant_before_enqueue C clk ?ts0 (shared s) = (why, ts1, g1)"
    by (metis prod_cases3)
  let ?full = "?limit \<le> total_len ts1 \<or> unat (max_global C) \<le> slots g1"
  let ?answer = "\<lambda>e. case e of LockedClosed \<Rightarrow> EnqueueClosed | LockedFull reason \<Rightarrow> Rejected reason
      | LockedAccepted h _ _ \<Rightarrow> Enqueued h"
  let ?accept = "\<lambda>ts g. case accept_locked ?i t task ts g s of (h, w, s') \<Rightarrow> (LockedAccepted h ?e w, s')"
  let ?reserve = "\<lambda>ts g. case reserve_or_purge C clk (why = Some FullPurge) ts g of (res, ts', g') \<Rightarrow>
      if res then ?accept ts' g' else (LockedFull GlobalFull, put_tenant ?i t ts' (record_reject GlobalFull g') s)"
  have accept: "(case enqueue_accept ?i t task ?e ts g s of (h, s') \<Rightarrow> (Enqueued h, s')) =
      (?answer e, snd (finish_section ?i e s'))" if "?accept ts g = (e, s')" for ts g e s'
  proof -
    obtain h w s2 where a: "accept_locked ?i t task ts g s = (h, w, s2)" by (metis prod_cases3)
    with that show ?thesis by (auto simp: accept_finish [OF a])
  qed
  have reserve: "(case reserve_or_purge C clk (why = Some FullPurge) ts g of (res, ts', g') \<Rightarrow>
      if \<not> res then (Rejected GlobalFull, put_tenant ?i t ts' (record_reject GlobalFull g') s)
      else case enqueue_accept ?i t task ?e ts' g' s of (h, s') \<Rightarrow> (Enqueued h, s')) =
      (?answer e, snd (finish_section ?i e s'))" if "?reserve ts g = (e, s')" for ts g e s'
  proof -
    obtain res ts3 g3 where rs: "reserve_or_purge C clk (why = Some FullPurge) ts g = (res, ts3, g3)"
      by (metis prod_cases3)
    show ?thesis
    proof (cases res)
      case True
      with that rs have "?accept ts3 g3 = (e, s')" by simp
      from accept [OF this] True rs show ?thesis by simp
    qed (use that rs in \<open>auto simp del: record_reject.simps\<close>)
  qed
  note un = enqueue_drop_with_handle_def drop_locked_def Let_def
  consider (room) "\<not> ?full" | (stuck) "?full" "drop_from_tenant strategy (prio task) ts1 = None"
    | (drop) x ts2 where "?full" "drop_from_tenant strategy (prio task) ts1 = Some (x, ts2)"
    by (cases "drop_from_tenant strategy (prio task) ts1") auto
  then show ?thesis
  proof cases
    case room
    with assms True m have "?reserve ts1 g1 = (e, s')" by (simp add: un)
    from reserve [OF this] room True m show ?thesis by (simp add: un cong: if_cong)
  next
    case stuck
    with assms True m show ?thesis by (auto simp: un simp del: record_reject.simps)
  next
    case drop
    obtain was g3 where tp: "take_pending (entry_id x) (clear_cancelled_marker (entry_id x) g1) = (was, g3)"
      by fastforce
    show ?thesis
    proof (cases was)
      case w: True
      with assms True m drop tp have "?accept ts2 (record_policy_drop g3) = (e, s')" by (simp add: un)
      from accept [OF this] w True m drop tp show ?thesis by (simp add: un)
    next
      case w: False
      with assms True m drop tp have "?reserve ts2 g3 = (e, s')" by (simp add: un)
      from reserve [OF this] w True m drop tp show ?thesis by (simp add: un cong: if_cong)
    qed
  qed
qed

lemma reject_locked_reordered:
  "reject_locked C clk t task (reordered ar fl s) =
    (let (e, s') = reject_locked C clk t task s in (e, reordered ar fl s'))"
  by (simp add: reject_locked_def Let_def split_def accept_locked_reordered)

lemma drop_locked_reordered:
  "drop_locked C clk strategy t task (reordered ar fl s) =
    (let (e, s') = drop_locked C clk strategy t task s in (e, reordered ar fl s'))"
  by (simp add: drop_locked_def Let_def split_def accept_locked_reordered split: option.split)

lemma enqueue_locked_reordered:
  "enqueue_locked C clk call (reordered ar fl s) =
    (let (e, s') = enqueue_locked C clk call s in (e, reordered ar fl s'))"
  by (cases call) (simp_all add: reject_locked_reordered drop_locked_reordered)

lemma enqueue_locked_frame:
  assumes "enqueue_locked C clk call s = (e, s')"
  shows "active_shards s' = active_shards s" "shard_active s' = shard_active s"
proof -
  have "reordered (active_shards s) (shard_active s) s = s" by (simp add: reordered_def)
  with enqueue_locked_reordered [of C clk call "active_shards s" "shard_active s" s] assms
  have "s' = reordered (active_shards s) (shard_active s) s'" by simp
  then show "active_shards s' = active_shards s" "shard_active s' = shard_active s"
    by (metis reordered_simps(3), metis reordered_simps(4))
qed

subsection \<open>What a section keeps\<close>

text \<open>
  \<open>core\<close> is the invariant of the scheduler without its part on the active shards. It is the whole
  invariant once the active shards are put in order, so what is known of the calls applies to the
  sections.
\<close>

definition core :: "config \<Rightarrow> 'a sched \<Rightarrow> bool" where
  "core C s \<longleftrightarrow> placed s \<and> (\<forall>i < length (shards s). shard_inv C (shards s ! i)) \<and> ledger s"

definition busy :: "'a sched \<Rightarrow> nat \<Rightarrow> bool" where
  "busy s i \<longleftrightarrow> i < length (shards s) \<and> \<not> rings_empty (shards s ! i)"

lemma sched_ok_core: "sched_ok C s \<longleftrightarrow> core C s \<and> active_inv s"
  by (auto simp: sched_ok_def core_def)

lemma core_cong:
  assumes "core C s" and "shards s' = shards s" "length (shard_active s') = length (shard_active s)"
    and "pending_ids (shared s') = pending_ids (shared s)" "cancelled_ids (shared s') = cancelled_ids (shared s)"
  shows "core C s'"
proof -
  have "sched_queue s' t p = sched_queue s t p" for t p by (simp add: sched_queue_def shard_index_def assms(2))
  then have "ledger s'" using assms(1) by (intro ledger_same [OF _ _ assms(4,5)]) (simp_all add: core_def)
  with assms show ?thesis by (simp add: core_def placed_def shard_index_def)
qed

abbreviation busy_flags :: "'a sched \<Rightarrow> bool list" where
  "busy_flags s \<equiv> map (busy s) [0 ..< length (shards s)]"

lemma arranged:
  assumes "core C s" and "ring_inv ar" "distinct (ring_items ar)" "set (ring_items ar) = {i. busy s i}"
  shows "sched_ok C (reordered ar (busy_flags s) s)"
proof -
  have "core C (reordered ar (busy_flags s) s)"
    by (rule core_cong [OF assms(1)]) (use assms(1) in \<open>simp_all add: core_def placed_def\<close>)
  moreover have "active_inv (reordered ar (busy_flags s) s)"
    using assms(2-4) by (auto simp: active_inv_def busy_def)
  ultimately show ?thesis by (simp add: sched_ok_core)
qed

definition ring_of :: "nat list \<Rightarrow> nat active_ring" where
  "ring_of xs = \<lparr>buf = xs, head = 0\<rparr>"

lemma ring_of [simp]: "ring_items (ring_of xs) = xs" "ring_inv (ring_of xs)"
  by (simp_all add: ring_of_def ring_items_def ring_inv_def)

lemma ordered_ok: "core C s \<Longrightarrow> sched_ok C (reordered (ring_of (filter (busy s) [0 ..< length (shards s)])) (busy_flags s) s)"
  by (rule arranged) (auto simp: busy_def)

lemma busy_active: "active_inv s \<Longrightarrow> i < length (shards s) \<Longrightarrow> busy s i = shard_active s ! i"
  by (simp add: active_inv_def busy_def)

lemma finish_section_frame [simp]:
  "shards (snd (finish_section i e s)) = shards s"
  "pending_ids (shared (snd (finish_section i e s))) = pending_ids (shared s)"
  "cancelled_ids (shared (snd (finish_section i e s))) = cancelled_ids (shared s)"
  "books C k a d c (shared (snd (finish_section i e s))) = books C k a d c (shared s)"
  "shard_active (snd (finish_section i e s)) =
    (case e of LockedAccepted h True w \<Rightarrow> (shard_active s)[i := True] | _ \<Rightarrow> shard_active s)"
proof -
  have b: "books C k a d c (notify_all g) = books C k a d c g" for g
    by (simp add: books_def frame_simps settled_def sampled_def)
  have idem: "shard_active s ! i \<Longrightarrow> (shard_active s)[i := True] = shard_active s"
    using list_update_id [of "shard_active s" i] by simp
  show "shards (snd (finish_section i e s)) = shards s"
    "pending_ids (shared (snd (finish_section i e s))) = pending_ids (shared s)"
    "cancelled_ids (shared (snd (finish_section i e s))) = cancelled_ids (shared s)"
    "books C k a d c (shared (snd (finish_section i e s))) = books C k a d c (shared s)"
    "shard_active (snd (finish_section i e s)) =
      (case e of LockedAccepted h True w \<Rightarrow> (shard_active s)[i := True] | _ \<Rightarrow> shard_active s)"
    by (cases e; auto simp: Let_def activate_shard_def frame_simps b idem split: bool.split)+
qed

lemma section_sound:
  assumes ok: "sched_ok C s" and bk: "books C 0 a d c (shared s)" and a: "a < u64_max"
    and sec: "enqueue_locked C clk call s = (e, s')"
  shows "sched_ok C (snd (finish_section (shard_index s (called_tenant call)) e s'))"
    and "\<exists>a' \<le> Suc a. books C 0 a' d c (shared s')"
proof -
  have "\<exists>V task new. sound_as C clk V a d c (called_tenant call) task new s
      (snd (finish_section (shard_index s (called_tenant call)) e s'))"
  proof (cases call)
    case (ByReject t task)
    with sec enqueue_try_reject_sound [OF ok bk a reject_split] show ?thesis by fastforce
  next
    case (ByAttempt t task)
    with sec enqueue_try_reject_sound [OF ok bk a reject_split] show ?thesis by fastforce
  next
    case (ByDrop strategy t task)
    with sec enqueue_drop_sound [OF ok bk a drop_split] show ?thesis by fastforce
  qed
  then show "sched_ok C (snd (finish_section (shard_index s (called_tenant call)) e s'))"
    and "\<exists>a' \<le> Suc a. books C 0 a' d c (shared s')"
    by (auto simp: sound_as_def split: option.splits intro: exI [of _ a])
qed

lemma enqueue_section:
  assumes co: "core C s" and bk: "books C 0 a d c (shared s)" and a: "a < u64_max"
    and sec: "enqueue_locked C clk call s = (e, s')" and i: "i = shard_index s (called_tenant call)"
  shows "core C s'" and "\<exists>a' \<le> Suc a. books C 0 a' d c (shared s')"
    and "length (shards s') = length (shards s)"
    and "busy s' j \<longleftrightarrow> busy s j \<or> j = i \<and> (\<exists>h w. e = LockedAccepted h True w)"
    and "e = LockedAccepted h True w \<Longrightarrow> \<not> busy s i \<and> i < length (shards s)"
proof -
  let ?ar = "ring_of (filter (busy s) [0 ..< length (shards s)])"
  let ?x = "reordered ?ar (busy_flags s) s" and ?x' = "reordered ?ar (busy_flags s) s'"
  let ?y = "snd (finish_section i e ?x')"
  have sec': "enqueue_locked C clk call ?x = (e, ?x')" using sec by (simp add: enqueue_locked_reordered)
  have i': "shard_index ?x (called_tenant call) = i" using i by simp
  note so = section_sound [OF ordered_ok [OF co] _ a sec', simplified i', simplified, OF bk]
  from so(2) show "\<exists>a' \<le> Suc a. books C 0 a' d c (shared s')" .
  from so(1) have y: "core C ?y" "active_inv ?y" by (simp_all add: sched_ok_core)
  then have len: "length (shard_active ?y) = length (shards s')" by (simp add: core_def placed_def)
  moreover have "length (shard_active ?y) = length (shards s)"
    by (simp split: locked_end.split bool.split)
  ultimately show l: "length (shards s') = length (shards s)" by simp
  have il: "i < length (shards s)" using co shard_index_less i by (auto simp: core_def)
  show "core C s'"
    by (rule core_cong [OF y(1)]) (use len l co enqueue_locked_frame [OF sec] in \<open>simp_all add: core_def placed_def\<close>)
  have e: "e = LockedAccepted h q w \<Longrightarrow> q = rings_empty (shards s ! i)" for h q w
    using sec i by (cases call) (auto simp: reject_locked_def drop_locked_def Let_def split: prod.splits if_splits option.splits)
  then show "e = LockedAccepted h True w \<Longrightarrow> \<not> busy s i \<and> i < length (shards s)"
    using il by (auto simp: busy_def)
  have "busy s' j \<longleftrightarrow> j < length (shards s) \<and> busy ?y j" by (auto simp: busy_def l)
  also have "\<dots> \<longleftrightarrow> j < length (shards s) \<and> shard_active ?y ! j"
    using busy_active [OF y(2)] by (auto simp: l)
  finally show "busy s' j \<longleftrightarrow> busy s j \<or> j = i \<and> (\<exists>h w. e = LockedAccepted h True w)"
    using il by (auto simp: busy_def nth_list_update split: locked_end.splits bool.splits)
qed

lemma dequeue_section:
  assumes co: "core C s" and bk: "books C 0 a d c (shared s)" and i: "busy s i"
    and deq: "try_dequeue_from_shard clk (shards s ! i) (shared s) = (res, sh, g)"
    and s': "shards s' = (shards s)[i := sh]" "shared s' = g" "length (shard_active s') = length (shard_active s)"
  shows "core C s'" and "\<exists>d'. books C 0 a d' c g"
    and "busy s' j = (if j = i then shard_has_work sh else busy s j)"
proof -
  let ?ar = "ring_of (i # filter (\<lambda>j. busy s j \<and> j \<noteq> i) [0 ..< length (shards s)])"
  let ?x = "reordered ?ar (busy_flags s) s"
  have ok: "sched_ok C ?x" using i by (intro arranged [OF co]) (auto simp: busy_def)
  from ring.pop_Cons [of ?ar i] obtain r where pop: "ring_pop_front ?ar = (Some i, r)" by auto
  obtain res' y where y: "serve_shard clk i (?x\<lparr>active_shards := r\<rparr>) = (res', y)" by fastforce
  then have sh: "shards y = (shards s)[i := sh]" and g: "shared y = g"
    and fl: "shard_active y = (if rings_empty sh then (busy_flags s)[i := False] else busy_flags s)"
    by (auto simp: serve_shard_def deq Let_def split: if_splits)
  from serve_shard_sound [OF ok _ y] pop obtain R where oky: "sched_ok C y"
    and R: "takes clk R res' (sched_queue ?x) (shared ?x) (sched_queue y) (shared y)" by auto
  from books_tally_shrink [OF _ takesD(4) [OF R], of C 0 a d c] bk g show "\<exists>d'. books C 0 a d' c g" by auto
  from oky have c: "core C y" "active_inv y" by (simp_all add: sched_ok_core)
  show "core C s'"
    by (rule core_cong [OF c(1)]) (use s' sh g co in \<open>simp_all add: core_def placed_def fl\<close>)
  have "busy s' j \<longleftrightarrow> j < length (shards s) \<and> busy y j" by (auto simp: busy_def s' sh)
  also have "\<dots> \<longleftrightarrow> j < length (shards s) \<and> shard_active y ! j"
    using busy_active [OF c(2)] by (auto simp: sh)
  finally show "busy s' j = (if j = i then shard_has_work sh else busy s j)"
    using i by (auto simp: busy_def fl nth_list_update)
qed

lemma control_reordered:
  assumes "is_control e"
  shows "exec C clk e (reordered ar fl s) = (let (out, s') = exec C clk e s in (out, reordered ar fl s'))"
  using assms
  by (cases e) (auto simp: cancel_def Let_def close_with_mode_def set_tenant_quantum_def clear_tenant_quantum_def
      refresh_tenant_quantum_def set_quantum_provider_def split_def split: option.split)

lemma control_section:
  assumes co: "core C s" and bk: "books C 0 a d c (shared s)" and a: "a < u64_max"
    and e: "is_control e" and call: "exec C clk e s = (out, s')"
  shows "core C s'" and "\<exists>c'. books C 0 a d c' (shared s')" and "busy s' j = busy s j"
    and "active_shards s' = active_shards s" "shard_active s' = shard_active s"
    and "length (shards s') = length (shards s)"
proof -
  let ?ar = "ring_of (filter (busy s) [0 ..< length (shards s)])"
  let ?x = "reordered ?ar (busy_flags s) s" and ?y = "reordered ?ar (busy_flags s) s'"
  have "exec C clk e ?x = (out, ?y)" using call by (simp add: control_reordered [OF e])
  from exec_sound [OF ordered_ok [OF co] _ a this] bk have st: "step_sound C a d c out ?x ?y" by simp
  have "\<not> is_accepted out \<and> \<not> is_delivered out"
  proof (cases e)
    case (Cancel h)
    obtain r s1 where "cancel h s = (r, s1)" by fastforce
    with call Cancel have "out = cancel_output r" by simp
    then show ?thesis by (cases r) simp_all
  qed (use e call in auto)
  with st show "\<exists>c'. books C 0 a d c' (shared s')" by (auto simp: step_sound_def)
  from st have y: "core C ?y" "active_inv ?y" by (simp_all add: step_sound_def sched_ok_core)
  have "reordered (active_shards s) (shard_active s) s = s" by (simp add: reordered_def)
  with control_reordered [OF e, of C clk "active_shards s" "shard_active s" s] call
  have "s' = reordered (active_shards s) (shard_active s) s'" by simp
  then show f: "active_shards s' = active_shards s" "shard_active s' = shard_active s"
    by (metis reordered_simps(3), metis reordered_simps(4))
  from y(1) show l: "length (shards s') = length (shards s)" by (simp add: core_def placed_def)
  show "core C s'"
    by (rule core_cong [OF y(1)]) (use co l f in \<open>simp_all add: core_def placed_def\<close>)
  have "busy s' j \<longleftrightarrow> j < length (shards s) \<and> busy ?y j" by (auto simp: busy_def l)
  also have "\<dots> \<longleftrightarrow> j < length (shards s) \<and> shard_active ?y ! j"
    using busy_active [OF y(2)] by (auto simp: l)
  finally show "busy s' j = busy s j" by (auto simp: busy_def)
qed

subsection \<open>Who carries a shard\<close>

text \<open>
  A thread holds the token of a shard from taking it (out of the active shards, or by setting the
  flag) until it pushes the shard or clears the flag. Before that, an enqueue that found the rings
  empty is on its way to the flag.
\<close>

fun holds :: "nat \<Rightarrow> 'a thread \<Rightarrow> bool" where
  "holds i (ActivatePush j handle was_empty) = (j = i)"
| "holds i (DequeueLock caller remaining j) = (j = i)"
| "holds i (DequeuePush caller remaining j result) = (j = i)"
| "holds i th = False"

fun activates :: "nat \<Rightarrow> 'a thread \<Rightarrow> bool" where
  "activates i (ActivateSwap j handle was_empty) = (j = i)"
| "activates i th = False"

definition queued_times :: "nat \<Rightarrow> 'a sched \<Rightarrow> nat" where
  "queued_times i s = number (\<lambda>j. j = i) (ring_items (active_shards s))"

definition tokens :: "nat \<Rightarrow> 'a machine \<Rightarrow> nat" where
  "tokens i x = queued_times i (sys x) + number (holds i) (threads x)"

definition carriers :: "nat \<Rightarrow> 'a machine \<Rightarrow> nat" where
  "carriers i x = tokens i x + number (activates i) (threads x)"

lemma after_activation_carries [simp]:
  "\<not> holds i (after_activation h w)" "\<not> activates i (after_activation h w)"
  by (simp_all add: after_activation_def)

lemma after_rejection_carries [simp]:
  "\<not> holds i (after_rejection call r)" "\<not> activates i (after_rejection call r)"
  by (cases call; simp)+

lemma after_serving_carries [simp]:
  "\<not> holds i (after_serving caller n result)" "\<not> activates i (after_serving caller n result)"
  by (cases result; auto)+

lemma begin_call_carries [simp]:
  "\<not> holds i (begin_call C call)" "\<not> activates i (begin_call C call)"
  by (cases call; simp split: backpressure_policy.split)+

lemma at_rest_carries_nothing: "at_rest th \<Longrightarrow> \<not> holds i th \<and> \<not> activates i th"
  by (cases th) simp_all

lemma number_append [simp]: "number P (xs @ ys) = number P xs + number P ys"
  by (simp add: number_def)

lemma queued_times_push:
  "ring_inv (active_shards s) \<Longrightarrow>
    queued_times i (s\<lparr>active_shards := ring_push_back (active_shards s) j\<rparr>) = queued_times i s + tick (j = i)"
  by (simp add: queued_times_def)

lemma queued_times_pop:
  "ring_inv (active_shards s) \<Longrightarrow> ring_pop_front (active_shards s) = (Some j, r) \<Longrightarrow>
    queued_times i s = queued_times i (s\<lparr>active_shards := r\<rparr>) + tick (j = i) \<and> ring_inv r"
  using ring.pop_SomeD by (fastforce simp: queued_times_def)

lemma queued_times_cong: "active_shards s' = active_shards s \<Longrightarrow> queued_times i s' = queued_times i s"
  by (simp add: queued_times_def)

lemma busy_cong: "shards s' = shards s \<Longrightarrow> busy s' i = busy s i"
  by (simp add: busy_def)

subsection \<open>One turn\<close>

text \<open>What a turn relies on: an activating thread finds the flag down, a holder finds it up.\<close>

definition turn_ready :: "'a thread \<Rightarrow> 'a sched \<Rightarrow> bool" where
  "turn_ready th s \<longleftrightarrow> ring_inv (active_shards s) \<and>
     (\<forall>i. activates i th \<longrightarrow> busy s i \<and> \<not> shard_active s ! i) \<and> (\<forall>i. holds i th \<longrightarrow> busy s i \<and> shard_active s ! i)"

text \<open>What it does: the invariant stays, and what a shard gains in work it gains in carriers.\<close>

definition booked :: "config \<Rightarrow> nat \<Rightarrow> shared \<Rightarrow> bool" where
  "booked C n g \<longleftrightarrow> (\<exists>a d c. a \<le> n \<and> books C 0 a d c g)"

lemma bookedI: "books C 0 a d c g \<Longrightarrow> a \<le> n \<Longrightarrow> booked C n g"
  unfolding booked_def by blast

definition turn_kept :: "config \<Rightarrow> nat \<Rightarrow> 'a thread \<Rightarrow> 'a sched \<Rightarrow> 'a thread \<Rightarrow> 'a sched \<Rightarrow> bool" where
  "turn_kept C a th s th' s' \<longleftrightarrow> core C s' \<and> booked C (Suc a) (shared s') \<and>
     ring_inv (active_shards s') \<and> length (shards s') = length (shards s) \<and>
     (\<forall>i. tick (busy s' i) + queued_times i s + tick (holds i th) + tick (activates i th) =
          tick (busy s i) + queued_times i s' + tick (holds i th') + tick (activates i th')) \<and>
     (\<forall>i < length (shards s). tick (shard_active s' ! i) + queued_times i s + tick (holds i th) =
          tick (shard_active s ! i) + queued_times i s' + tick (holds i th'))"

lemma turn_kept_shared:
  assumes "core C s" and "booked C (Suc a) (shared s')" and "ring_inv (active_shards s)"
    and "pending_ids (shared s') = pending_ids (shared s)" "cancelled_ids (shared s') = cancelled_ids (shared s)"
    and "shards s' = shards s" "shard_active s' = shard_active s" "active_shards s' = active_shards s"
    and "\<And>i. holds i th' = holds i th" "\<And>i. activates i th' = activates i th"
  shows "turn_kept C a th s th' s'"
proof -
  have "core C s'" by (rule core_cong [OF assms(1)]) (use assms in simp_all)
  with assms busy_cong [OF assms(6)] queued_times_cong [OF assms(8)] show ?thesis by (simp add: turn_kept_def)
qed

lemma turn_kept_idle:
  "core C s \<Longrightarrow> booked C (Suc a) (shared s) \<Longrightarrow> ring_inv (active_shards s) \<Longrightarrow>
    \<forall>i. \<not> holds i th \<and> \<not> activates i th \<and> \<not> holds i th' \<and> \<not> activates i th' \<Longrightarrow> turn_kept C a th s th' s"
  by (rule turn_kept_shared) simp_all

lemma books_notify: "books C k a d c (notify_all g) = books C k a d c g"
  by (simp add: books_def frame_simps settled_def sampled_def)

lemma booked_notify: "booked C n (notify_all g) = booked C n g"
  by (simp add: booked_def books_notify)

lemma turn_enqueue:
  assumes co: "core C s" and bk: "books C 0 a d c (shared s)" and a: "a < u64_max" and ready: "ring_inv (active_shards s)"
    and turn: "thread_turn C clk (EnqueueLock call) s = (th', s')"
  shows "turn_kept C a (EnqueueLock call) s th' s'"
proof -
  let ?i = "shard_index s (called_tenant call)"
  obtain e s1 where sec: "enqueue_locked C clk call s = (e, s1)" by fastforce
  note en = enqueue_section [OF co bk a sec refl]
  note fr = enqueue_locked_frame [OF sec]
  from turn sec have s': "s' = s1" and th': "th' = (case e of LockedClosed \<Rightarrow> Ended NotAccepted
      | LockedFull reason \<Rightarrow> after_rejection call reason
      | LockedAccepted h q w \<Rightarrow> if q then ActivateSwap ?i h w else after_activation h w)"
    by (auto split: locked_end.splits)
  have cq: "queued_times i s' = queued_times i s" for i using fr by (simp add: s' queued_times_def)
  have no: "\<not> holds i th'" for i by (simp add: th' split: locked_end.split)
  have "tick (busy s' i) = tick (busy s i) + tick (activates i th')" for i
  proof (cases "\<exists>h w. e = LockedAccepted h True w")
    case True
    then obtain h w where e: "e = LockedAccepted h True w" by blast
    with en(4) [of i] en(5) [OF e] show ?thesis by (auto simp: s' th')
  next
    case False
    then have "\<not> activates i th'" by (auto simp: th' split: locked_end.split)
    with False en(4) [of i] show ?thesis by (simp add: s')
  qed
  moreover have "booked C (Suc a) (shared s')" using en(2) bookedI s' by metis
  ultimately show ?thesis
    using en(1,3) fr ready no cq by (simp add: turn_kept_def s')
qed

lemma turn_dequeue:
  assumes co: "core C s" and bk: "books C 0 a d c (shared s)" and ready: "turn_ready (DequeueLock caller n i) s"
    and turn: "thread_turn C clk (DequeueLock caller n i) s = (th', s')"
  shows "turn_kept C a (DequeueLock caller n i) s th' s'"
proof -
  from ready have i: "busy s i" "shard_active s ! i" and ri: "ring_inv (active_shards s)" by (simp_all add: turn_ready_def)
  then have il: "i < length (shards s)" "i < length (shard_active s)" using co by (simp_all add: busy_def core_def placed_def)
  obtain res sh g where d: "try_dequeue_from_shard clk (shards s ! i) (shared s) = (res, sh, g)" by (metis prod_cases3)
  from turn d have s': "shards s' = (shards s)[i := sh]" "shared s' = g" "length (shard_active s') = length (shard_active s)"
    and fr: "active_shards s' = active_shards s"
    and fl: "shard_active s' = (if rings_empty sh then (shard_active s)[i := False] else shard_active s)"
    and th: "th' = (if rings_empty sh then after_serving caller n res else DequeuePush caller n i res)"
    by (auto simp: Let_def split: if_splits)
  note de = dequeue_section [OF co bk i(1) d s']
  from de(2) s'(2) have "booked C (Suc a) (shared s')" using bookedI [where a = a] by auto
  then show ?thesis
    using de(1,3) fr ri i il by (auto simp: turn_kept_def s'(1) queued_times_def fl th nth_list_update)
qed

lemma turn_ok:
  assumes co: "core C s" and bk: "books C 0 a d c (shared s)" and a: "a < u64_max" and ready: "turn_ready th s"
    and turn: "thread_turn C clk th s = (th', s')"
  shows "turn_kept C a th s th' s'"
proof -
  from ready have ri: "ring_inv (active_shards s)" by (simp add: turn_ready_def)
  have bk': "booked C (Suc a) (shared s)" using bookedI [OF bk] by simp
  note same = turn_kept_shared [OF co _ ri, of a s' th' th]
  have la: "length (shard_active s) = length (shards s)" using co by (simp add: core_def placed_def)
  show ?thesis
  proof (cases th)
    case (EnqueueLock call)
    with turn_enqueue [OF co bk a ri] turn show ?thesis by blast
  next
    case (DequeueLock caller n i)
    with turn_dequeue [OF co bk] ready turn show ?thesis by blast
  next
    case (RecordReject r)
    have "booked C (Suc a) (record_reject r (shared s))" using bookedI [OF books_reject [OF bk]] by simp
    moreover have "pending_ids (record_reject r (shared s)) = pending_ids (shared s)"
      "cancelled_ids (record_reject r (shared s)) = cancelled_ids (shared s)" by (cases r; simp add: frame_simps)+
    ultimately show ?thesis using turn RecordReject by (intro same) (auto simp del: record_reject.simps)
  next
    case (NotifyWork h)
    with turn bk' show ?thesis by (intro same) (auto simp: frame_simps booked_notify)
  next
    case (ActivateSwap i h w)
    with ready have i: "busy s i" "\<not> shard_active s ! i" by (simp_all add: turn_ready_def)
    with turn ActivateSwap have th': "th' = ActivatePush i h w" and s': "s' = s\<lparr>shard_active := (shard_active s)[i := True]\<rparr>"
      by auto
    have "core C s'" by (rule core_cong [OF co]) (simp_all add: s')
    with bk' ri i la show ?thesis
      by (auto simp: turn_kept_def ActivateSwap th' s' queued_times_def nth_list_update busy_def)
  next
    case (ActivatePush i h w)
    with turn have th': "th' = after_activation h w" and s': "s' = s\<lparr>active_shards := ring_push_back (active_shards s) i\<rparr>"
      by auto
    have "core C s'" by (rule core_cong [OF co]) (simp_all add: s')
    with bk' ri show ?thesis
      by (auto simp: turn_kept_def ActivatePush th' queued_times_push busy_def s')
  next
    case (DequeuePush caller n i res)
    with turn have th': "th' = after_serving caller n res" and s': "s' = s\<lparr>active_shards := ring_push_back (active_shards s) i\<rparr>"
      by auto
    have "core C s'" by (rule core_cong [OF co]) (simp_all add: s')
    with bk' ri show ?thesis
      by (auto simp: turn_kept_def DequeuePush th' queued_times_push busy_def s')
  next
    case (DequeuePop caller n)
    show ?thesis
    proof (cases n)
      case 0
      with turn DequeuePop bk' show ?thesis by (intro same) auto
    next
      case (Suc m)
      from ri show ?thesis
      proof (cases rule: ring.pop_push_cases)
        case empty
        with turn DequeuePop Suc bk' show ?thesis by (intro same) auto
      next
        case (item i r)
        with turn DequeuePop Suc have th': "th' = DequeueLock caller m i" and s': "s' = s\<lparr>active_shards := r\<rparr>" by auto
        have "core C s'" by (rule core_cong [OF co]) (simp_all add: s')
        moreover have "queued_times j s = queued_times j s' + tick (i = j)" for j
          using queued_times_pop [OF ri item(1), of j] by (simp add: s')
        ultimately show ?thesis
          using bk' item(2) by (auto simp: turn_kept_def DequeuePop th' busy_def s')
      qed
    qed
  qed (use turn bk' co ri in \<open>auto simp: Let_def intro!: turn_kept_idle split: if_splits dequeue_caller.splits\<close>)
qed

subsection \<open>Every run\<close>

definition machine_start :: "config \<Rightarrow> nat \<Rightarrow> 'a machine" where
  "machine_start C n = \<lparr>sys = scheduler_new C, threads = replicate n Idle\<rparr>"

lemma machine_run_fold: "machine_run C clk n evs = fold (machine_step C clk) evs (machine_start C n)"
  by (simp add: machine_run_def machine_start_def)

definition machine_ok :: "config \<Rightarrow> nat \<Rightarrow> 'a machine \<Rightarrow> bool" where
  "machine_ok C n x \<longleftrightarrow> core C (sys x) \<and> booked C n (shared (sys x)) \<and> ring_inv (active_shards (sys x)) \<and>
     (\<forall>i. carriers i x = tick (busy (sys x) i)) \<and>
     (\<forall>i < length (shards (sys x)). tokens i x = tick (shard_active (sys x) ! i))"

lemma number_nth_pos: "k < length xs \<Longrightarrow> P (xs ! k) \<Longrightarrow> 0 < number P xs"
  by (rule number_pos [OF nth_mem])

lemma machine_ready:
  assumes ok: "machine_ok C n x" and k: "k < length (threads x)"
  shows "turn_ready (threads x ! k) (sys x)"
proof -
  let ?th = "threads x ! k"
  from ok have ca: "tokens i x + number (activates i) (threads x) = tick (busy (sys x) i)" for i
    by (simp add: machine_ok_def carriers_def)
  have fl: "tokens i x = tick (shard_active (sys x) ! i)" if "busy (sys x) i" for i
    using ok that by (simp add: machine_ok_def busy_def)
  have "busy (sys x) i \<and> \<not> shard_active (sys x) ! i" if "activates i ?th" for i
    using number_nth_pos [of k "threads x" "activates i", OF k that] ca [of i] fl [of i] by (auto split: if_splits)
  moreover have "busy (sys x) i \<and> shard_active (sys x) ! i" if "holds i ?th" for i
    using number_nth_pos [of k "threads x" "holds i", OF k that] ca [of i] fl [of i]
    by (auto simp: tokens_def split: if_splits)
  ultimately show ?thesis using ok by (simp add: turn_ready_def machine_ok_def)
qed

lemma machine_go:
  assumes ok: "machine_ok C n x" and n: "n < u64_max" and k: "k < length (threads x)"
  shows "machine_ok C (Suc n) (machine_step C clk (Go k) x)"
proof -
  let ?th = "threads x ! k" and ?s = "sys x"
  from ok obtain a d c where co: "core C ?s" and a: "a \<le> n" and bk: "books C 0 a d c (shared ?s)"
    by (auto simp: machine_ok_def booked_def)
  obtain th' s' where t: "thread_turn C clk ?th ?s = (th', s')" by fastforce
  from a n have "a < u64_max" by simp
  note kept = turn_ok [OF co bk this machine_ready [OF ok k] t, unfolded turn_kept_def]
  let ?x = "x\<lparr>sys := s', threads := (threads x)[k := th']\<rparr>"
  have step: "machine_step C clk (Go k) x = ?x" using k t by simp
  from kept have len: "length (shards s') = length (shards ?s)" by blast
  have h: "number (holds i) (threads ?x) + tick (holds i ?th) = number (holds i) (threads x) + tick (holds i th')" for i
    using number_update [OF k, of "holds i" th'] by simp
  have ac: "number (activates i) (threads ?x) + tick (activates i ?th) =
      number (activates i) (threads x) + tick (activates i th')" for i
    using number_update [OF k, of "activates i" th'] by simp
  have "carriers i ?x = tick (busy s' i)" for i
  proof -
    from kept have "tick (busy s' i) + queued_times i ?s + tick (holds i ?th) + tick (activates i ?th) =
      tick (busy ?s i) + queued_times i s' + tick (holds i th') + tick (activates i th')" by blast
    moreover from ok have "carriers i x = tick (busy ?s i)" by (simp add: machine_ok_def)
    ultimately show ?thesis using h [of i] ac [of i] unfolding carriers_def tokens_def by simp
  qed
  moreover have "tokens i ?x = tick (shard_active s' ! i)" if "i < length (shards s')" for i
  proof -
    from kept that len have "tick (shard_active s' ! i) + queued_times i ?s + tick (holds i ?th) =
      tick (shard_active ?s ! i) + queued_times i s' + tick (holds i th')" by metis
    moreover from ok that len have "tokens i x = tick (shard_active ?s ! i)" by (simp add: machine_ok_def)
    ultimately show ?thesis using h [of i] unfolding tokens_def by simp
  qed
  moreover from kept a have "booked C (Suc n) (shared s')" by (auto simp: booked_def intro: order_trans)
  ultimately show ?thesis unfolding step using kept by (simp add: machine_ok_def)
qed

interpretation machines: counted_system "machine_start C k :: 'a machine" "machine_step C clk" "machine_ok C" u64_max
  for C clk k
proof unfold_locales
  have ok: "sched_ok C (scheduler_new C :: 'a sched)" by (rule scheduler_new_ok)
  then have r: "rings_empty (shards (scheduler_new C :: 'a sched) ! i)"
    if "i < length (shards (scheduler_new C :: 'a sched))" for i
    using that by (simp add: scheduler_new_def Let_def)
  have "ring_items (active_shards (scheduler_new C :: 'a sched)) = []" by (simp add: scheduler_new_def Let_def)
  then show "machine_ok C 0 (machine_start C k :: 'a machine)"
    using ok r bookedI [OF scheduler_new_books]
    by (auto simp: machine_ok_def machine_start_def sched_ok_core carriers_def tokens_def queued_times_def
        number_replicate busy_def active_inv_def)
  fix n and x :: "'a machine" and e
  assume ok: "machine_ok C n x" and n: "n < u64_max"
  have weak: "machine_ok C (Suc n) x"
    using ok unfolding machine_ok_def booked_def by (metis le_SucI)
  show "machine_ok C (Suc n) (machine_step C clk e x)"
  proof (cases e)
    case (Start j call)
    show ?thesis
    proof (cases "j < length (threads x) \<and> at_rest (threads x ! j)")
      case True
      have "number P ((threads x)[j := begin_call C call]) = number P (threads x)"
        if "P = holds i \<or> P = activates i" for P i
        using number_update [of j "threads x" P "begin_call C call"] at_rest_carries_nothing [of "threads x ! j" i]
          True that by auto
      then have "number (holds i) ((threads x)[j := begin_call C call]) = number (holds i) (threads x)"
        "number (activates i) ((threads x)[j := begin_call C call]) = number (activates i) (threads x)" for i by blast+
      with weak True Start show ?thesis by (simp add: machine_ok_def carriers_def tokens_def)
    qed (use weak Start in auto)
  next
    case (Go j)
    with machine_go [OF ok n] weak show ?thesis by (cases "j < length (threads x)") auto
  next
    case (Meanwhile c)
    obtain out s' where call: "exec C clk c (sys x) = (out, s')" by fastforce
    from ok obtain a d b where co: "core C (sys x)" and a: "a \<le> n" and bk: "books C 0 a d b (shared (sys x))"
      by (auto simp: machine_ok_def booked_def)
    from a n have "a < u64_max" by simp
    note co' = control_section [OF co bk this _ call]
    show ?thesis
    proof (cases "is_control c")
      case True
      from co'(2) [OF True] a have "booked C (Suc n) (shared s')" by (auto intro: bookedI)
      with weak Meanwhile True call co' [OF True] show ?thesis
        by (simp add: machine_ok_def carriers_def tokens_def queued_times_def)
    qed (use weak Meanwhile in simp)
  qed
qed

lemma machine_inv:
  assumes "length evs \<le> u64_max" and "machine_run C clk n evs = x"
  shows "machine_ok C (length evs) x"
  using machines.inv_run [OF assms(1), of C clk n] assms(2) by (simp add: machine_run_fold)

text \<open>
  C16: However the critical sections of any number of calls interleave, a shard with queued tenants
  is carried exactly once (in the active shards, or by one thread between two sections) and a
  shard without is carried by nobody; its flag is up while its token is out. So no shard with
  work is forgotten and none is served through two entries.
\<close>

theorem shard_carried_once:
  assumes "machine_run C clk n evs = x" and "length evs \<le> u64_max" and "i < length (shards (sys x))"
  shows "number (\<lambda>j. j = i) (ring_items (active_shards (sys x))) + number (holds i) (threads x) +
      number (activates i) (threads x) = (if rings_empty (shards (sys x) ! i) then 0 else 1) \<and>
    (shard_active (sys x) ! i \<longleftrightarrow>
      0 < number (\<lambda>j. j = i) (ring_items (active_shards (sys x))) + number (holds i) (threads x))"
proof -
  from machine_inv [OF assms(2,1)] have "carriers i x = tick (busy (sys x) i)"
    "tokens i x = tick (shard_active (sys x) ! i)" using assms(3) by (simp_all add: machine_ok_def)
  then show ?thesis
    using assms(3) by (auto simp: carriers_def tokens_def queued_times_def busy_def)
qed

lemma number_one: "number P xs = 0 \<longleftrightarrow> (\<forall>x \<in> set xs. \<not> P x)"
  by (induction xs) auto

lemma distinct_number: "(\<And>j. number (\<lambda>k. k = j) xs \<le> 1) \<Longrightarrow> distinct xs"
proof (induction xs)
  case (Cons x xs)
  have "number (\<lambda>k. k = j) xs \<le> 1" for j using Cons.prems [of j] by (auto split: if_splits)
  with Cons.IH have "distinct xs" by blast
  moreover have "number (\<lambda>k. k = x) xs = 0" using Cons.prems [of x] by simp
  then have "x \<notin> set xs" by (auto simp: number_one)
  ultimately show ?case by simp
qed simp

lemma rest_active_inv:
  assumes ok: "machine_ok C n x" and rest: "\<forall>th \<in> set (threads x). at_rest th"
  shows "active_inv (sys x)"
proof -
  let ?s = "sys x" and ?q = "ring_items (active_shards (sys x))"
  have no: "number (holds i) (threads x) = 0" "number (activates i) (threads x) = 0" for i
    using rest at_rest_carries_nothing by (auto simp: number_one)
  have q: "number (\<lambda>j. j = i) ?q = tick (busy ?s i)" for i
    using ok no by (simp add: machine_ok_def carriers_def tokens_def queued_times_def)
  have fl: "number (\<lambda>j. j = i) ?q = tick (shard_active ?s ! i)" if "i < length (shards ?s)" for i
  proof -
    from ok that have "tokens i x = tick (shard_active ?s ! i)" by (simp add: machine_ok_def)
    with no show ?thesis by (simp add: tokens_def queued_times_def)
  qed
  have "distinct ?q" using q by (intro distinct_number) simp
  moreover have "i \<in> set ?q \<longleftrightarrow> busy ?s i" for i
  proof -
    have "i \<notin> set ?q \<longleftrightarrow> number (\<lambda>j. j = i) ?q = 0" by (auto simp: number_one)
    also have "\<dots> \<longleftrightarrow> \<not> busy ?s i" by (simp add: q)
    finally show ?thesis by blast
  qed
  moreover have "shard_active ?s ! i \<longleftrightarrow> busy ?s i" if "i < length (shards ?s)" for i
  proof -
    have "tick (shard_active ?s ! i) = tick (busy ?s i)" by (rule trans [OF sym [OF fl [OF that]] q])
    then show ?thesis by (simp split: if_splits)
  qed
  ultimately show ?thesis
    using ok by (auto simp: active_inv_def machine_ok_def busy_def)
qed

text \<open>
  C17: The books balance at every point of an interleaving, between sections too: a slot for every
  pending task, never more than the global limit. And once every thread is at rest, the whole
  invariant of the scheduler holds, the one that every run of uninterrupted calls keeps and that
  the properties of the calls rest on.
\<close>

theorem interleaving_restores_invariant:
  assumes "machine_run C clk n evs = x" and "length evs \<le> u64_max"
  shows "slots (shared (sys x)) = card (pending_ids (shared (sys x))) \<and>
    slots (shared (sys x)) \<le> unat (max_global C) \<and>
    (list_all at_rest (threads x) \<longrightarrow> sched_ok C (sys x))"
proof -
  note ok = machine_inv [OF assms(2,1)]
  then obtain a d c where "books C 0 a d c (shared (sys x))" by (auto simp: machine_ok_def booked_def)
  then show ?thesis
    using rest_active_inv [OF ok] ok by (simp add: books_def sched_ok_core machine_ok_def list_all_iff)
qed

subsection \<open>A call that nobody interrupts\<close>

fun call_op :: "'a call \<Rightarrow> 'a op" where
  "call_op (CallEnqueue t task) = EnqueueNow t task"
| "call_op (CallAttempt t task) = Attempt t task"
| "call_op c = Dequeue"

definition alone :: "config \<Rightarrow> clock \<Rightarrow> nat \<Rightarrow> 'a thread \<times> 'a sched \<Rightarrow> 'a thread \<times> 'a sched" where
  "alone C clk n x = ((\<lambda>(th, s). thread_turn C clk th s) ^^ n) x"

definition reaches :: "config \<Rightarrow> clock \<Rightarrow> nat \<Rightarrow> 'a thread \<times> 'a sched \<Rightarrow> 'a thread \<times> 'a sched \<Rightarrow> bool" where
  "reaches C clk k x y \<longleftrightarrow> (\<exists>n \<le> k. alone C clk n x = y)"

lemma reaches_refl: "reaches C clk k x x"
  unfolding reaches_def alone_def by (rule exI [of _ 0]) simp

lemma reaches_turn:
  assumes "thread_turn C clk th s = x" and "reaches C clk k x y"
  shows "reaches C clk (Suc k) (th, s) y"
proof -
  from assms(2) obtain n where n: "n \<le> k" "alone C clk n x = y" unfolding reaches_def by blast
  have "alone C clk (Suc n) (th, s) = alone C clk n (thread_turn C clk th s)"
    by (simp add: alone_def funpow_swap1)
  with n assms(1) show ?thesis unfolding reaches_def by (intro exI [of _ "Suc n"]) simp
qed

lemma reaches_trans:
  assumes "reaches C clk k x y" and "reaches C clk m y z"
  shows "reaches C clk (k + m) x z"
proof -
  from assms obtain n n' where "n \<le> k" "alone C clk n x = y" "n' \<le> m" "alone C clk n' y = z"
    unfolding reaches_def by blast
  moreover have "alone C clk (n' + n) x = alone C clk n' (alone C clk n x)" by (simp add: alone_def funpow_add)
  ultimately show ?thesis unfolding reaches_def by (intro exI [of _ "n' + n"]) simp
qed

lemma reaches_more: "reaches C clk k x y \<Longrightarrow> k \<le> m \<Longrightarrow> reaches C clk m x y"
  unfolding reaches_def by (elim exE conjE) (rule exI, rule conjI, erule order_trans)

lemmas turnI = reaches_turn [OF refl]

lemma notified_alone:
  "reaches C clk 1 (after_activation h w, s)
    (Ended (Accepted h), if w then s\<lparr>shared := notify_all (shared s)\<rparr> else s)"
proof (cases w)
  case True
  have "reaches C clk (Suc 0) (NotifyWork h, s) (Ended (Accepted h), s\<lparr>shared := notify_all (shared s)\<rparr>)"
    by (rule turnI) (simp add: reaches_refl)
  with True show ?thesis by (simp add: after_activation_def)
qed (simp add: after_activation_def reaches_refl)

lemma accepted_alone:
  "reaches C clk 3 (if q then ActivateSwap i h w else after_activation h w, s)
    (Ended (Accepted h), snd (finish_section i (LockedAccepted h q w) s))"
proof -
  let ?s = "if q then activate_shard i s else s"
  have *: "reaches C clk 1 (after_activation h w, ?s) (Ended (Accepted h), snd (finish_section i (LockedAccepted h q w) s))"
    using notified_alone [of C clk h w ?s] by (simp add: Let_def)
  show ?thesis
  proof (cases q)
    case False
    with reaches_more [OF *] show ?thesis by simp
  next
    case True
    let ?stop = "(Ended (Accepted h), snd (finish_section i (LockedAccepted h q w) s))"
    have "reaches C clk (Suc 2) (ActivateSwap i h w, s) ?stop"
    proof (rule turnI)
      show "reaches C clk 2 (thread_turn C clk (ActivateSwap i h w) s) ?stop"
      proof (cases "shard_active s ! i")
        case active: True
        with True * have "reaches C clk 1 (after_activation h w, s) ?stop" by (simp add: activate_shard_def)
        from reaches_more [OF this] active show ?thesis by simp
      next
        case False
        let ?s1 = "s\<lparr>shard_active := (shard_active s)[i := True]\<rparr>"
        from True False * have "reaches C clk (Suc 1) (ActivatePush i h w, ?s1) ?stop"
          by (intro turnI) (simp add: activate_shard_def)
        with False show ?thesis by (simp add: numeral_2_eq_2)
      qed
    qed
    with True show ?thesis by (simp add: numeral_3_eq_3 numeral_2_eq_2)
  qed
qed

lemma locked_alone:
  assumes "enqueue_locked C clk call s = (e, s')" and "is_accepting_enqueues (shared s)"
  shows "reaches C clk 5 (EnqueueCheck call, s)
    (case e of LockedClosed \<Rightarrow> (Ended NotAccepted, s')
     | LockedFull reason \<Rightarrow> (Ended NotAccepted,
         case call of ByReject t task \<Rightarrow> s'\<lparr>shared := record_reject reason (shared s')\<rparr> | _ \<Rightarrow> s')
     | LockedAccepted h q w \<Rightarrow> (Ended (Accepted h), snd (finish_section (shard_index s (called_tenant call)) e s')))"
    (is "reaches C clk 5 _ ?stop")
proof -
  have "reaches C clk (Suc (Suc 3)) (EnqueueCheck call, s) ?stop"
  proof (intro turnI)
    have "reaches C clk (Suc 3) (EnqueueLock call, s) ?stop"
    proof (rule turnI, cases e)
      case (LockedFull reason)
      then show "reaches C clk 3 (thread_turn C clk (EnqueueLock call) s) ?stop"
      proof (cases call)
        case (ByReject t task)
        have "reaches C clk (Suc 2) (RecordReject reason, s') (Ended NotAccepted, s'\<lparr>shared := record_reject reason (shared s')\<rparr>)"
          by (rule turnI) (simp add: reaches_refl del: record_reject.simps)
        with ByReject LockedFull assms(1) show ?thesis by (simp add: numeral_3_eq_3 numeral_2_eq_2 del: record_reject.simps)
      qed (use LockedFull assms(1) in \<open>simp_all add: reaches_refl\<close>)
    next
      case (LockedAccepted h q w)
      with assms(1) accepted_alone [of C clk q "shard_index s (called_tenant call)" h w s']
      show "reaches C clk 3 (thread_turn C clk (EnqueueLock call) s) ?stop" by simp
    qed (use assms(1) in \<open>simp add: reaches_refl\<close>)
    with assms(2) show "reaches C clk (Suc 3) (thread_turn C clk (EnqueueCheck call) s) ?stop" by simp
  qed
  then show ?thesis by simp
qed

lemma serve_alone:
  assumes "serve_shards n clk s = (res, s')"
  shows "reaches C clk (3 * n + 1) (DequeuePop Once n, s)
    (case res of Some (t, task) \<Rightarrow> (Ended (Delivered t task), s') | None \<Rightarrow> (DequeueEnd Once, s'))"
    (is "reaches C clk _ _ (?stop res s')")
  using assms
proof (induction n arbitrary: s)
  case 0
  then show ?case by (auto intro!: reaches_turn [where k = 0] reaches_refl)
next
  case (Suc n)
  obtain x r where pop: "ring_pop_front (active_shards s) = (x, r)" by fastforce
  show ?case
  proof (cases x)
    case None
    with pop Suc.prems have "thread_turn C clk (DequeuePop Once (Suc n)) s = ?stop res s'" by auto
    from reaches_turn [OF this reaches_refl, of 0] show ?thesis by (rule reaches_more) simp
  next
    case (Some i)
    let ?s = "s\<lparr>active_shards := r\<rparr>"
    obtain found1 sh g where d: "try_dequeue_from_shard clk (shards s ! i) (shared s) = (found1, sh, g)" by (metis prod_cases3)
    obtain res1 s1 where sv: "serve_shard clk i ?s = (res1, s1)" by fastforce
    then have res1: "res1 = found1" by (auto simp: serve_shard_def d Let_def)
    have one: "reaches C clk (Suc 1) (DequeueLock Once n i, ?s) (after_serving Once n found1, s1)"
    proof (rule turnI, cases "rings_empty sh")
      case True
      with sv show "reaches C clk 1 (thread_turn C clk (DequeueLock Once n i) ?s) (after_serving Once n found1, s1)"
        by (simp add: serve_shard_def d Let_def reaches_refl)
    next
      case False
      let ?s2 = "s\<lparr>active_shards := r, shared := g, shards := (shards s)[i := sh]\<rparr>"
      have "reaches C clk (Suc 0) (DequeuePush Once n i found1, ?s2) (after_serving Once n found1, s1)"
        using False sv by (intro turnI) (simp add: serve_shard_def d Let_def reaches_refl)
      with False show "reaches C clk 1 (thread_turn C clk (DequeueLock Once n i) ?s) (after_serving Once n found1, s1)"
        by (simp add: d Let_def)
    qed
    have "thread_turn C clk (DequeuePop Once (Suc n)) s = (DequeueLock Once n i, ?s)" using pop Some by simp
    note three = reaches_turn [OF this one]
    show ?thesis
    proof (cases found1)
      case None
      with Suc.prems pop Some sv res1 have "serve_shards n clk s1 = (res, s')" by simp
      from reaches_trans [OF three [unfolded None after_serving.simps] Suc.IH [OF this]] show ?thesis
        by (rule reaches_more) simp
    next
      case f: (Some y)
      obtain t task where y: "y = (t, task)" by fastforce
      with Suc.prems pop Some sv res1 f have "res = found1" "s' = s1" by simp_all
      with f y three show ?thesis by (auto intro: reaches_more)
    qed
  qed
qed

lemma closed_alone:
  "\<not> is_accepting_enqueues (shared s) \<Longrightarrow> reaches C clk 1 (EnqueueCheck call, s) (Ended NotAccepted, s)"
  using turnI [of C clk 0 "EnqueueCheck call" s "(Ended NotAccepted, s)"] by (simp add: reaches_refl)

lemma enqueue_alone:
  assumes "exec C clk (call_op call) s = (out, s')" and "begin_call C call = EnqueueCheck ec"
  shows "reaches C clk 5 (EnqueueCheck ec, s) (Ended out, s')"
proof (cases "is_accepting_enqueues (shared s)")
  case False
  have "exec C clk (call_op call) s = (NotAccepted, s)"
    using assms(2) False
    by (cases call) (auto simp: enqueue_now_def enqueue_reject_with_handle_def enqueue_try_reject_def
        enqueue_drop_with_handle_def split: backpressure_policy.splits)
  with assms(1) closed_alone [OF False, of C clk ec] show ?thesis by (auto intro: reaches_more)
next
  case True
  obtain e s1 where sec: "enqueue_locked C clk ec s = (e, s1)" by fastforce
  note la = locked_alone [OF sec True]
  let ?fin = "snd (finish_section (shard_index s (called_tenant ec)) e s1)"
  have "(out, s') = (case e of LockedClosed \<Rightarrow> (NotAccepted, s1)
     | LockedFull reason \<Rightarrow> (NotAccepted,
         case ec of ByReject t task \<Rightarrow> s1\<lparr>shared := record_reject reason (shared s1)\<rparr> | _ \<Rightarrow> s1)
     | LockedAccepted h q w \<Rightarrow> (Accepted h, ?fin))"
  proof (cases ec)
    case (ByReject t task)
    with assms(2) have "call = CallEnqueue t task" "backpressure_for C t = Reject"
      by (cases call; simp split: backpressure_policy.splits)+
    with assms(1) ByReject sec reject_split [of C clk t task s e s1] show ?thesis
      by (auto simp: enqueue_now_def enqueue_reject_with_handle_def simp del: record_reject.simps split: locked_end.splits)
  next
    case (ByAttempt t task)
    with assms(2) have "call = CallAttempt t task"
      by (cases call; simp split: backpressure_policy.splits)
    with assms(1) ByAttempt sec reject_split [of C clk t task s e s1] show ?thesis by (auto split: locked_end.splits)
  next
    case (ByDrop strategy t task)
    with assms(2) have "call = CallEnqueue t task"
      "backpressure_for C t = (case strategy of Oldest \<Rightarrow> DropOldestPerTenant | Newest \<Rightarrow> DropNewestPerTenant)"
      by (cases call; auto split: backpressure_policy.splits)+
    with assms(1) ByDrop sec drop_split [of C clk strategy t task s e s1] show ?thesis
      by (auto simp: enqueue_now_def split: locked_end.splits drop_strategy.splits)
  qed
  with la show ?thesis by (cases e) auto
qed

text \<open>
  The sections put together are the call: a thread that runs alone, from the start of a call to
  its answer, gives the answer and leaves the state of the single step that the call is in every
  other part of the development, within three turns for each active shard and six more.
\<close>

theorem uninterrupted_call_is_one_step:
  assumes "exec C clk (call_op call) s = (out, s')" and "call \<noteq> CallBlocking"
  shows "\<exists>n \<le> 3 * ring_len (active_shards s) + 6. alone C clk n (begin_call C call, s) = (Ended out, s')"
proof -
  have "reaches C clk (3 * ring_len (active_shards s) + 6) (begin_call C call, s) (Ended out, s')"
  proof (cases "\<exists>ec. begin_call C call = EnqueueCheck ec")
    case True
    with enqueue_alone [OF assms(1)] show ?thesis by (auto intro: reaches_more)
  next
    case False
    show ?thesis
    proof (cases "call = CallDequeue")
      case False
      with \<open>\<nexists>ec. begin_call C call = EnqueueCheck ec\<close> assms(2) have
        "begin_call C call = Ended NotAccepted" "exec C clk (call_op call) s = (NotAccepted, s)"
        by (cases call; auto simp: enqueue_now_def split: backpressure_policy.splits)+
      with assms(1) show ?thesis by (simp add: reaches_refl)
    next
      case True
      show ?thesis
      proof (cases "shutdown_state (shared s) = 2")
        case closed: True
        with True assms(1) have "out = NoTask Closed" "s' = s" by (auto simp: try_dequeue_def)
        with closed have "reaches C clk (Suc 0) (DequeueCheck Once, s) (Ended out, s')"
          by (intro turnI) (simp add: reaches_refl)
        with True show ?thesis by (auto intro: reaches_more)
      next
        case False
        let ?n = "ring_len (active_shards s)"
        obtain res s1 where sv: "serve_shards ?n clk s = (res, s1)" by fastforce
        have stop: "reaches C clk (Suc 0) (DequeueEnd Once, s1)
            (Ended (NoTask (if should_return_closed (shared s1) then Closed else Empty)), s1)"
          by (rule turnI) (simp add: reaches_refl)
        have "reaches C clk (3 * ?n + 1 + 1) (DequeuePop Once ?n, s) (Ended out, s')"
        proof (cases res)
          case None
          with True False sv assms(1) have r: "out = NoTask (if should_return_closed (shared s1) then Closed else Empty)" "s' = s1"
            by (auto simp: try_dequeue_def split: if_splits)
          from None serve_alone [OF sv, of C]
          have "reaches C clk (3 * ?n + 1) (DequeuePop Once ?n, s) (DequeueEnd Once, s1)" by simp
          from reaches_trans [OF this stop] r show ?thesis by simp
        next
          case (Some y)
          obtain t task where "y = (t, task)" by fastforce
          with Some True False sv assms(1) serve_alone [OF sv, of C] show ?thesis
            by (auto simp: try_dequeue_def intro: reaches_more)
        qed
        then have "reaches C clk (Suc (3 * ?n + 1 + 1)) (DequeueCount Once, s) (Ended out, s')"
          using reaches_turn [of C clk "DequeueCount Once" s] by simp
        then have "reaches C clk (Suc (Suc (3 * ?n + 1 + 1))) (DequeueCheck Once, s) (Ended out, s')"
          using False reaches_turn [of C clk "DequeueCheck Once" s] by simp
        with True show ?thesis by (auto intro: reaches_more)
      qed
    qed
  qed
  then show ?thesis by (simp add: reaches_def)
qed

subsection \<open>Three threads\<close>

lemma three_threads: "[a, b, c][2 := v] = [a, b, v]" "replicate 3 v = [v, v, v]"
  by (simp_all add: numeral_2_eq_2 numeral_3_eq_3)

lemmas eval_threads = machine_run_def accept_locked_def reject_locked_def drop_locked_def after_activation_def
  signal_current_def wait_again_def DEQUEUE_BLOCKING_BACKOFF_SPINS_def three_threads

text \<open>One enqueue up to its swap of the flag, and up to its end.\<close>

abbreviation first_enqueue :: "nat machine_event list" where
  "first_enqueue \<equiv> [Start 0 (CallEnqueue tenant7 (demo_task 1)), Go 0, Go 0, Go 0]"

theorem shard_carried_once_witness:
  "\<exists>x. machine_run demo_config demo_clock 3 first_enqueue = x \<and> \<not> rings_empty (shards (sys x) ! 0) \<and>
    threads x = [ActivatePush 0 (TaskHandle 1) True, Idle, Idle] \<and> ring_items (active_shards (sys x)) = []"
proof -
  define x where "x = machine_run demo_config demo_clock 3 first_enqueue"
  have t: "threads x = [ActivatePush 0 (TaskHandle 1) True, Idle, Idle]" and r: "active_shards (sys x) = ring_new"
    and l: "0 < length (shards (sys x))"
    by (simp_all add: x_def eval eval_threads)
  have "machine_run demo_config demo_clock 3 first_enqueue = x" by (simp only: x_def)
  moreover have "number (holds 0) (threads x) = 1" by (simp add: t)
  with shard_carried_once [OF x_def [symmetric] _ l] have "\<not> rings_empty (shards (sys x) ! 0)"
    by (simp split: if_splits)
  ultimately show ?thesis using t r by simp
qed

theorem interleaving_restores_invariant_witness:
  "\<exists>x. machine_run demo_config demo_clock 3 (first_enqueue @ [Start 1 CallDequeue, Go 1, Go 1, Go 0, Go 1, Go 0, Go 1]) = x \<and>
    list_all at_rest (threads x) \<and> sched_ok demo_config (sys x)"
proof -
  let ?evs = "first_enqueue @ [Start 1 CallDequeue, Go 1, Go 1, Go 0, Go 1, Go 0, Go 1]"
  define x where "x = machine_run demo_config demo_clock 3 ?evs"
  have "threads x = [Ended (Accepted (TaskHandle 1)), Ended (NoTask Empty), Idle]"
    by (simp add: x_def eval eval_threads)
  then have "list_all at_rest (threads x)" by simp
  moreover from this interleaving_restores_invariant [OF x_def [symmetric]] have "sched_ok demo_config (sys x)" by simp
  moreover have "machine_run demo_config demo_clock 3 ?evs = x" by (simp only: x_def)
  ultimately show ?thesis by blast
qed

theorem uninterrupted_call_is_one_step_witness:
  "\<exists>n \<le> 6. \<exists>s. alone demo_config demo_clock n (begin_call demo_config (CallEnqueue tenant7 (demo_task 1)), scheduler_new demo_config) =
    (Ended (Accepted (TaskHandle 1)), s)"
proof -
  obtain out s where e: "exec demo_config demo_clock (call_op (CallEnqueue tenant7 (demo_task 1))) (scheduler_new demo_config) = (out, s)"
    by fastforce
  then have "out = Accepted (TaskHandle 1)" by (auto simp: eval)
  moreover have "ring_len (active_shards (scheduler_new demo_config :: nat sched)) = 0" by (simp add: eval)
  moreover from uninterrupted_call_is_one_step [OF e] obtain n
    where "n \<le> 3 * ring_len (active_shards (scheduler_new demo_config :: nat sched)) + 6"
      "alone demo_config demo_clock n (begin_call demo_config (CallEnqueue tenant7 (demo_task 1)), scheduler_new demo_config) =
        (Ended out, s)" by blast
  ultimately have "n \<le> 6" and "alone demo_config demo_clock n (begin_call demo_config (CallEnqueue tenant7 (demo_task 1)), scheduler_new demo_config) =
    (Ended (Accepted (TaskHandle 1)), s)" by (simp_all only: mult_0_right add_0)
  then show ?thesis by blast
qed

text \<open>
  A wake-up that is lost. The one task of a queue is cancelled, its entry stays in the queue and no
  slot is taken. Thread 1 polls and has taken the shard out of the active shards; thread 2, in
  \<open>dequeue_blocking\<close>, finds no active shard and no slot taken and waits without a time limit; thread 0
  enqueues behind the dead entry, and as the queue is not empty it does not notify; thread 1 drops
  the dead entry, grants the tenant its first quantum, puts the shard back and answers \<open>Empty\<close>.
\<close>

definition slept_through :: "nat machine_event list" where
  "slept_through = first_enqueue @ [Go 0, Go 0, Meanwhile (Cancel (TaskHandle 1)),
    Start 1 CallDequeue, Go 1, Go 1, Go 1,
    Start 2 CallBlocking, Go 2, Go 2, Go 2, Go 2, Go 2, Go 2, Go 2,
    Start 0 (CallEnqueue tenant7 (demo_task 2)), Go 0, Go 0,
    Go 1, Go 1, Go 1, Go 1]"

text \<open>
  C18: With calls as single steps a consumer sleeps only while nothing is pending; between sections that
  fails. There is a run after which a consumer sleeps in \<open>dequeue_blocking\<close> although a task is
  pending and the scheduler is open, every other call has returned, and nothing wakes the consumer:
  it still sleeps after any number of its own turns.
\<close>

theorem wakeup_lost_between_sections:
  "\<exists>(evs :: nat machine_event list) x observed. machine_run demo_config demo_clock 3 evs = x \<and>
    threads x = [Ended (Accepted (TaskHandle 2)), Ended (NoTask Empty), BlockSleep observed] \<and>
    pending_ids (shared (sys x)) = {2} \<and> is_accepting_enqueues (shared (sys x)) \<and>
    (\<forall>n. fold (machine_step demo_config demo_clock) (replicate n (Go 2)) x = x)"
proof -
  define x where "x = machine_run demo_config demo_clock 3 slept_through"
  have t: "threads x = [Ended (Accepted (TaskHandle 2)), Ended (NoTask Empty), BlockSleep 2]"
    and p: "pending_ids (shared (sys x)) = {2}" and o: "is_accepting_enqueues (shared (sys x))"
    and w: "signal_seq (shared (sys x)) = 2"
    by (simp_all add: x_def slept_through_def eval eval_threads)
  have "machine_step demo_config demo_clock (Go 2) x = x"
    using t w by (simp add: wait_again_def three_threads)
  then have "fold (machine_step demo_config demo_clock) (replicate n (Go 2)) x = x" for n by (induction n) simp_all
  then have "\<forall>n. fold (machine_step demo_config demo_clock) (replicate n (Go 2)) x = x" ..
  moreover have "machine_run demo_config demo_clock 3 slept_through = x" by (simp only: x_def)
  ultimately show ?thesis using t p o by blast
qed

end
