(* ===== verification/Divergences.thy ===== *)
theory Divergences
  imports Scenario
begin

text \<open>
  Runs in which the code does something its documentation does not say, each evaluated on a
  concrete run.
\<close>

text \<open>
  The documentation calls the priorities strict. A task of normal priority is delivered while a
  task of high priority is pending and neither cancelled nor expired, when the tenant of the
  high task has not yet been credited.
\<close>

definition high_task :: "nat task" where
  "high_task = \<lparr>payload = 1, enqueue_ts = 0, deadline = None, prio = High, cost = 1\<rparr>"

lemma priority_not_strict:
  "\<exists>s. demo_run [EnqueueNow tenant7 (demo_task 0), Dequeue, EnqueueNow (TenantKey 8) high_task, Dequeue] =
      ([Accepted (TaskHandle 1), NoTask Empty, Accepted (TaskHandle 2), Delivered tenant7 (demo_task 0)], s) \<and>
    pending_ids (shared s) = {2}"
proof -
  define r where "r = demo_run [EnqueueNow tenant7 (demo_task 0), Dequeue, EnqueueNow (TenantKey 8) high_task, Dequeue]"
  have "fst r = [Accepted (TaskHandle 1), NoTask Empty, Accepted (TaskHandle 2), Delivered tenant7 (demo_task 0)]"
    "pending_ids (shared (snd r)) = {2}"
    by (simp_all add: r_def eval high_task_def) auto
  then show ?thesis by (intro exI [of _ "snd r"]) (simp add: r_def prod_eq_iff)
qed

text \<open>
  A purge that empties a queue marks the tenant inactive but leaves it in the ring, and the next
  enqueue pushes it once more: a tenant whose tasks are cancelled before they are dequeued takes
  one slot of the ring for each such task, without bound and with as many turns a round.
\<close>

definition single_config :: config where
  "single_config = default_config\<lparr>max_per_tenant := 1\<rparr>"

lemma ring_slots_pile_up:
  "\<exists>os s. run single_config demo_clock [EnqueueNow tenant7 (demo_task 0), Cancel (TaskHandle 1),
      EnqueueNow tenant7 (demo_task 1), Cancel (TaskHandle 2), EnqueueNow tenant7 (demo_task 2)] = (os, s) \<and>
    ring_items (active_rings (hd (shards s)) Normal) = [tenant7, tenant7, tenant7] \<and> pending_ids (shared s) = {3}"
proof -
  define r where "r = run single_config demo_clock [EnqueueNow tenant7 (demo_task 0), Cancel (TaskHandle 1),
      EnqueueNow tenant7 (demo_task 1), Cancel (TaskHandle 2), EnqueueNow tenant7 (demo_task 2)]"
  have "ring_items (active_rings (hd (shards (snd r))) Normal) = [tenant7, tenant7, tenant7]"
    "pending_ids (shared (snd r)) = {3}"
    by (simp_all add: r_def eval single_config_def ring_items_def)
  then show ?thesis by (intro exI [of _ "fst r"] exI [of _ "snd r"]) (simp add: r_def)
qed

text \<open>
  The documentation says that limits count live pending work. A full purge looks at no more than
  32 entries behind the live front of a queue, so a cancelled entry further back still counts: a
  tenant with a limit of 34 and 33 pending tasks is refused.
\<close>

definition wide_config :: config where
  "wide_config = default_config\<lparr>max_per_tenant := 34\<rparr>"

definition a_task :: "nat op" where
  "a_task = EnqueueNow tenant7 (demo_task 0)"

lemma dead_entry_counts:
  "\<exists>os s. run wide_config demo_clock
      [a_task, a_task, a_task, a_task, a_task, a_task, a_task, a_task, a_task, a_task, a_task, a_task, a_task, a_task,
       a_task, a_task, a_task, a_task, a_task, a_task, a_task, a_task, a_task, a_task, a_task, a_task, a_task, a_task,
       a_task, a_task, a_task, a_task, a_task, a_task, Cancel (TaskHandle 34), a_task] = (os, s) \<and>
    last os = NotAccepted \<and> rejected_tenant (stats (shared s)) = 1 \<and> queue_len_estimate (stats (shared s)) = 33"
proof -
  define r where "r = run wide_config demo_clock
      [a_task, a_task, a_task, a_task, a_task, a_task, a_task, a_task, a_task, a_task, a_task, a_task, a_task, a_task,
       a_task, a_task, a_task, a_task, a_task, a_task, a_task, a_task, a_task, a_task, a_task, a_task, a_task, a_task,
       a_task, a_task, a_task, a_task, a_task, a_task, Cancel (TaskHandle 34), a_task]"
  have "last (fst r) = NotAccepted" "rejected_tenant (stats (shared (snd r))) = 1"
    "queue_len_estimate (stats (shared (snd r))) = 33"
    by (simp_all add: r_def eval wide_config_def a_task_def)
  then show ?thesis by (intro exI [of _ "fst r"] exI [of _ "snd r"]) (simp add: r_def)
qed

text \<open>
  A quantum above the largest \<open>i64\<close> becomes negative in the cast \<open>as i64\<close>: each turn lowers the
  credit of the tenant, and its tasks are not delivered.
\<close>

definition huge_quantum_config :: config where
  "huge_quantum_config = default_config\<lparr>cfg_quantum := 18446744073709551615\<rparr>"

lemma huge_quantum_starves:
  "\<exists>s. run huge_quantum_config demo_clock [EnqueueNow tenant7 (demo_task 0), Dequeue, Dequeue, Dequeue] =
      ([Accepted (TaskHandle 1), NoTask Empty, NoTask Empty, NoTask Empty], s) \<and>
    map_option (\<lambda>ts. deficits ts Normal) (tenants (hd (shards s)) tenant7) = Some (- 3)"
proof -
  define r where "r = run huge_quantum_config demo_clock [EnqueueNow tenant7 (demo_task 0), Dequeue, Dequeue, Dequeue]"
  have "fst r = [Accepted (TaskHandle 1), NoTask Empty, NoTask Empty, NoTask Empty]"
    "map_option (\<lambda>ts. deficits ts Normal) (tenants (hd (shards (snd r))) tenant7) = Some (- 3)"
    by (simp_all add: r_def eval huge_quantum_config_def)
  then show ?thesis by (intro exI [of _ "snd r"]) (simp add: r_def prod_eq_iff)
qed

end
