(* ===== verification/Spec2Isabelle.thy ===== *)
theory Spec2Isabelle
  imports Scenario Prometheus Timed_Calls Pacing Slot_CAS Tower_Sound Async_Workers Exactly_Once Bench_Fifo_Run Pipeline Requests
    Tower_Reports Cancel_Race Threads_Sound Divergences
begin

text \<open>
  Firq is a scheduler for many tenants inside one Rust process: producers enqueue tasks under the
  key of a tenant, consumers dequeue them by deficit round robin. The crates are \<open>firq-core\<close> (the
  scheduler), \<open>firq-async\<close> (its use under tokio), \<open>firq-tower\<close> (a layer for HTTP services),
  \<open>firq-bench\<close> (a benchmark) and \<open>firq-examples\<close> (six programs, four of which are modelled). File
  names below are relative to \<open>src/crates\<close>.

  How the model is made. Data are records and datatypes with the source's fields and
  constructors. A \<open>u64\<close> or \<open>usize\<close> that enters through the interface is a \<open>64 word\<close>; a counter is
  a \<open>nat\<close> with \<open>saturating_add\<close> or \<open>wrapping_inc\<close> written out, and \<open>counters_are_u64\<close> checks that
  these naturals never leave the range of the code's type; an \<open>i64\<close> is an \<open>int\<close> with its casts and its wrap-around written out. Time
  is a \<open>nat\<close> of nanoseconds; the clock is an argument, a function from the number of reads made
  so far, and no law is assumed of it. Concurrency is interleaving: a call that
  holds the mutex of a shard is one step, a call that waits is a state machine of several steps
  between which all others may run. \<open>Threads_Sound\<close> goes below that, to single critical sections, and
  shows what of the step by step picture remains. Theorems about runs hold for every list of steps. The word
  \<open>witness\<close> in a name marks a theorem applied to a concrete run.

  The theories, from the bottom up.

  \<^item> \<open>Prelude\<close>: integers, list lemmas, the locale \<open>counted_system\<close> (an invariant that needs a bound
    on the number of steps) which the runs of the scheduler and of the layer instantiate.
  \<^item> \<open>Api\<close>: the types of \<open>firq-core/src/api.rs\<close>.
  \<^item> \<open>Ring\<close>, \<open>Top_Tenants\<close>, \<open>State\<close>: \<open>ActiveRing\<close> with the locale of a queue that it implements, the
    sketch of the most frequent tenants with its guarantee, \<open>TenantState\<close>, \<open>Shard\<close>, the counters and
    the \<open>Scheduler\<close> struct of \<open>firq-core/src/state.rs\<close>.
  \<^item> \<open>Shared_Ops\<close>: counters, slots, shutdown state, ids and cancellation markers of
    \<open>firq-core/src/scheduler.rs\<close>; \<open>Slot_CAS\<close> shows that its compare-and-exchange loops, access by
    access and for any number of threads, are the single steps used here, and that they are
    lock-free for threads that call them again and again; \<open>Cancel_Race\<close> that
    \<open>cancel\<close>, which takes no shard lock, and the call that takes the same task agree on one winner.
  \<^item> \<open>Purge\<close>, \<open>Enqueue\<close>, \<open>Dequeue\<close>, \<open>Scheduler\<close>: the operations of \<open>scheduler.rs\<close>, each a definition of
    its whole body. \<open>exec\<close> makes them the steps of a system and \<open>run\<close> a run from \<open>scheduler_new\<close>.
  \<^item> \<open>Ledger\<close>, \<open>Invariant\<close>, \<open>Enqueue_Sound\<close>, \<open>Dequeue_Sound\<close>, \<open>Scheduler_Sound\<close>: where a task can be and
    what the counters say; the invariant \<open>sched_ok\<close> (placement, rings, active shards, one place for
    each id) and the accounts \<open>books\<close>, kept by every operation; what an enqueue takes out of the
    queues, with \<open>drop_outcome\<close> for what a drop policy may evict.
  \<^item> \<open>Coverage\<close>, \<open>Pacing\<close>: what a dequeue reaches and how the deficits grow, up to the progress of
    deficit round robin.
  \<^item> \<open>Counters\<close>: invariants of the shared state alone, as two locales that lift a property of the
    elementary updates to all runs, with three interpretations.
  \<^item> \<open>Stats\<close>, \<open>Prometheus\<close>: the metrics snapshot with its floating point arithmetic bit by bit, and
    the exposition text of \<open>firq-core/src/prometheus.rs\<close> character by character, read back by a
    scraper and compared with the snapshot series by series (\<open>shows_counters\<close> and the like).
  \<^item> \<open>Blocking\<close>, \<open>Timed_Calls\<close>: \<open>dequeue_blocking\<close>, \<open>dequeue_blocking_timeout\<close> and the enqueue that
    waits, as state machines that satisfy the locale \<open>waiting_call\<close>.
  \<^item> \<open>Threads\<close>, \<open>Threads_Sound\<close>: enqueue, dequeue and \<open>dequeue_blocking\<close> as threads that take one
    critical section at a time: every shard with work is carried once, the invariant \<open>sched_ok\<close> is
    back whenever all threads are at rest, and a thread that is not interrupted does what the
    single step does; and one interleaving in which a wake-up is lost.
  \<^item> \<open>Tokio\<close>: what the other crates use of tokio, a record of operations with their documented
    behaviour as a predicate; \<open>counting_tokio\<close> and \<open>list_mpsc\<close> satisfy it.
  \<^item> \<open>Tower\<close>, \<open>Tower_Sound\<close>, \<open>Tower_Reports\<close>: \<open>firq-tower\<close>: builder, layer, the future of a call
    poll by poll, its cancel guard, the background worker; error texts and the saturation ratio.
  \<^item> \<open>Async\<close>, \<open>Async_Workers\<close>: \<open>firq-async\<close>: dequeues on pool threads, stream and receiver, the
    receiver with a worker thread and the stages of its drop, the dispatcher.
  \<^item> \<open>Traces\<close>: what the programs on top share: their scheduler has been through a run whose tasks
    satisfy what the producers guarantee, so what it holds and delivers does too; without
    deadlines and cancellations a task leaves only by delivery. \<open>Exactly_Once\<close> shows that a run
    delivers accepted tasks unchanged and none twice.
  \<^item> \<open>Bench_Fifo\<close>, \<open>Bench\<close>, \<open>Bench_Fifo_Run\<close>: \<open>firq-bench\<close>: the FIFO queue with mutex and condition
    variable, the scenarios and their choice, the run of a scenario against the scheduler and
    against the FIFO queue, the figures of both.
  \<^item> \<open>Pipeline\<close>: \<open>firq-examples/src/main.rs\<close>, its producers, workers and counters by tenant.
  \<^item> \<open>Parse\<close>, \<open>Requests\<close>: numbers read from text; tenants, answers and guarded handlers of the web
    programs \<open>axum_simple\<close>, \<open>axum_api\<close> and \<open>actix_web\<close>.
  \<^item> \<open>Scenario\<close>, \<open>Divergences\<close>: the configuration of the witnesses; runs in which the code does
    something its documentation does not say.
  \<^item> this theory: the properties of the scheduler as a whole.

  What is shown. Of the scheduler: no task is lost or counted twice, limits hold, handles are
  unique, a cancelled task is not delivered, each operation's effect on every branch, rejection
  reasons, shutdown, drain, progress, exact metrics. Of its parts: the ring is a queue, the purge
  is a filter, the sketch keeps its bound, the atomics are linearizable. Of waiting calls:
  timeouts are neither early nor missed; a consumer of \<open>dequeue_blocking\<close> sleeps only beside empty
  queues as long as the calls of others are single steps, which is not so between their critical
  sections. Of interleaved sections: no shard with work is forgotten or entered twice, and one
  interleaving loses a wake-up for ever. Of the adapters: bounds on handlers in
  flight, no orphaned task beyond the cases named, order of delivery, and what is lost when a
  stream or a worker receiver is dropped. Of the benchmark: its
  counters balance in both runs, except the figure that counts refused tasks, and its queue is a
  bounded queue. Of the examples: the pipeline's counters balance in total, by tenant and by tier;
  a guarded handler never waits, but takes the permit of any tenant.

  Bounds. Theorems about runs that count ask for at most \<open>2 ^ 64 - 1\<close> steps, the range of the task
  ids, after which ids would repeat; those of \<open>Bench\<close> and \<open>Requests\<close> for half of it, since a turn may
  be two operations of the scheduler. The progress theorem asks that largest cost plus largest quantum fit \<open>i64\<close>;
  \<open>huge_quantum_starves\<close> shows what happens otherwise. There is no fuel: loops recurse on lists, on
  lengths the code reads before the loop, or on the scan budget. Loops that wait are steps.

  Not modelled. Memory order: atomics are sequentially consistent. What happens between two
  accesses to the shared state inside one critical section, except what \<open>Slot_CAS\<close> and \<open>Cancel_Race\<close>
  show of it. Poisoned mutexes. The texts of \<open>Debug\<close>, except a reason's, and what is
  only printed. \<open>Clone\<close>, which copies references. In
  \<open>firq-async\<close> the delegations \<open>enqueue\<close>, \<open>stats\<close>, \<open>receiver\<close>, \<open>stream\<close> and the like, which only
  call what is modelled. In \<open>firq-bench\<close> elapsed time, throughput and the printed comparison. In
  \<open>firq-examples\<close> the frameworks' routing and JSON, and the programs \<open>async\<close> and \<open>async_worker\<close>, which
  connect producer loops like the pipeline's to the dispatcher and the worker receiver.
\<close>

subsection \<open>Counting tasks\<close>

text \<open>
  C1: Every task that was ever accepted is in exactly one account: delivered, expired,
  evicted by a drop policy, cancelled, or still pending; and the two counters the service
  exports for accepted and delivered tasks are exact. This holds after any interleaving of
  the operations of all callers.
\<close>

theorem conservation:
  assumes "length es \<le> u64_max" and "run C clk es = (os, s)"
  shows "count_out is_accepted os = count_out is_delivered os + expired (stats (shared s)) +
      dropped_policy (stats (shared s)) + count_out is_cancelled os + card (pending_ids (shared s)) \<and>
    enqueued (stats (shared s)) = count_out is_accepted os \<and>
    dequeued (stats (shared s)) = count_out is_delivered os"
  using run_inv_run(3) [OF assms] by (auto simp: books_def settled_def)

theorem conservation_witness:
  "\<exists>os s. demo_run [EnqueueNow tenant7 (demo_task 0), EnqueueNow tenant7 (demo_task 1), Dequeue, Dequeue,
      Cancel (TaskHandle 2)] = (os, s) \<and>
    2 = 1 + expired (stats (shared s)) + dropped_policy (stats (shared s)) + 1 + card (pending_ids (shared s)) \<and>
    enqueued (stats (shared s)) = 2 \<and> dequeued (stats (shared s)) = 1"
proof -
  obtain os s where r: "demo_run [EnqueueNow tenant7 (demo_task 0), EnqueueNow tenant7 (demo_task 1),
      Dequeue, Dequeue, Cancel (TaskHandle 2)] = (os, s)" by fastforce
  then have "count_out is_accepted os = 2" "count_out is_delivered os = 1" "count_out is_cancelled os = 1"
    by (auto simp: eval count_out_def)
  with conservation [OF _ r] r show ?thesis by simp
qed

text \<open>
  C3: The slot counter equals the number of pending tasks and never exceeds the global limit,
  and no tenant ever holds more entries than its limit, counting cancelled and expired ones.
\<close>

theorem capacity_respected:
  assumes "length es \<le> u64_max" and "run C clk es = (os, s)"
  shows "queue_len_estimate (stats (shared s)) = card (pending_ids (shared s)) \<and>
    card (pending_ids (shared s)) \<le> unat (max_global C) \<and>
    (\<Sum>p \<leftarrow> ordered. length (sched_queue s t p)) \<le> unat (max_per_tenant C)"
proof -
  have "shard_inv C (shards s ! shard_index s t)"
    using run_inv_run(1) [OF assms] shard_index_less by (auto simp: sched_ok_def)
  from tenant_entry_active(3) [OF this, of t "shared s"]
  have "(\<Sum>p \<leftarrow> ordered. length (sched_queue s t p)) \<le> unat (max_per_tenant C)"
    by (simp add: total_len_def tenant_entry_queue)
  with run_inv_run(3) [OF assms] show ?thesis by (simp add: books_def)
qed

theorem capacity_respected_witness:
  "\<exists>os s. demo_run [EnqueueNow tenant7 (demo_task 0), EnqueueNow tenant7 (demo_task 1)] = (os, s) \<and>
    queue_len_estimate (stats (shared s)) = 2 \<and> card (pending_ids (shared s)) = 2 \<and>
    (\<Sum>p \<leftarrow> ordered. length (sched_queue s tenant7 p)) \<le> 2"
proof -
  obtain os s where r: "demo_run [EnqueueNow tenant7 (demo_task 0), EnqueueNow tenant7 (demo_task 1)] = (os, s)"
    by fastforce
  then have "pending_ids (shared s) = {1, 2}" by (auto simp: eval)
  moreover have "unat (max_per_tenant demo_config) = 2" by (simp add: demo_config_def)
  ultimately show ?thesis using capacity_respected [OF _ r, of tenant7] r by simp
qed

subsection \<open>No task is lost\<close>

text \<open>
  C4: Every pending task sits in a queue whose tenant is in the ring of that priority, in a
  shard that is among the active shards: the dequeue loops will come to it. In particular
  there is no state in which work is queued and the scheduler does not know of it.
\<close>

theorem no_lost_work:
  assumes "length es \<le> u64_max" and "run C clk es = (os, s)" and "i \<in> pending_ids (shared s)"
  shows "\<exists>t p. i \<in> set (ids (sched_queue s t p)) \<and>
    t \<in> set (ring_items (active_rings (shards s ! shard_index s t) p)) \<and>
    shard_index s t \<in> set (ring_items (active_shards s))"
proof -
  from run_inv_run(1) [OF assms(1,2)] have ok: "sched_ok C s" .
  then have "ledger s" and ac: "active_inv s" and pl: "placed s" by (simp_all add: sched_ok_def)
  with assms(3) obtain t p where tp: "i \<in> set (ids (sched_queue s t p))"
    unfolding ledger_def by blast
  let ?j = "shard_index s t"
  have j: "?j < length (shards s)" using shard_index_less [OF pl] .
  with ok have inv: "shard_inv C (shards s ! ?j)" by (simp add: sched_ok_def)
  have "sched_queue s t p \<noteq> []" using tp by auto
  then have in_ring: "t \<in> set (ring_items (active_rings (shards s ! ?j) p))"
    using tenant_entry_active(1,2) [OF inv, of t "shared s" p] by (simp add: tenant_entry_queue)
  moreover have "\<not> rings_empty (shards s ! ?j)"
    using in_ring rings_empty_items [of "shards s ! ?j"] inv by (auto simp: shard_inv_def)
  ultimately show ?thesis using tp ac j by (auto simp: active_inv_def)
qed

theorem no_lost_work_witness:
  "\<exists>os s t p. demo_run [EnqueueNow tenant7 (demo_task 0)] = (os, s) \<and> 1 \<in> set (ids (sched_queue s t p)) \<and>
    shard_index s t \<in> set (ring_items (active_shards s))"
proof -
  obtain os s where r: "demo_run [EnqueueNow tenant7 (demo_task 0)] = (os, s)" by fastforce
  then have "1 \<in> pending_ids (shared s)" by (auto simp: eval)
  with no_lost_work [OF _ r] r show ?thesis by fastforce
qed

subsection \<open>Handles and cancellation\<close>

text \<open>
  The handles given out by a run are 1, 2, 3 and so on in the order of acceptance: they
  are all different, so a handle names one task.
\<close>

theorem handles_in_order:
  assumes "length es \<le> u64_max" and "run C clk es = (os, s)"
  shows "handles os = map TaskHandle [1..<Suc (count_out is_accepted os)] \<and> distinct (handles os)"
  using run_inv_run(4) [OF assms] by (simp add: distinct_map inj_on_def)

theorem handles_in_order_witness:
  "\<exists>os s. demo_run [EnqueueNow tenant7 (demo_task 0), EnqueueNow tenant7 (demo_task 1)] = (os, s) \<and>
    handles os = map TaskHandle [1..<3] \<and> distinct (handles os)"
proof -
  obtain os s where r: "demo_run [EnqueueNow tenant7 (demo_task 0), EnqueueNow tenant7 (demo_task 1)] = (os, s)"
    by fastforce
  then have "count_out is_accepted os = 2" by (auto simp: eval count_out_def)
  with handles_in_order [OF _ r] r show ?thesis by (simp add: numeral_3_eq_3 numeral_2_eq_2)
qed

text \<open>
  C5: A cancelled task is never delivered: whatever happens after a successful \<open>cancel\<close>, a
  dequeue returns the task of an entry with another id.
\<close>

theorem cancelled_never_delivered:
  assumes "length (es @ es') < u64_max" and "run C clk es = (os, s)" and "cancel h s = (Cancelled, s1)"
    and "fold (run_step C clk) es' (os @ [CancelDone], s1) = (os', s')"
    and "try_dequeue clk s' = (DequeuedTask t task, s'')"
  shows "\<exists>p pre e. sched_queue s' t p = pre @ e # sched_queue s'' t p \<and> entry_task e = task \<and>
    entry_id e \<noteq> handle_id h"
proof -
  have "length es \<le> u64_max" using assms(1) by simp
  note r = run_inv_run [OF this assms(2)]
  have "exec C clk (Cancel h) s = (CancelDone, s1)" using assms(3) by simp
  then have inv: "run_inv C (Suc (length es)) (os @ [CancelDone], s1)"
    using runs.inv_step [of C "length es" "(os, s)" clk "Cancel h"] r assms(1)
    by (simp add: run_inv_def run_step_def del: exec.simps)
  note gone = cancel_gone [OF assms(3)]
  have "handle_id h \<le> next_task_id (shared s1)"
    using gone(1,3) r(3) by (simp add: books_def)
  moreover have "Suc (length es) + length es' \<le> u64_max" using assms(1) by simp
  ultimately have "handle_id h \<notin> pending_ids (shared s') \<and> run_inv C (Suc (length es) + length es') (os', s')"
    by (rule never_pending_again [OF inv gone(2) _ _ assms(4)])
  then have not_pending: "handle_id h \<notin> pending_ids (shared s')" and ok: "sched_ok C s'"
    by (simp_all add: run_inv_def)
  from delivered_entry [OF ok assms(5)] obtain p pre e
    where "sched_queue s' t p = pre @ e # sched_queue s'' t p" "entry_task e = task" "entry_id e \<in> pending_ids (shared s')"
    by blast
  moreover from this(3) not_pending have "entry_id e \<noteq> handle_id h" by metis
  ultimately show ?thesis by blast
qed

theorem cancelled_never_delivered_witness:
  "\<exists>os s s1 os' s' s'' task. demo_run [EnqueueNow tenant7 (demo_task 0), EnqueueNow tenant7 (demo_task 1)] = (os, s) \<and>
    cancel (TaskHandle 1) s = (Cancelled, s1) \<and>
    fold (run_step demo_config demo_clock) [Dequeue] (os @ [CancelDone], s1) = (os', s') \<and>
    try_dequeue demo_clock s' = (DequeuedTask tenant7 task, s'') \<and>
    (\<exists>p pre e. sched_queue s' tenant7 p = pre @ e # sched_queue s'' tenant7 p \<and> entry_task e = task \<and> entry_id e \<noteq> 1)"
proof -
  let ?es = "[EnqueueNow tenant7 (demo_task 0), EnqueueNow tenant7 (demo_task 1)]"
  let ?r = "demo_run ?es"
  let ?c = "cancel (TaskHandle 1) (snd ?r)"
  let ?f = "fold (run_step demo_config demo_clock) [Dequeue] (fst ?r @ [CancelDone], snd ?c)"
  let ?d = "try_dequeue demo_clock (snd ?f)"
  have r: "?r = (fst ?r, snd ?r)" and f: "?f = (fst ?f, snd ?f)" by (rule prod.collapse [symmetric])+
  have "fst ?c = Cancelled" by (simp add: eval)
  then have c: "?c = (Cancelled, snd ?c)" by (metis prod.collapse)
  have "fst ?d = DequeuedTask tenant7 (demo_task 1)" by (simp add: eval)
  then have d: "?d = (DequeuedTask tenant7 (demo_task 1), snd ?d)" by (metis prod.collapse)
  have len: "length (?es @ [Dequeue]) < u64_max" by simp
  from cancelled_never_delivered [OF len r c f d] have "\<exists>p pre e. sched_queue (snd ?f) tenant7 p =
      pre @ e # sched_queue (snd ?d) tenant7 p \<and> entry_task e = demo_task 1 \<and> entry_id e \<noteq> 1"
    by (simp only: task_handle.sel)
  with r c f d show ?thesis by blast
qed

subsection \<open>What a dequeue does\<close>

text \<open>
  C6: A delivered task is the first entry of its tenant and priority that was still live: the
  entries in front of it were cancelled, or expired at a clock reading of the call. It was
  pending, it is pending no more, it was not expired when the call looked, and the entries
  behind it stay in their order.
\<close>

theorem dequeue_oldest_live:
  assumes "sched_ok C s" and "try_dequeue clk s = (DequeuedTask t task, s')"
  shows "\<exists>p pre e. sched_queue s t p = pre @ e # sched_queue s' t p \<and> entry_task e = task \<and>
    entry_id e \<in> pending_ids (shared s) \<and> entry_id e \<notin> pending_ids (shared s') \<and>
    (\<forall>x \<in> set pre. gone clk (shared s) (shared s') x) \<and>
    (\<exists>k. ticks (shared s) \<le> k \<and> k < ticks (shared s') \<and> \<not> is_expired (deadline task) (clk k))"
  by (rule delivered_entry [OF assms])

theorem dequeue_oldest_live_witness:
  "\<exists>os s s' p pre e. demo_run [EnqueueNow tenant7 (late_task 0), EnqueueNow tenant7 (demo_task 1), Dequeue] = (os, s) \<and>
    try_dequeue demo_clock s = (DequeuedTask tenant7 (demo_task 1), s') \<and>
    sched_queue s tenant7 p = pre @ e # sched_queue s' tenant7 p \<and> entry_task e = demo_task 1"
proof -
  obtain os s where r: "demo_run [EnqueueNow tenant7 (late_task 0), EnqueueNow tenant7 (demo_task 1), Dequeue] = (os, s)"
    by fastforce
  obtain d s' where d: "try_dequeue demo_clock s = (d, s')" by fastforce
  with r have "d = DequeuedTask tenant7 (demo_task 1)" by (auto simp: eval)
  moreover have "sched_ok demo_config s" using run_inv_run(1) [OF _ r] by simp
  ultimately show ?thesis using dequeue_oldest_live [of demo_config s demo_clock tenant7 "demo_task 1" s'] r d by metis
qed

text \<open>
  C7: A dequeue, whatever it answers, removes nothing but the task it returns and entries that
  are cancelled or expired at a clock reading of the call: live work is never dropped.
\<close>

theorem dequeue_discards_only_dead:
  assumes "sched_ok C s" and "try_dequeue clk s = (r, s')"
    and "e \<in> set (sched_queue s t p)" and "e \<notin> set (sched_queue s' t p)"
  shows "gone clk (shared s) (shared s') e \<or> r = DequeuedTask t (entry_task e)"
  by (rule removed_by_dequeue [OF assms])

theorem dequeue_discards_only_dead_witness:
  "\<exists>os s s' e. demo_run [EnqueueNow tenant7 (late_task 0)] = (os, s) \<and> try_dequeue demo_clock s = (Empty, s') \<and>
    e \<in> set (sched_queue s tenant7 Normal) \<and> e \<notin> set (sched_queue s' tenant7 Normal) \<and>
    gone demo_clock (shared s) (shared s') e"
proof -
  let ?e = "\<lparr>entry_id = 1, entry_task = late_task 0\<rparr>"
  obtain os s where r: "demo_run [EnqueueNow tenant7 (late_task 0)] = (os, s)" by fastforce
  obtain d s' where d: "try_dequeue demo_clock s = (d, s')" by fastforce
  with r have "d = Empty" and q: "?e \<in> set (sched_queue s tenant7 Normal)" "?e \<notin> set (sched_queue s' tenant7 Normal)"
    by (auto simp: eval sched_queue_def squeue_def)
  moreover have "sched_ok demo_config s" using run_inv_run(1) [OF _ r] by simp
  ultimately show ?thesis
    using dequeue_discards_only_dead [of demo_config s demo_clock d s' ?e tenant7 Normal] r d by auto
qed

subsection \<open>What an enqueue does\<close>

text \<open>
  C8: Under the reject policy an enqueue never gives up live work. An accepted task gets the
  next id and stands at the back of its queue, the queues of other tenants are untouched,
  and what leaves the tenant's queues on the way is cancelled or expired. A rejected or
  refused task changes nothing else.
\<close>

theorem reject_policy_effect:
  assumes "length es < u64_max" and "run C clk es = (os, s)"
    and "enqueue_reject_with_handle C clk t task s = (r, s')"
  shows "enqueues clk {} t task (accepted_id r) s s' \<and>
    (\<forall>h. r = Enqueued h \<longrightarrow> h = TaskHandle (Suc (count_out is_accepted os)))"
proof -
  have len: "length es \<le> u64_max" using assms(1) by simp
  note i = run_inv_run [OF len assms(2)]
  have "count_out is_accepted os < u64_max" using i(2) assms(1) by simp
  from enqueue_reject_sound [OF i(1,3) this assms(3)] show ?thesis
    by (auto simp: sound_as_def task_handle.expand)
qed

theorem reject_policy_effect_witness:
  "\<exists>os s s'. demo_run [EnqueueNow tenant7 (late_task 0), EnqueueNow tenant7 (demo_task 1)] = (os, s) \<and>
    enqueue_reject_with_handle demo_config demo_clock tenant7 (demo_task 2) s = (Enqueued (TaskHandle 3), s') \<and>
    enqueues demo_clock {} tenant7 (demo_task 2) (Some 3) s s'"
proof -
  obtain os s where r: "demo_run [EnqueueNow tenant7 (late_task 0), EnqueueNow tenant7 (demo_task 1)] = (os, s)"
    by fastforce
  obtain d s' where d: "enqueue_reject_with_handle demo_config demo_clock tenant7 (demo_task 2) s = (d, s')" by fastforce
  with r have "d = Enqueued (TaskHandle 3)" by (auto simp: eval)
  with reject_policy_effect [OF _ r d] r d show ?thesis by auto
qed

text \<open>
  C9: An enqueue under a drop policy takes from the queues, besides cancelled and expired
  entries of the tenant, at most one task \<open>e\<close>, and only when it accepts the new one. Then the
  tenant is at its limit, or every slot is taken, even after the call, so without the eviction
  there was no room. \<open>e\<close> is pending and of the same tenant, its priority is not above that of the
  new task, every entry of a lower priority is cancelled or expired, and so is every entry in
  front of \<open>e\<close> in its queue (\<open>Oldest\<close>) or behind it (\<open>Newest\<close>). Nothing is evicted for a task
  that is refused: with \<open>TenantFull\<close> the tenant is at its limit and has no entry left that the
  policy may drop, with \<open>GlobalFull\<close> every slot is taken, and it is refused as closed only when the
  scheduler does not accept enqueues.
\<close>

theorem drop_policy_effect:
  assumes "length es < u64_max" and "run C clk es = (os, s)"
    and "enqueue_drop_with_handle C clk strategy t task s = (r, s')"
  shows "\<exists>V. drop_outcome C clk strategy t task r V s s' \<and> enqueues clk V t task (accepted_id r) s s'"
proof -
  have len: "length es \<le> u64_max" using assms(1) by simp
  note i = run_inv_run [OF len assms(2)]
  have "count_out is_accepted os < u64_max" using i(2) assms(1) by simp
  from enqueue_drop_sound [OF i(1,3) this assms(3)] show ?thesis by (auto simp: sound_as_def)
qed

theorem drop_policy_effect_witness:
  "\<exists>os s s' V. run demo_drop_config demo_clock [EnqueueNow tenant7 (demo_task 0)] = (os, s) \<and>
    enqueue_drop_with_handle demo_drop_config demo_clock Oldest tenant7 (demo_task 1) s = (Enqueued (TaskHandle 2), s') \<and>
    drop_outcome demo_drop_config demo_clock Oldest tenant7 (demo_task 1) (Enqueued (TaskHandle 2)) V s s' \<and>
    enqueues demo_clock V tenant7 (demo_task 1) (Some 2) s s'"
proof -
  obtain os s where r: "run demo_drop_config demo_clock [EnqueueNow tenant7 (demo_task 0)] = (os, s)" by fastforce
  obtain d s' where d: "enqueue_drop_with_handle demo_drop_config demo_clock Oldest tenant7 (demo_task 1) s = (d, s')"
    by fastforce
  with r have out: "d = Enqueued (TaskHandle 2)" by (auto simp: eval)
  from drop_policy_effect [OF _ r d] obtain V where "drop_outcome demo_drop_config demo_clock Oldest tenant7 (demo_task 1) d V s s'"
    "enqueues demo_clock V tenant7 (demo_task 1) (accepted_id d) s s'" by auto
  with out r d show ?thesis by (intro exI conjI) simp_all
qed

text \<open>
  C10: A rejection is true to its reason: with \<open>TenantFull\<close> the tenant's queues are at the limit
  even after the purge, with \<open>GlobalFull\<close> every slot is taken by a pending task, the reject
  path never answers with a timeout, and it refuses as closed exactly when it is not open.
\<close>

theorem rejection_reasons:
  assumes "length es < u64_max" and "run C clk es = (os, s)"
    and "enqueue_reject_with_handle C clk t task s = (r, s')"
  shows "(r = Rejected TenantFull \<longrightarrow> tenant_load s' t = unat (max_per_tenant C)) \<and>
    (r = Rejected GlobalFull \<longrightarrow> card (pending_ids (shared s')) = unat (max_global C)) \<and>
    r \<noteq> Rejected TimedOut \<and> (r = EnqueueClosed \<longleftrightarrow> \<not> is_accepting_enqueues (shared s))"
proof -
  have len: "length es \<le> u64_max" using assms(1) by simp
  note i = run_inv_run [OF len assms(2)]
  have "count_out is_accepted os < u64_max" using i(2) assms(1) by simp
  note sound = enqueue_reject_sound [OF i(1,3) this assms(3)]
  have le: "tenant_load s' t \<le> unat (max_per_tenant C)"
    using sound tenant_load_le by (auto simp: sound_as_def)
  have bk: "accepted_id r = None \<Longrightarrow> slots (shared s') = card (pending_ids (shared s')) \<and> slots (shared s') \<le> unat (max_global C)"
    using sound by (auto simp: sound_as_def books_def)
  have load: "tenant_load (s\<lparr>shared := g\<rparr>) t = tenant_load s t" for g and s :: "'a sched"
    by (simp add: tenant_load_def sched_queue_def shard_index_def)
  have sl: "slots (record_reject reason g) = slots g" for reason g
    by (cases reason) (simp_all add: count_up_def)
  obtain att s1 where att: "enqueue_try_reject C clk t task s = (att, s1)" by fastforce
  show ?thesis
  proof (cases att)
    case (AttemptFull task' reason)
    with assms(3) att have r: "r = Rejected reason" and s': "s' = s1\<lparr>shared := record_reject reason (shared s1)\<rparr>"
      by (simp_all add: enqueue_reject_with_handle_def)
    have "is_accepting_enqueues (shared s)" using att AttemptFull by (auto simp: enqueue_try_reject_def split: if_splits)
    with try_reject_full [OF i(1) att [unfolded AttemptFull]] le bk show ?thesis
      by (cases reason) (auto simp: r s' load sl simp del: record_reject.simps)
  qed (use assms(3) att in \<open>auto simp: enqueue_reject_with_handle_def enqueue_try_reject_def Let_def
         split: if_splits prod.splits\<close>)
qed

theorem rejection_reasons_witness:
  "\<exists>os s s'. demo_run [EnqueueNow tenant7 (demo_task 0), EnqueueNow tenant7 (demo_task 1)] = (os, s) \<and>
    enqueue_reject_with_handle demo_config demo_clock tenant7 (demo_task 2) s = (Rejected TenantFull, s') \<and>
    tenant_load s' tenant7 = 2"
proof -
  obtain os s where r: "demo_run [EnqueueNow tenant7 (demo_task 0), EnqueueNow tenant7 (demo_task 1)] = (os, s)"
    by fastforce
  obtain d s' where d: "enqueue_reject_with_handle demo_config demo_clock tenant7 (demo_task 2) s = (d, s')" by fastforce
  with r have "d = Rejected TenantFull" by (auto simp: eval)
  moreover have "unat (max_per_tenant demo_config) = 2" by (simp add: demo_config_def)
  ultimately show ?thesis using rejection_reasons [OF _ r d] r d by auto
qed

subsection \<open>Shutdown\<close>

text \<open>
  Once the scheduler is closing, in either mode, an enqueue is refused under every policy
  and leaves the state as it is; after an immediate close a dequeue answers \<open>Closed\<close> and
  hands out nothing.
\<close>

theorem closed_refuses:
  assumes "shutdown_state (shared s) \<noteq> 0"
  shows "enqueue_reject_with_handle C clk t task s = (EnqueueClosed, s) \<and>
    enqueue_drop_with_handle C clk strategy t task s = (EnqueueClosed, s) \<and>
    enqueue_try_reject C clk t task s = (AttemptClosed, s) \<and>
    (shutdown_state (shared s) = 2 \<longrightarrow> try_dequeue clk s = (Closed, s))"
  using assms
  by (simp add: enqueue_reject_with_handle_def enqueue_drop_with_handle_def enqueue_try_reject_def
      is_accepting_enqueues_def try_dequeue_def)

theorem closed_refuses_witness:
  "\<exists>os s. demo_run [EnqueueNow tenant7 (demo_task 0), Close Immediate] = (os, s) \<and>
    enqueue_reject_with_handle demo_config demo_clock tenant7 (demo_task 1) s = (EnqueueClosed, s) \<and>
    try_dequeue demo_clock s = (Closed, s)"
proof -
  obtain os s where r: "demo_run [EnqueueNow tenant7 (demo_task 0), Close Immediate] = (os, s)" by fastforce
  then have "shutdown_state (shared s) = 2" by (auto simp: eval)
  with closed_refuses [of s demo_config demo_clock tenant7 "demo_task 1"] r show ?thesis by auto
qed

text \<open>
  C39: A drain ends exactly when the work has: after a drain close, a dequeue that returns no
  task answers \<open>Closed\<close> if no task is pending any more, and \<open>Empty\<close> if some are.
\<close>

theorem drain_until_empty:
  assumes "length es \<le> u64_max" and "run C clk es = (os, s)" and "shutdown_state (shared s) = 1"
    and "try_dequeue clk s = (r, s')"
  shows "dequeued_of r \<noteq> None \<or> r = (if pending_ids (shared s') = {} then Closed else Empty)"
proof -
  note i = run_inv_run [OF assms(1,2)]
  from try_dequeue_sound [OF i(1) assms(4)] obtain R where
    R: "takes clk R (dequeued_of r) (sched_queue s) (shared s) (sched_queue s') (shared s')" by blast
  have st: "shutdown_state (shared s') = 1"
    using takesD(4) [OF R] assms(3) by (simp add: tally_def same_frame_def)
  have bk: "finite (pending_ids (shared s'))" "slots (shared s') = card (pending_ids (shared s'))"
    using try_dequeue_books [OF i(1,3) assms(4)] by (simp_all add: books_def)
  then have "slots (shared s') = 0 \<longleftrightarrow> pending_ids (shared s') = {}" by simp
  with st assms(3,4) show ?thesis
    by (auto simp: try_dequeue_def dequeued_of_def should_return_closed_def split: option.splits prod.splits if_splits)
qed

theorem drain_until_empty_witness:
  "\<exists>os s s'. demo_run [EnqueueNow tenant7 (demo_task 0), Close Drain] = (os, s) \<and>
    try_dequeue demo_clock s = (Empty, s') \<and> pending_ids (shared s') \<noteq> {}"
proof -
  obtain os s where r: "demo_run [EnqueueNow tenant7 (demo_task 0), Close Drain] = (os, s)" by fastforce
  obtain d s' where d: "try_dequeue demo_clock s = (d, s')" by fastforce
  with r have "d = Empty" "shutdown_state (shared s) = 1" by (auto simp: eval)
  with drain_until_empty [OF _ r _ d] r d show ?thesis by (auto simp: dequeued_of_def split: if_splits)
qed

end
